(* ===== verification/Prelude.thy ===== *)
theory Prelude
  imports Main "HOL-Library.Word" "HOL-Library.Monad_Syntax"
begin

text \<open>
  Shared vocabulary of the development: the machine types of \<^verbatim>\<open>src/kernel/types.h\<close>, the way a
  kernel panic is written, and the generic facts on words, lists and options that the component
  theories use.

  Kernel code that cannot return (it calls \<^verbatim>\<open>panic\<close>, dereferences a null pointer, or sleeps with
  nobody left to wake it) is the value \<open>None\<close> of an option; code that returns is \<open>Some\<close> of its
  result.  Stateful code takes the state as its last argument and returns it with the result, so the
  sequencing of the C statements is the option monad's \<open>do\<close> block.
\<close>

unbundle bit_operations_syntax

type_synonym uchar = "8 word"
type_synonym ushort = "16 word"
type_synonym uint = "32 word"

definition panic :: "string \<Rightarrow> 'a option" where
  "panic msg = None"

text \<open>A dereferenced null pointer or a read or write outside its object.\<close>

definition undefined_behaviour :: "string \<Rightarrow> 'a option" where
  "undefined_behaviour what = None"

text \<open>
  A process that would have to wait for another one.  The models of the file system run one process
  at a time, so a call that sleeps there does not return.
\<close>

definition blocked :: "string \<Rightarrow> 'a option" where
  "blocked what = None"

named_theorems kernel_fail \<open>failing calls are None\<close>

lemma panic_None [simp, kernel_fail]: "panic msg = None"
  by (simp add: panic_def)

lemma undefined_behaviour_None [simp, kernel_fail]: "undefined_behaviour msg = None"
  by (simp add: undefined_behaviour_def)

lemma blocked_None [simp, kernel_fail]: "blocked msg = None"
  by (simp add: blocked_def)

section \<open>Calls that return\<close>

text \<open>\<open>ok m Q\<close>: the call \<open>m\<close> returns, and its result satisfies \<open>Q\<close>.\<close>

definition ok :: "'a option \<Rightarrow> ('a \<Rightarrow> bool) \<Rightarrow> bool" where
  "ok m Q \<longleftrightarrow> (case m of None \<Rightarrow> False | Some x \<Rightarrow> Q x)"

named_theorems ok_simps \<open>ok of the sequencing constructs\<close>

lemma ok_Some [simp, ok_simps]: "ok (Some x) Q \<longleftrightarrow> Q x"
  by (simp add: ok_def)

lemma ok_None [simp, ok_simps]: "ok None Q \<longleftrightarrow> False"
  by (simp add: ok_def)

lemma ok_bind [ok_simps]: "ok (Option.bind m f) Q \<longleftrightarrow> ok m (\<lambda>x. ok (f x) Q)"
  by (cases m) simp_all

lemma ok_if [ok_simps]: "ok (if b then m else n) Q \<longleftrightarrow> (b \<longrightarrow> ok m Q) \<and> (\<not> b \<longrightarrow> ok n Q)"
  by simp

lemma ok_mono: "ok m Q \<Longrightarrow> (\<And>x. Q x \<Longrightarrow> R x) \<Longrightarrow> ok m R"
  by (cases m) auto

lemma ok_iff: "ok m Q \<longleftrightarrow> (\<exists>x. m = Some x \<and> Q x)"
  by (cases m) auto

text \<open>A call whose result is known, followed by the rest.\<close>

lemma ok_bindI: "ok m Q \<Longrightarrow> (\<And>x. Q x \<Longrightarrow> ok (f x) R) \<Longrightarrow> ok (Option.bind m f) R"
  by (cases m) auto

text \<open>A counting loop over a state: the body may fail.\<close>

fun mfold :: "('a \<Rightarrow> 's \<Rightarrow> 's option) \<Rightarrow> 'a list \<Rightarrow> 's \<Rightarrow> 's option" where
  "mfold body [] s = Some s"
| "mfold body (i # rounds) s = Option.bind (body i s) (mfold body rounds)"

lemma mfold_append: "mfold f (xs @ ys) s = Option.bind (mfold f xs s) (mfold f ys)"
  by (induction xs arbitrary: s) (auto split: bind_splits)

text \<open>Loop rule: \<open>I t\<close> holds before the \<open>t\<close>-th round.\<close>

lemma ok_mfold:
  assumes "I 0 s" "\<And>t s. t < n \<Longrightarrow> I t s \<Longrightarrow> ok (f t s) (I (Suc t))"
  shows "ok (mfold f [0..<n] s) (I n)"
  using assms(2)
proof (induction n)
  case 0
  then show ?case
    using assms(1) by simp
next
  case (Suc n)
  have "ok (mfold f [0..<n] s) (I n)"
    using Suc by simp
  then have "ok (mfold f [0..<n] s) (\<lambda>s. ok (f n s) (I (Suc n)))"
    by (rule ok_mono) (rule Suc.prems [OF lessI])
  then show ?case
    by (simp add: mfold_append ok_bind)
qed

section \<open>Words\<close>

lemma unat_of_nat_small [simp]: "n < 2 ^ 32 \<Longrightarrow> unat (of_nat n :: uint) = n"
  by (simp add: unat_of_nat take_bit_nat_eq_self)

lemma unat_uint_less: "unat (x :: uint) < 2 ^ 32"
  using unsigned_less [of x] by simp

lemma unat_neg1_uint [simp]: "unat (- 1 :: uint) = 2 ^ 32 - 1"
  by (simp add: unsigned_minus_1_eq_mask mask_eq_exp_minus_1)

lemma word_offset_eq: "(a :: uint) = p + of_nat (unat (a - p))"
  by simp

text \<open>Offsets of an address from a base, and from the address after the base.\<close>

lemma unat_diff_step: "x \<noteq> a \<Longrightarrow> unat (x - (a + 1) :: uint) = unat (x - a) - 1"
  using unat_minus_one [of "x - a"] by (simp add: diff_diff_eq)

lemma offset_less_Suc:
  "unat (x - a :: uint) < Suc n \<longleftrightarrow> x = a \<or> unat (x - (a + 1)) < n"
proof (cases "x = a")
  case False
  then have "0 < unat (x - a)"
    by (simp add: unat_gt_0)
  with False show ?thesis
    by (auto simp: unat_diff_step)
qed simp

lemma unat_sub_uint:
  "unat (a - b :: uint) =
     (if unat b \<le> unat a then unat a - unat b else unat a + 2 ^ 32 - unat b)"
  using unat_sub_if_size [of a b] by (simp add: word_size)

lemma unat_sub_wrap: "a < b \<Longrightarrow> unat (a - b :: uint) = 2 ^ 32 - (unat b - unat a)"
  using unat_uint_less [of b] by (auto simp: unat_sub_uint word_less_nat_alt)

text \<open>Counting a window of \<open>n\<close> bytes from its last byte or from its first is the same.\<close>

lemma window_flip: "n \<noteq> 0 \<Longrightarrow> unat ((n - 1) - y :: uint) < unat n \<longleftrightarrow> unat y < unat n"
proof -
  assume "n \<noteq> 0"
  then have n1: "unat (n - 1) = unat n - 1" "0 < unat n"
    by (simp_all add: unat_minus_one unat_gt_0)
  then show ?thesis
    using unat_uint_less [of y] by (auto simp: unat_sub_uint [of "n - 1" y])
qed

section \<open>Bounded quantifiers over ranges\<close>

lemma find_upt_Some: "find P [0..<n] = Some i \<longleftrightarrow> i < n \<and> P i \<and> (\<forall>j < i. \<not> P j)"
  unfolding find_Some_iff by auto

lemma find_upt_None: "find P [0..<n] = None \<longleftrightarrow> (\<forall>i < n. \<not> P i)"
  by (auto simp: find_None_iff)

lemma all_less_Suc_shift:
  "(\<forall>i < Suc n. P i) \<longleftrightarrow> P 0 \<and> (\<forall>i < n. P (Suc i))"
  by (auto simp: less_Suc_eq_0_disj)

section \<open>Ring buffers\<close>

text \<open>
  A counter that only grows and wraps around at 32 bits, taken modulo a power of two.  Slots less than a turn of the ring
  apart are different, even when the counter wraps around.
\<close>

lemma ring_slot:
  assumes "unat m dvd 2 ^ 32"
  shows "unat ((r + of_nat n) mod m) = (unat (r :: uint) + n) mod unat m"
proof -
  have "unat (r + of_nat n) = (unat r + n) mod 2 ^ 32"
    by (simp add: unat_word_ariths(1) unat_of_nat take_bit_nat_def mod_add_right_eq)
  then show ?thesis
    using mod_mod_cancel [OF assms] by (simp add: unat_mod)
qed

lemma ring_slot_inj:
  fixes r :: uint
  assumes "unat m dvd 2 ^ 32" "i < unat m" "j < unat m" "unat ((r + of_nat i) mod m) = unat ((r + of_nat j) mod m)"
  shows "i = j"
proof -
  have "(unat r + i) mod unat m = (unat r + j) mod unat m"
    using assms(4) by (simp add: ring_slot [OF assms(1)])
  from arg_cong [OF this, of int] have "int (unat r + i) mod int (unat m) = int (unat r + j) mod int (unat m)"
    by (simp only: zmod_int)
  then have "int i mod int (unat m) = int j mod int (unat m)"
    by (simp add: mod_eq_dvd_iff)
  moreover have "int i mod int (unat m) = int i" "int j mod int (unat m) = int j"
    using assms(2,3) by (simp_all only: mod_pos_pos_trivial of_nat_0_le_iff of_nat_less_iff)
  ultimately show ?thesis
    by simp
qed

end
