(* ===== verification/KString.thy ===== *)
theory KString
  imports Prelude
begin

text \<open>
  \<^verbatim>\<open>src/kernel/string.c\<close>: the kernel's byte and string routines over a flat 32-bit memory.
  A pointer is a \<open>32 word\<close>, the memory maps it to the byte stored there, and pointer arithmetic
  wraps as it does on the machine.  Each loop of the C text is a recursive function on the number of
  iterations left.  The lemmas characterise the memory after each routine byte by byte.
\<close>

type_synonym mem = "uint \<Rightarrow> uchar"

section \<open>memset\<close>

text \<open>The string instructions \<^verbatim>\<open>rep stosb\<close> and \<^verbatim>\<open>rep stosl\<close> (\<^verbatim>\<open>x86.h\<close>), upwards from \<open>a\<close>.\<close>

fun stosb :: "mem \<Rightarrow> uint \<Rightarrow> uchar \<Rightarrow> nat \<Rightarrow> mem" where
  "stosb m a c 0 = m"
| "stosb m a c (Suc n) = stosb (m(a := c)) (a + 1) c n"

definition store32 :: "mem \<Rightarrow> uint \<Rightarrow> uint \<Rightarrow> mem" where
  "store32 m a w =
     m(a := ucast w, a + 1 := ucast (drop_bit 8 w),
       a + 2 := ucast (drop_bit 16 w), a + 3 := ucast (drop_bit 24 w))"

fun stosl :: "mem \<Rightarrow> uint \<Rightarrow> uint \<Rightarrow> nat \<Rightarrow> mem" where
  "stosl m a w 0 = m"
| "stosl m a w (Suc n) = stosl (store32 m a w) (a + 4) w n"

definition memset :: "mem \<Rightarrow> uint \<Rightarrow> uint \<Rightarrow> uint \<Rightarrow> mem" where
  "memset m dst c n =
     (if dst mod 4 = 0 \<and> n mod 4 = 0
      then let c' = c AND 0xFF
           in stosl m dst (push_bit 24 c' OR push_bit 16 c' OR push_bit 8 c' OR c') (unat (n div 4))
      else stosb m dst (ucast c) (unat n))"

section \<open>memcmp and memmove\<close>

fun memcmp_loop :: "mem \<Rightarrow> uint \<Rightarrow> uint \<Rightarrow> nat \<Rightarrow> int" where
  "memcmp_loop m s1 s2 0 = 0"
| "memcmp_loop m s1 s2 (Suc n) =
     (if m s1 \<noteq> m s2 then uint (m s1) - uint (m s2)
      else memcmp_loop m (s1 + 1) (s2 + 1) n)"

definition memcmp :: "mem \<Rightarrow> uint \<Rightarrow> uint \<Rightarrow> uint \<Rightarrow> int" where
  "memcmp m v1 v2 n = memcmp_loop m v1 v2 (unat n)"

fun copy_down :: "mem \<Rightarrow> uint \<Rightarrow> uint \<Rightarrow> nat \<Rightarrow> mem" where
  "copy_down m d s 0 = m"
| "copy_down m d s (Suc n) = copy_down (m(d - 1 := m (s - 1))) (d - 1) (s - 1) n"

fun copy_up :: "mem \<Rightarrow> uint \<Rightarrow> uint \<Rightarrow> nat \<Rightarrow> mem" where
  "copy_up m d s 0 = m"
| "copy_up m d s (Suc n) = copy_up (m(d := m s)) (d + 1) (s + 1) n"

definition memmove :: "mem \<Rightarrow> uint \<Rightarrow> uint \<Rightarrow> uint \<Rightarrow> mem" where
  "memmove m dst src n =
     (if src < dst \<and> src + n > dst
      then copy_down m (dst + n) (src + n) (unat n)
      else copy_up m dst src (unat n))"

definition memcpy :: "mem \<Rightarrow> uint \<Rightarrow> uint \<Rightarrow> uint \<Rightarrow> mem" where
  "memcpy m dst src n = memmove m dst src n"

section \<open>Strings\<close>

fun strncmp_loop :: "mem \<Rightarrow> uint \<Rightarrow> uint \<Rightarrow> nat \<Rightarrow> int" where
  "strncmp_loop m p q 0 = 0"
| "strncmp_loop m p q (Suc n) =
     (if m p \<noteq> 0 \<and> m p = m q then strncmp_loop m (p + 1) (q + 1) n
      else uint (m p) - uint (m q))"

definition strncmp :: "mem \<Rightarrow> uint \<Rightarrow> uint \<Rightarrow> uint \<Rightarrow> int" where
  "strncmp m p q n = strncmp_loop m p q (unat n)"

text \<open>
  \<^verbatim>\<open>strncpy\<close>: the first loop copies until it has copied a NUL or used up \<open>n\<close>; the second pads with
  what is left of \<open>n\<close>.
\<close>

fun strncpy_loop :: "mem \<Rightarrow> uint \<Rightarrow> uint \<Rightarrow> nat \<Rightarrow> mem" where
  "strncpy_loop m s t 0 = m"
| "strncpy_loop m s t (Suc n) =
     (let c = m t; m' = m(s := c)
      in if c \<noteq> 0 then strncpy_loop m' (s + 1) (t + 1) n
         else stosb m' (s + 1) 0 n)"

definition strncpy :: "mem \<Rightarrow> uint \<Rightarrow> uint \<Rightarrow> int \<Rightarrow> mem" where
  "strncpy m s t n = strncpy_loop m s t (nat n)"

text \<open>
  \<^verbatim>\<open>safestrcpy\<close>: the loop copies at most \<open>n - 1\<close> bytes and the statement after it stores a NUL where
  the destination pointer stands (one past the NUL it copied, if it copied one).
\<close>

fun safestrcpy_loop :: "mem \<Rightarrow> uint \<Rightarrow> uint \<Rightarrow> nat \<Rightarrow> mem" where
  "safestrcpy_loop m s t 0 = m(s := 0)"
| "safestrcpy_loop m s t (Suc n) =
     (let c = m t; m' = m(s := c)
      in if c \<noteq> 0 then safestrcpy_loop m' (s + 1) (t + 1) n
         else m'(s + 1 := 0))"

definition safestrcpy :: "mem \<Rightarrow> uint \<Rightarrow> uint \<Rightarrow> int \<Rightarrow> mem" where
  "safestrcpy m s t n = (if n \<le> 0 then m else safestrcpy_loop m s t (nat (n - 1)))"

partial_function (option) strlen_from :: "mem \<Rightarrow> uint \<Rightarrow> nat \<Rightarrow> nat option" where
  "strlen_from m s n = (if m (s + of_nat n) = 0 then Some n else strlen_from m s (Suc n))"

definition strlen :: "mem \<Rightarrow> uint \<Rightarrow> nat option" where
  "strlen m s = strlen_from m s 0"

section \<open>What the routines leave in memory\<close>

lemma stosb_eq: "stosb m a c n = (\<lambda>x. if unat (x - a) < n then c else m x)"
proof (induction n arbitrary: m a)
  case (Suc n)
  then show ?case
    by (auto simp: offset_less_Suc)
qed simp

text \<open>
  Copying upwards reads every source byte before overwriting it unless the destination lies strictly
  inside the source range; copying downwards, unless the source lies strictly inside the destination.
\<close>

lemma copy_up_same: "copy_up m s s n = m"
  by (induction n arbitrary: s) auto

lemma copy_down_same: "copy_down m s s n = m"
  by (induction n arbitrary: s) auto

lemma copy_up_apart:
  "n \<le> 2 ^ 32 \<Longrightarrow> d \<noteq> s \<Longrightarrow> n \<le> unat (d - s) \<Longrightarrow>
   copy_up m d s n = (\<lambda>x. if unat (x - d) < n then m (s + (x - d)) else m x)"
proof (induction n arbitrary: m d s)
  case (Suc n)
  have IH: "copy_up (m(d := m s)) (d + 1) (s + 1) n =
      (\<lambda>x. if unat (x - (d + 1)) < n then (m(d := m s)) (s + 1 + (x - (d + 1)))
           else (m(d := m s)) x)"
    using Suc by (intro Suc.IH) auto
  have other: "s + (x - d) \<noteq> d" if "unat (x - d) < Suc n" for x
  proof
    assume "s + (x - d) = d"
    then have "x - d = d - s" by (simp add: algebra_simps)
    with that Suc.prems show False by simp
  qed
  show ?case
  proof
    fix x
    have eq: "s + 1 + (x - (d + 1)) = s + (x - d)" by simp
    show "copy_up m d s (Suc n) x = (if unat (x - d) < Suc n then m (s + (x - d)) else m x)"
    proof (cases "x = d")
      case True
      with Suc.prems(1) show ?thesis by (simp add: IH)
    next
      case False
      with other [of x] show ?thesis by (simp add: IH eq offset_less_Suc)
    qed
  qed
qed simp

lemma copy_down_apart:
  "n \<le> 2 ^ 32 \<Longrightarrow> d \<noteq> s \<Longrightarrow> n \<le> unat (s - d) \<Longrightarrow>
   copy_down m d s n = (\<lambda>x. if unat (d - 1 - x) < n then m (s - (d - x)) else m x)"
proof (induction n arbitrary: m d s)
  case (Suc n)
  have IH: "copy_down (m(d - 1 := m (s - 1))) (d - 1) (s - 1) n =
      (\<lambda>x. if unat (d - 1 - 1 - x) < n then (m(d - 1 := m (s - 1))) (s - 1 - (d - 1 - x))
           else (m(d - 1 := m (s - 1))) x)"
    using Suc by (intro Suc.IH) auto
  have step: "unat (d - 1 - x) < Suc n \<longleftrightarrow> x = d - 1 \<or> unat (d - 1 - 1 - x) < n" for x
    using offset_less_Suc [of "d - 1" x n] by (auto simp: algebra_simps)
  have other: "s - (d - x) \<noteq> d - 1" if "unat (d - 1 - x) < Suc n" for x
  proof
    assume "s - (d - x) = d - 1"
    then have "d - 1 - x = s - d" by (simp add: algebra_simps)
    with that Suc.prems show False by simp
  qed
  show ?case
  proof
    fix x
    have eq: "s - 1 - (d - 1 - x) = s - (d - x)" by simp
    show "copy_down m d s (Suc n) x =
      (if unat (d - 1 - x) < Suc n then m (s - (d - x)) else m x)"
    proof (cases "x = d - 1")
      case True
      with Suc.prems(1) show ?thesis by (simp add: IH)
    next
      case False
      with other [of x] show ?thesis by (simp add: IH eq step)
    qed
  qed
qed simp

lemma memmove_down_range:
  assumes "src < dst" "src + n > dst" and "unat dst + unat n \<le> 2 ^ 32"
  shows "copy_down m (dst + n) (src + n) (unat n) =
    (\<lambda>x. if unat (x - dst) < unat n then m (src + (x - dst)) else m x)"
proof -
  have "n \<noteq> 0"
    using assms by auto
  have "unat n \<le> unat (src + n - (dst + n))"
    using assms(1,3) unat_sub_wrap [OF assms(1)] by (simp add: word_less_nat_alt)
  then have "copy_down m (dst + n) (src + n) (unat n) =
      (\<lambda>x. if unat (dst + n - 1 - x) < unat n then m (src + n - (dst + n - x)) else m x)"
    using assms(1) unat_uint_less [of n] by (intro copy_down_apart) auto
  moreover have "unat (dst + n - 1 - x) < unat n \<longleftrightarrow> unat (x - dst) < unat n" for x
    using window_flip [OF \<open>n \<noteq> 0\<close>, of "x - dst"] by (simp add: algebra_simps)
  moreover have "src + n - (dst + n - x) = src + (x - dst)" for x
    by simp
  ultimately show ?thesis
    by (simp only:)
qed

lemma memmove_up_range:
  assumes "dst \<noteq> src" "\<not> (src < dst \<and> src + n > dst)" and "unat src + unat n < 2 ^ 32"
  shows "copy_up m dst src (unat n) =
    (\<lambda>x. if unat (x - dst) < unat n then m (src + (x - dst)) else m x)"
proof (rule copy_up_apart)
  show "unat n \<le> unat (dst - src)"
  proof (cases "src < dst")
    case True
    have "unat (src + n) = unat src + unat n"
      using assms(3) by (simp add: unat_word_ariths)
    with True assms(2) have "unat src + unat n \<le> unat dst"
      by (simp add: word_less_nat_alt not_less)
    then show ?thesis
      using True by (simp add: unat_sub_uint word_less_nat_alt)
  next
    case False
    then have "dst < src"
      using assms(1) by simp
    then show ?thesis
      using unat_sub_wrap [of dst src] assms(3) by (simp add: word_less_nat_alt)
  qed
qed (use assms unat_uint_less [of n] in auto)

lemma memmove_range:
  assumes "unat src + unat n < 2 ^ 32" and "unat dst + unat n \<le> 2 ^ 32"
  shows "memmove m dst src n = (\<lambda>x. if unat (x - dst) < unat n then m (src + (x - dst)) else m x)"
proof (cases "dst = src")
  case True
  then show ?thesis
    by (auto simp: memmove_def copy_up_same fun_eq_iff)
next
  case False
  then show ?thesis
    using assms memmove_down_range [of src dst n m] memmove_up_range [of dst src n m]
    by (simp add: memmove_def)
qed

lemma stosb_append:
  "stosb m a c (i + j) = stosb (stosb m a c i) (a + of_nat i) c j"
proof (induction i arbitrary: m a)
  case (Suc i)
  show ?case
    using Suc.IH [of "m(a := c)" "a + 1"] by (simp add: add.assoc del: fun_upd_apply)
qed simp

lemma stosl_eq_stosb:
  assumes "ucast w = b" "ucast (drop_bit 8 w) = b" "ucast (drop_bit 16 w) = b"
    "ucast (drop_bit 24 w) = b"
  shows "stosl m a w n = stosb m a b (4 * n)"
proof (induction n arbitrary: m a)
  case (Suc n)
  have "stosb m a b (4 + 4 * n) = stosb (stosb m a b 4) (a + of_nat 4) b (4 * n)"
    by (rule stosb_append)
  moreover have "stosb m a b 4 = store32 m a w"
    using assms by (simp add: store32_def numeral_eq_Suc add.assoc fun_upd_twist)
  ultimately show ?case
    using Suc by simp
qed simp

lemma memset_range:
  "memset m dst c n = (\<lambda>x. if unat (x - dst) < unat n then ucast c else m x)"
proof (cases "dst mod 4 = 0 \<and> n mod 4 = 0")
  case True
  let ?c = "take_bit 8 c"
  let ?w = "push_bit 24 ?c OR push_bit 16 ?c OR push_bit 8 ?c OR ?c"
  have mask: "c AND 0xFF = ?c"
    by (simp add: take_bit_eq_mask mask_eq_exp_minus_1)
  have bytes: "ucast ?w = (ucast c :: uchar)" "ucast (drop_bit 8 ?w) = (ucast c :: uchar)"
    "ucast (drop_bit 16 ?w) = (ucast c :: uchar)" "ucast (drop_bit 24 ?w) = (ucast c :: uchar)"
    by (rule bit_word_eqI, auto simp: bit_simps)+
  have "4 * unat (n div 4) = unat n"
    using True by (simp add: unat_div unat_mod flip: unat_0_iff) presburger
  then show ?thesis
    using True stosl_eq_stosb [OF bytes, of m dst "unat (n div 4)"]
    by (simp only: memset_def Let_def mask if_True simp_thms) (simp add: stosb_eq)
next
  case False
  then show ?thesis
    by (auto simp: memset_def stosb_eq)
qed

section \<open>NUL-terminated strings in memory\<close>

fun cstr_at :: "mem \<Rightarrow> uint \<Rightarrow> uchar list \<Rightarrow> bool" where
  "cstr_at m p [] = (m p = 0)"
| "cstr_at m p (c # cs) = (c \<noteq> 0 \<and> m p = c \<and> cstr_at m (p + 1) cs)"

lemma cstr_at_cong:
  "(\<And>x. unat (x - p) \<le> length cs \<Longrightarrow> m x = m' x) \<Longrightarrow> length cs < 2 ^ 32 \<Longrightarrow>
   cstr_at m p cs = cstr_at m' p cs"
proof (induction cs arbitrary: p)
  case (Cons c cs)
  have "m p = m' p"
    using Cons.prems(1) [of p] by simp
  moreover have "m x = m' x" if "unat (x - (p + 1)) \<le> length cs" for x
    using Cons.prems(1) [of x] that offset_less_Suc [of x p "Suc (length cs)"]
    by (simp add: less_Suc_eq_le)
  then have "cstr_at m (p + 1) cs = cstr_at m' (p + 1) cs"
    using Cons.prems(2) by (intro Cons.IH) auto
  ultimately show ?case by simp
qed simp

lemma strlen_from_cstr: "cstr_at m (s + of_nat n) cs \<Longrightarrow> strlen_from m s n = Some (n + length cs)"
proof (induction cs arbitrary: n)
  case Nil
  then show ?case by (simp add: strlen_from.simps)
next
  case (Cons c cs)
  then show ?case
    using Cons.IH [of "Suc n"] by (simp add: strlen_from.simps [of m s n] algebra_simps)
qed

lemma strncmp_loop_cstr:
  "cstr_at m p xs \<Longrightarrow> cstr_at m q ys \<Longrightarrow>
   strncmp_loop m p q n = 0 \<longleftrightarrow> take n xs = take n ys"
proof (induction n arbitrary: p q xs ys)
  case (Suc n)
  have "uint (m p) - uint (m q) = 0 \<longleftrightarrow> m p = m q"
    by (simp add: word_uint_eq_iff)
  with Suc show ?case
    by (cases xs; cases ys) auto
qed simp

lemma safestrcpy_loop_frame:
  "n < unat (x - s) \<Longrightarrow> safestrcpy_loop m s t n x = m x"
proof (induction n arbitrary: m s t)
  case (Suc n)
  then have "x \<noteq> s" by auto
  moreover from this Suc.prems have less: "n < unat (x - (s + 1))"
    by (simp add: unat_diff_step)
  moreover from less have "x \<noteq> s + 1" by auto
  ultimately show ?case
    using Suc.IH [OF less] by (simp add: Let_def)
qed auto

lemma safestrcpy_loop_cstr:
  assumes "cstr_at m t cs" "length cs < 2 ^ 32" "n < 2 ^ 32 - 1"
    and "\<And>x. unat (x - s) \<le> n \<Longrightarrow> length cs < unat (x - t)"
  shows "cstr_at (safestrcpy_loop m s t n) s (take n cs)"
  using assms
proof (induction n arbitrary: m s t cs)
  case (Suc n)
  show ?case
  proof (cases cs)
    case Nil
    then show ?thesis using Suc.prems by simp
  next
    case (Cons c cs')
    let ?m = "m(s := c)"
    have s_out: "length cs < unat (s - t)"
      using Suc.prems(4) [of s] by simp
    have apart: "length cs' < unat (x - (t + 1))" if "unat (x - (s + 1)) \<le> n" for x
    proof -
      have "unat (x - s) \<le> Suc n"
        using that offset_less_Suc [of x s "Suc n"] by (simp add: less_Suc_eq_le)
      then have "length cs < unat (x - t)"
        by (rule Suc.prems(4))
      then show ?thesis
        using Cons by (cases "x = t") (auto simp: unat_diff_step)
    qed
    have "cstr_at ?m (t + 1) cs' = cstr_at m (t + 1) cs'"
    proof (rule cstr_at_cong)
      fix x assume "unat (x - (t + 1)) \<le> length cs'"
      then have "x \<noteq> s"
        using apart [of s] s_out Cons by (cases "s = t") (auto simp: unat_diff_step)
      then show "?m x = m x" by simp
    qed (use Suc.prems Cons in auto)
    then have IH: "cstr_at (safestrcpy_loop ?m (s + 1) (t + 1) n) (s + 1) (take n cs')"
      using Suc.prems Cons apart by (intro Suc.IH [of ?m "t + 1" cs' "s + 1"])
        (simp_all del: fun_upd_apply)
    have "safestrcpy_loop ?m (s + 1) (t + 1) n s = c"
      using Suc.prems(3) safestrcpy_loop_frame [of n s "s + 1"] by simp
    with IH show ?thesis
      using Suc.prems(1) Cons by (simp add: Let_def)
  qed
qed simp

lemma strncpy_loop_frame:
  "n \<le> unat (x - s) \<Longrightarrow> strncpy_loop m s t n x = m x"
proof (induction n arbitrary: m s t)
  case (Suc n)
  then have "x \<noteq> s" by auto
  moreover from this Suc.prems have less: "n \<le> unat (x - (s + 1))"
    by (simp add: unat_diff_step)
  ultimately show ?case
    using Suc.IH [OF less] by (simp add: Let_def stosb_eq)
qed auto

lemma strncpy_loop_bytes:
  assumes "cstr_at m t cs" "length cs < 2 ^ 32" "n < 2 ^ 32" "i < n"
    and "\<And>x. unat (x - s) < n \<Longrightarrow> length cs < unat (x - t)"
  shows "strncpy_loop m s t n (s + of_nat i) = (if i < length cs then cs ! i else 0)"
  using assms
proof (induction n arbitrary: m s t cs i)
  case (Suc n)
  show ?case
  proof (cases cs)
    case Nil
    with Suc.prems show ?thesis
      by (cases i) (auto simp: Let_def stosb_eq algebra_simps)
  next
    case (Cons c cs')
    let ?m = "m(s := c)"
    have s_out: "length cs < unat (s - t)"
      using Suc.prems(5) [of s] by simp
    have apart: "length cs' < unat (x - (t + 1))" if "unat (x - (s + 1)) < n" for x
    proof -
      have "length cs < unat (x - t)"
        using that offset_less_Suc [of x s n] by (intro Suc.prems(5)) simp
      then show ?thesis
        using Cons by (cases "x = t") (auto simp: unat_diff_step)
    qed
    have "cstr_at ?m (t + 1) cs' = cstr_at m (t + 1) cs'"
    proof (rule cstr_at_cong)
      fix x assume "unat (x - (t + 1)) \<le> length cs'"
      then have "x \<noteq> s"
        using s_out Cons by (cases "s = t") (auto simp: unat_diff_step)
      then show "?m x = m x" by simp
    qed (use Suc.prems Cons in auto)
    then have src: "cstr_at ?m (t + 1) cs'"
      using Suc.prems(1) Cons by simp
    have step: "strncpy_loop m s t (Suc n) = strncpy_loop ?m (s + 1) (t + 1) n"
      using Suc.prems(1) Cons by (simp add: Let_def)
    show ?thesis
    proof (cases i)
      case 0
      then show ?thesis
        using step Cons Suc.prems(3) strncpy_loop_frame [of n s "s + 1"]
        by (simp del: strncpy_loop.simps)
    next
      case (Suc j)
      have "strncpy_loop ?m (s + 1) (t + 1) n (s + 1 + of_nat j) =
          (if j < length cs' then cs' ! j else 0)"
        using src Suc Suc.prems Cons apart
        by (intro Suc.IH [of ?m "t + 1" cs' j "s + 1"]) (simp_all del: fun_upd_apply)
      then show ?thesis
        using step Suc Cons by (simp add: algebra_simps)
    qed
  qed
qed simp

lemma memcmp_loop_zero:
  "memcmp_loop m p q n = 0 \<longleftrightarrow> (\<forall>i < n. m (p + of_nat i) = m (q + of_nat i))"
proof (induction n arbitrary: p q)
  case (Suc n)
  have "uint (m p) - uint (m q) = 0 \<longleftrightarrow> m p = m q"
    by (simp add: word_uint_eq_iff)
  with Suc show ?case
    by (auto simp: all_less_Suc_shift add.assoc)
qed simp

section \<open>Properties\<close>

text \<open>
  C38: \<^verbatim>\<open>memmove\<close> copies as if through a snapshot of the source, whichever way the two ranges overlap:
  afterwards every byte of the destination range is the byte the source held before the call, and no
  byte outside the destination has changed.
\<close>

theorem memmove_snapshot:
  assumes "unat src + unat n < 2 ^ 32" and "unat dst + unat n \<le> 2 ^ 32"
  shows "(\<forall>i < unat n. memmove m dst src n (dst + of_nat i) = m (src + of_nat i)) \<and>
    (\<forall>x. unat n \<le> unat (x - dst) \<longrightarrow> memmove m dst src n x = m x)"
proof -
  have "unat (of_nat i :: uint) = i" if "i < unat n" for i
    using that unat_uint_less [of n] by simp
  then show ?thesis
    by (simp add: memmove_range [OF assms])
qed

text \<open>An overlapping upward move of four bytes by one.\<close>

theorem memmove_snapshot_witness:
  "memmove (\<lambda>a. ucast a) 11 10 4 13 = (12 :: uchar) \<and> memmove (\<lambda>a. ucast a) 11 10 4 15 = (15 :: uchar)"
proof -
  have h: "unat (10 :: uint) + unat (4 :: uint) < 2 ^ 32" "unat (11 :: uint) + unat (4 :: uint) \<le> 2 ^ 32"
    by simp_all
  have "memmove (\<lambda>a. ucast a) 11 10 4 (11 + of_nat 2) = (ucast (10 + of_nat 2 :: uint) :: uchar)"
    by (rule memmove_snapshot [OF h, THEN conjunct1, rule_format]) simp
  moreover have "memmove (\<lambda>a. ucast a) 11 10 4 15 = (ucast (15 :: uint) :: uchar)"
    using memmove_snapshot [OF h, of "\<lambda>a. ucast a"] by simp
  ultimately show ?thesis by simp
qed

text \<open>
  C39: \<^verbatim>\<open>safestrcpy\<close> of an \<open>n\<close>-byte buffer leaves in it the source string cut to \<open>n - 1\<close> bytes and
  NUL-terminated, and touches no byte outside the buffer, when source string and buffer do not
  overlap.
\<close>

theorem safestrcpy_terminated:
  assumes "cstr_at m t cs" "length cs < 2 ^ 32" "0 < n" "n < 2 ^ 31"
    and "\<And>x. unat (x - s) < nat n \<Longrightarrow> length cs < unat (x - t)"
  shows "cstr_at (safestrcpy m s t n) s (take (nat (n - 1)) cs) \<and>
    (\<forall>x. nat n \<le> unat (x - s) \<longrightarrow> safestrcpy m s t n x = m x)"
proof -
  have "nat n = Suc (nat (n - 1))"
    using assms(3) by simp
  with assms safestrcpy_loop_cstr [of m t cs "nat (n - 1)" s] show ?thesis
    by (simp add: safestrcpy_def safestrcpy_loop_frame less_Suc_eq_le)
qed

text \<open>The process name buffer of 16 bytes receives \<^verbatim>\<open>sh\<close>.\<close>

theorem safestrcpy_terminated_witness:
  "cstr_at (safestrcpy ((\<lambda>_. 7)(100 := 115, 101 := 104, 102 := 0)) 200 100 16) 200 [115, 104]"
proof -
  let ?m = "(\<lambda>_. 7)(100 := 115, 101 := 104, 102 := 0) :: mem"
  have "length [115, 104 :: uchar] < unat (x - 100)" if "unat (x - 200 :: uint) < nat 16" for x
    using that by (auto simp: unat_sub_uint split: if_splits)
  then have "cstr_at (safestrcpy ?m 200 100 16) 200 (take (nat (16 - 1)) [115, 104])"
    using safestrcpy_terminated [of ?m 100 "[115, 104]" 16 200] by simp
  then show ?thesis by simp
qed

text \<open>
  \<^verbatim>\<open>strncmp\<close> of two NUL-terminated strings is zero exactly when they agree on their first \<open>n\<close>
  bytes, and \<^verbatim>\<open>strlen\<close> returns the number of bytes before the NUL.
\<close>

theorem strncmp_strlen_correct:
  assumes "cstr_at m p xs" and "cstr_at m q ys"
  shows "(strncmp m p q n = 0 \<longleftrightarrow> take (unat n) xs = take (unat n) ys) \<and>
    strlen m p = Some (length xs)"
  using assms strncmp_loop_cstr [of m p xs q ys "unat n"] strlen_from_cstr [of m p 0 xs]
  by (simp add: strncmp_def strlen_def)

theorem strncmp_strlen_correct_witness:
  "strncmp ((\<lambda>_. 0)(1 := 97, 2 := 98, 11 := 97, 12 := 99)) 1 11 1 = 0 \<and>
   strlen ((\<lambda>_. 0)(1 := 97, 2 := 98, 11 := 97, 12 := 99)) 1 = Some 2"
  using strncmp_strlen_correct [of "(\<lambda>_. 0)(1 := 97, 2 := 98, 11 := 97, 12 := 99)" 1 "[97, 98]"
    11 "[97, 99]" 1] by simp

end
