(* ===== verification/ULib.thy ===== *)
theory ULib
  imports Prelude "HOL-Library.Signed_Division"
begin

text \<open>
  \<^verbatim>\<open>src/user/ulib.c\<close>: the string and number routines linked into every user program, at the level
  of C strings as values.  A NUL-terminated string is the \<open>string\<close> of its characters before the NUL;
  a fixed array of \<open>n\<close> characters holds a string only if it is shorter than \<open>n\<close>, and copying a
  longer one is undefined behaviour (\<open>None\<close>).  \<^verbatim>\<open>strtok\<close> works in place on a memory region, so there
  the region is a list of characters and pointers are offsets into it; an access past the region's
  end is undefined behaviour as well.  A C \<open>int\<close> is an \<open>int\<close> reduced to 32 bits after arithmetic that
  may leave that range.
\<close>

definition NUL :: char where
  "NUL = CHR 0x00"

definition STRING_SIZE :: nat where
  "STRING_SIZE = 32"

text \<open>Two's complement reduction to 32 bits.\<close>

definition s32 :: "int \<Rightarrow> int" where
  "s32 x = (x + 2 ^ 31) mod 2 ^ 32 - 2 ^ 31"

section \<open>Numbers\<close>

definition is_digit :: "char \<Rightarrow> bool" where
  "is_digit c \<longleftrightarrow> (of_char (CHR ''0'') :: int) \<le> of_char c \<and> (of_char c :: int) \<le> of_char (CHR ''9'')"

fun atoi_loop :: "int \<Rightarrow> string \<Rightarrow> int" where
  "atoi_loop n [] = n"
| "atoi_loop n (c # cs) =
     (if is_digit c
      then atoi_loop (s32 (n * 10 + of_char c - of_char (CHR ''0''))) cs else n)"

definition atoi :: "string \<Rightarrow> int" where
  "atoi s = atoi_loop 0 s"

definition abs_int :: "int \<Rightarrow> int" where
  "abs_int n = (if n < 0 then s32 (- n) else n)"

fun pow_loop :: "int \<Rightarrow> int \<Rightarrow> nat \<Rightarrow> int" where
  "pow_loop base result 0 = result"
| "pow_loop base result (Suc k) = pow_loop base (s32 (result * base)) k"

definition pow :: "int \<Rightarrow> int \<Rightarrow> int" where
  "pow base exponent = pow_loop base 1 (nat exponent)"

text \<open>The digits of \<open>n\<close>, least significant first, as \<^verbatim>\<open>itoa\<close> stores them.\<close>

function itoa_digits :: "int \<Rightarrow> int \<Rightarrow> string" where
  "itoa_digits n base =
     (if n = 0 \<or> base < 2 then []
      else let r = n smod base
           in (if r \<ge> 10 then char_of (65 + (r - 10)) else char_of (48 + r))
              # itoa_digits (n sdiv base) base)"
  by pat_completeness auto
termination
proof (relation "measure (\<lambda>(n, base). nat \<bar>n\<bar>)")
  fix n base r :: int
  assume "\<not> (n = 0 \<or> base < 2)"
  then have "n \<noteq> 0" "2 \<le> base" by auto
  then have "\<bar>n\<bar> div base < \<bar>n\<bar>"
    by (intro int_div_less_self) auto
  moreover have "\<bar>n sdiv base\<bar> = \<bar>n\<bar> div base"
    using \<open>2 \<le> base\<close> \<open>n \<noteq> 0\<close> by (simp add: signed_divide_int_def abs_mult sgn_if pos_imp_zdiv_nonneg_iff)
  ultimately show "((n sdiv base, base), n, base) \<in> measure (\<lambda>(n, base). nat \<bar>n\<bar>)"
    by auto
qed simp

declare itoa_digits.simps [simp del]

text \<open>In-place reversal of \<open>buffer[i..j]\<close> by swapping the two ends.\<close>

function reverse_loop :: "string \<Rightarrow> nat \<Rightarrow> nat \<Rightarrow> string" where
  "reverse_loop buffer i j =
     (if i < j then reverse_loop (buffer[i := buffer ! j, j := buffer ! i]) (Suc i) (j - 1)
      else buffer)"
  by pat_completeness auto
termination
  by (relation "measure (\<lambda>(b, i, j). j - i)") auto

declare reverse_loop.simps [simp del]

definition itoa :: "int \<Rightarrow> string \<Rightarrow> int \<Rightarrow> string" where
  "itoa val buffer base =
     (if base < 2 \<or> base > 32 then buffer
      else let ds = itoa_digits (abs_int val) base;
               ds = (if ds = [] then ''0'' else ds);
               ds = (if val < 0 \<and> base = 10 then ds @ ''-'' else ds)
           in reverse_loop ds 0 (length ds - 1))"

section \<open>Strings\<close>

fun strcmp :: "string \<Rightarrow> string \<Rightarrow> int" where
  "strcmp [] [] = 0"
| "strcmp [] (q # qs) = - of_char q"
| "strcmp (p # ps) [] = of_char p"
| "strcmp (p # ps) (q # qs) = (if p = q then strcmp ps qs else of_char p - of_char q)"

fun strchr :: "string \<Rightarrow> char \<Rightarrow> string option" where
  "strchr [] c = None"
| "strchr (x # xs) c = (if x = c then Some (x # xs) else strchr xs c)"

definition isEmptyString :: "string \<Rightarrow> bool" where
  "isEmptyString s \<longleftrightarrow> s = []"

text \<open>\<^verbatim>\<open>strcpy\<close> and \<^verbatim>\<open>strcat\<close> into an array of \<open>cap\<close> characters.\<close>

definition strcpy :: "nat \<Rightarrow> string \<Rightarrow> string option" where
  "strcpy cap t = (if length t < cap then Some t else undefined_behaviour ''strcpy: overflow'')"

definition strcat :: "nat \<Rightarrow> string \<Rightarrow> string \<Rightarrow> string option" where
  "strcat cap destination source =
     (if length destination + length source < cap then Some (destination @ source)
      else undefined_behaviour ''strcat: overflow'')"

text \<open>
  \<^verbatim>\<open>gets\<close>: standard input is the list of characters still to come, empty at end of file.
\<close>

fun gets_loop :: "nat \<Rightarrow> string \<Rightarrow> string \<times> string" where
  "gets_loop 0 inp = ([], inp)"
| "gets_loop (Suc k) [] = ([], [])"
| "gets_loop (Suc k) (c # inp) =
     (if c = CHR 0x0A \<or> c = CHR 0x0D then ([c], inp)
      else let (buf, rest) = gets_loop k inp in (c # buf, rest))"

definition gets :: "nat \<Rightarrow> string \<Rightarrow> string \<times> string" where
  "gets n inp = gets_loop (n - 1) inp"

section \<open>strtok\<close>

text \<open>
  The static pointer \<^verbatim>\<open>sp\<close> of \<^verbatim>\<open>strtok\<close> (and of its copy \<^verbatim>\<open>strtok2\<close>, which keeps a pointer of its
  own) and the memory region the tokens are cut out of.
\<close>

type_synonym tokstate = "nat option \<times> string"

function skip_delims :: "string \<Rightarrow> string \<Rightarrow> nat \<Rightarrow> nat option" where
  "skip_delims delimiters buf p =
     (if p < length buf
      then if buf ! p \<in> set delimiters then skip_delims delimiters buf (Suc p) else Some p
      else undefined_behaviour ''strtok: read past the buffer'')"
  by pat_completeness auto
termination
  by (relation "measure (\<lambda>(d, b, p). length b - p)") auto

function token_end :: "string \<Rightarrow> string \<Rightarrow> nat \<Rightarrow> (nat \<times> string) option" where
  "token_end delimiters buf p =
     (if p < length buf
      then if buf ! p = NUL then Some (p, buf)
           else if buf ! p \<in> set delimiters then Some (Suc p, buf[p := NUL])
           else token_end delimiters buf (Suc p)
      else undefined_behaviour ''strtok: read past the buffer'')"
  by pat_completeness auto
termination
  by (relation "measure (\<lambda>(d, b, p). length b - p)") auto

declare skip_delims.simps [simp del] token_end.simps [simp del]

definition strtok :: "nat option \<Rightarrow> string \<Rightarrow> tokstate \<Rightarrow> (nat option \<times> tokstate) option" where
  "strtok str delimiters st =
     (let (sp, buf) = st
      in if str = None \<and> sp = None then Some (None, (sp, buf))
         else do {
           let sp = (if str \<noteq> None \<and> sp = None then str else sp);
           p_start \<leftarrow> skip_delims delimiters buf (the sp);
           if buf ! p_start = NUL then Some (None, (None, buf))
           else do {
             (sp', buf') \<leftarrow> token_end delimiters buf p_start;
             Some (Some p_start, (Some sp', buf'))
           }
         })"

section \<open>Facts\<close>

lemma s32_id [simp]: "- (2 ^ 31) \<le> x \<Longrightarrow> x < 2 ^ 31 \<Longrightarrow> s32 x = x"
  by (simp add: s32_def)

lemma s32_range: "- (2 ^ 31) \<le> s32 x \<and> s32 x < 2 ^ 31"
  by (simp add: s32_def)

lemma of_char_eq_0: "of_char c = (0 :: int) \<longleftrightarrow> c = NUL"
proof -
  have "of_char NUL = (0 :: int)"
    by (simp add: NUL_def)
  then show ?thesis
    by (metis of_char_eq_iff)
qed

lemma strcmp_eq_0: "NUL \<notin> set p \<Longrightarrow> NUL \<notin> set q \<Longrightarrow> strcmp p q = 0 \<longleftrightarrow> p = q"
  by (induction p q rule: strcmp.induct) (auto simp: of_char_eq_0)

subsection \<open>Reversal and number conversion\<close>

lemma list_ends_cases:
  obtains "ys = []" | y where "ys = [y]" | y mid z where "ys = y # mid @ [z]"
  by (metis append_butlast_last_id list.exhaust)

lemma reverse_loop_middle:
  "reverse_loop (xs @ ys @ zs) (length xs) (length xs + length ys - 1) = xs @ rev ys @ zs"
proof (induction ys arbitrary: xs zs rule: length_induct)
  case (1 ys)
  show ?case
  proof (cases ys rule: list_ends_cases)
    case (3 y mid z)
    let ?buf = "xs @ ys @ zs" and ?i = "length xs" and ?j = "length xs + Suc (length mid)"
    have "?buf[?i := ?buf ! ?j, ?j := ?buf ! ?i] = (xs @ [z]) @ mid @ (y # zs)"
      using 3 by (simp add: nth_append list_update_append)
    moreover have "reverse_loop ((xs @ [z]) @ mid @ (y # zs)) (length (xs @ [z]))
        (length (xs @ [z]) + length mid - 1) = (xs @ [z]) @ rev mid @ (y # zs)"
      using 3 by (intro "1.IH" [rule_format]) simp
    ultimately show ?thesis
      using 3 by (subst reverse_loop.simps) simp
  qed (subst reverse_loop.simps, auto)+
qed

lemma reverse_loop_whole: "reverse_loop ys 0 (length ys - 1) = rev ys"
  using reverse_loop_middle [of "[]" ys "[]"] by simp

lemma itoa_digits_step:
  "0 < n \<Longrightarrow> itoa_digits n 10 = char_of (48 + n mod 10) # itoa_digits (n div 10) 10"
  by (subst itoa_digits.simps)
    (simp add: Let_def signed_divide_int_def signed_modulo_int_def sgn_if minus_mult_div_eq_mod)

lemma is_digit_char_of: "0 \<le> d \<Longrightarrow> d < 10 \<Longrightarrow> is_digit (char_of (48 + d :: int))"
  by (simp add: is_digit_def of_char_of)

lemma atoi_loop_append_digit:
  assumes "list_all is_digit ds"
  shows "atoi_loop n (ds @ cs) = atoi_loop (atoi_loop n ds) cs"
  using assms by (induction ds arbitrary: n) auto

lemma itoa_digits_all_digits: "0 \<le> n \<Longrightarrow> list_all is_digit (itoa_digits n 10)"
proof (induction "nat n" arbitrary: n rule: less_induct)
  case less
  show ?case
  proof (cases "n = 0")
    case False
    then have "0 < n" using less.prems by simp
    moreover have "nat (n div 10) < nat n" "0 \<le> n div 10"
      using \<open>0 < n\<close> by (auto simp: nat_less_iff)
    ultimately show ?thesis
      using less.hyps [of "n div 10"] is_digit_char_of [of "n mod 10"]
      by (simp add: itoa_digits_step)
  qed (simp add: itoa_digits.simps)
qed

lemma atoi_itoa_digits:
  "0 \<le> n \<Longrightarrow> n < 2 ^ 31 \<Longrightarrow> atoi_loop 0 (rev (itoa_digits n 10)) = n"
proof (induction "nat n" arbitrary: n rule: less_induct)
  case less
  show ?case
  proof (cases "n = 0")
    case False
    then have pos: "0 < n" using less.prems by simp
    then have small: "nat (n div 10) < nat n" "0 \<le> n div 10" "n div 10 < 2 ^ 31"
      using less.prems by (auto simp: nat_less_iff)
    have "atoi_loop 0 (rev (itoa_digits (n div 10) 10)) = n div 10"
      by (rule less.hyps) (use small in auto)
    moreover have "list_all is_digit (rev (itoa_digits (n div 10) 10))"
      using itoa_digits_all_digits [OF small(2)] by (simp add: list_all_iff)
    moreover have "of_char (char_of (48 + n mod 10 :: int) :: char) = (48 + n mod 10 :: int)"
      by (simp add: of_char_of)
    ultimately show ?thesis
      using pos less.prems is_digit_char_of [of "n mod 10"]
      by (simp add: itoa_digits_step atoi_loop_append_digit)
  qed (simp add: itoa_digits.simps)
qed

lemma itoa_decimal_nonneg:
  assumes "0 \<le> n"
  shows "itoa n buf 10 = (if n = 0 then ''0'' else rev (itoa_digits n 10))"
proof -
  have "itoa_digits n 10 \<noteq> []" if "n \<noteq> 0"
    using that assms by (simp add: itoa_digits_step)
  then show ?thesis
    using assms reverse_loop_whole
    by (auto simp: itoa_def abs_int_def Let_def itoa_digits.simps [of 0])
qed

lemma itoa_decimal_digits: "0 \<le> n \<Longrightarrow> list_all is_digit (itoa n buf 10)"
  using itoa_digits_all_digits [of n]
  by (auto simp: itoa_decimal_nonneg list_all_iff is_digit_def)

lemma length_itoa_digits: "0 \<le> n \<Longrightarrow> n < 10 ^ k \<Longrightarrow> length (itoa_digits n 10) \<le> k"
proof (induction k arbitrary: n)
  case 0
  then show ?case
    by (simp add: itoa_digits.simps [of n])
next
  case (Suc k)
  show ?case
  proof (cases "n = 0")
    case True
    then show ?thesis
      by (simp add: itoa_digits.simps [of 0])
  next
    case False
    have "length (itoa_digits (n div 10) 10) \<le> k"
      using Suc.prems by (intro Suc.IH) auto
    with False Suc.prems show ?thesis
      by (simp add: itoa_digits_step)
  qed
qed

lemma length_itoa_decimal: "0 \<le> n \<Longrightarrow> n < 2 ^ 31 \<Longrightarrow> length (itoa n buf 10) \<le> 10"
  using length_itoa_digits [of n 10] by (simp add: itoa_decimal_nonneg)

lemma atoi_itoa_decimal: "0 \<le> n \<Longrightarrow> n < 2 ^ 31 \<Longrightarrow> atoi (itoa n buf 10) = n"
  using atoi_itoa_digits [of n] by (simp add: atoi_def itoa_decimal_nonneg is_digit_def)

subsection \<open>Cutting a region into tokens\<close>

lemma nth_drop_append: "drop p buf = xs @ c # rest \<Longrightarrow> p + length xs < length buf \<and> buf ! (p + length xs) = c"
proof -
  assume eq: "drop p buf = xs @ c # rest"
  then have "length buf - p = length xs + Suc (length rest)"
    by (metis length_append length_Cons length_drop)
  moreover have "drop p buf ! length xs = c"
    by (simp add: eq)
  ultimately show ?thesis
    by (simp add: nth_drop)
qed

lemma drop_Suc_tail: "drop p buf = x # xs \<Longrightarrow> drop (Suc p) buf = xs"
  by (metis drop_Suc list.sel(3) tl_drop)

lemma skip_delims_run:
  "drop p buf = xs @ c # rest \<Longrightarrow> set xs \<subseteq> set ds \<Longrightarrow> c \<notin> set ds \<Longrightarrow>
   skip_delims ds buf p = Some (p + length xs)"
proof (induction xs arbitrary: p)
  case Nil
  then show ?case
    using nth_drop_append [of p buf "[]"] by (simp add: skip_delims.simps [of ds buf p])
next
  case (Cons x xs)
  then show ?case
    using nth_drop_append [of p buf "[]" x] drop_Suc_tail [of p buf x]
    by (simp add: skip_delims.simps [of ds buf p])
qed

lemma token_end_run:
  "drop p buf = xs @ c # rest \<Longrightarrow> NUL \<notin> set xs \<Longrightarrow> set xs \<inter> set ds = {} \<Longrightarrow>
   c = NUL \<or> c \<in> set ds \<Longrightarrow>
   token_end ds buf p =
     Some (if c = NUL then (p + length xs, buf) else (p + length xs + 1, buf[p + length xs := NUL]))"
proof (induction xs arbitrary: p)
  case Nil
  then show ?case
    using nth_drop_append [of p buf "[]"] by (auto simp: token_end.simps [of ds buf p])
next
  case (Cons x xs)
  then show ?case
    using nth_drop_append [of p buf "[]" x] drop_Suc_tail [of p buf x]
    by (auto simp: token_end.simps [of ds buf p])
qed

text \<open>A token that is followed by a delimiter is cut off by a NUL written over the delimiter.\<close>

lemma strtok_next:
  assumes "drop p buf = xs @ c # rest" "xs \<noteq> []" "NUL \<notin> set xs" "set xs \<inter> set ds = {}"
    and "c = NUL \<or> c \<in> set ds" "str = None \<and> sp = Some p \<or> str = Some p \<and> sp = None"
  shows "strtok str ds (sp, buf) =
    Some (Some p, if c = NUL then (Some (p + length xs), buf)
                  else (Some (p + length xs + 1), buf[p + length xs := NUL]))"
proof -
  obtain x xs' where xs: "xs = x # xs'"
    using assms(2) by (cases xs) auto
  have "skip_delims ds buf p = Some p"
    using skip_delims_run [of p buf "[]" x "xs' @ c # rest" ds] assms(1,4) xs by simp
  moreover have "buf ! p \<noteq> NUL"
    using nth_drop_append [of p buf "[]" x] assms(1,3) xs by auto
  moreover have "token_end ds buf p =
      Some (if c = NUL then (p + length xs, buf) else (p + length xs + 1, buf[p + length xs := NUL]))"
    using assms by (intro token_end_run) auto
  ultimately show ?thesis
    using assms(6) by (auto simp: strtok_def)
qed

lemma strtok_done:
  assumes "drop p buf = NUL # rest" "NUL \<notin> set ds"
    and "str = None \<and> sp = Some p \<or> str = Some p \<and> sp = None"
  shows "strtok str ds (sp, buf) = Some (None, (None, buf))"
proof -
  have "skip_delims ds buf p = Some p"
    using skip_delims_run [of p buf "[]" NUL rest ds] assms by simp
  moreover have "buf ! p = NUL"
    using nth_drop_append [of p buf "[]"] assms(1) by auto
  ultimately show ?thesis
    using assms(3) by (auto simp: strtok_def)
qed

text \<open>The static pointer is null again whenever \<^verbatim>\<open>strtok\<close> has returned a null token.\<close>

lemma strtok_null_resets: "strtok str ds st = Some (None, (sp, buf)) \<Longrightarrow> sp = None"
  by (auto simp: strtok_def split: prod.splits if_splits Option.bind_splits)

section \<open>Properties\<close>

text \<open>
  C40: a non-negative \<open>int\<close> survives the trip through its decimal text: \<^verbatim>\<open>atoi\<close> of what \<^verbatim>\<open>itoa\<close>
  writes in base 10 is the number itself.  User and group ids are stored in \<^verbatim>\<open>/etc/passwd\<close> and
  \<^verbatim>\<open>/etc/group\<close> this way.
\<close>

theorem atoi_itoa_roundtrip:
  assumes "0 \<le> n" and "n < 2 ^ 31"
  shows "atoi (itoa n buf 10) = n"
  using assms by (rule atoi_itoa_decimal)

theorem atoi_itoa_roundtrip_witness: "atoi (itoa 1002 [] 10) = 1002"
  using atoi_itoa_roundtrip [of 1002 "[]"] by simp

end
