(* ===== verification/Nodes.thy ===== *)
theory Nodes
  imports Prelude "HOL-Library.Multiset"
begin

text \<open>
  Heap-allocated singly linked lists, as the account library keeps its users and groups: a heap maps
  addresses to nodes, a pointer is an address or null, and following a null pointer or a pointer to a
  freed node is undefined behaviour.  The loops that \<^verbatim>\<open>userhandler.c\<close> and \<^verbatim>\<open>grouphandler.c\<close> have in
  common (insertion in order, search, release) are written once over the \<^verbatim>\<open>next\<close> field's selector
  and update and the comparison function.  The locale \<open>nodes\<close> is the interface a node type provides;
  its lemmas relate the loops to lists of nodes.
\<close>

type_synonym addr = nat
type_synonym ptr = "addr option"
type_synonym 'n heap = "addr \<rightharpoonup> 'n"

definition deref :: "'n heap \<Rightarrow> ptr \<Rightarrow> 'n option" where
  "deref h p = (case p of None \<Rightarrow> undefined_behaviour ''null pointer'' | Some a \<Rightarrow> h a)"

definition store :: "'n heap \<Rightarrow> ptr \<Rightarrow> 'n \<Rightarrow> 'n heap option" where
  "store h p n =
     (case p of None \<Rightarrow> undefined_behaviour ''null pointer''
      | Some a \<Rightarrow> if h a = None then undefined_behaviour ''dangling pointer'' else Some (h(a \<mapsto> n)))"

text \<open>\<^verbatim>\<open>while(tmp->next!=NULL && compare(tmp->next, cur)<=0) tmp=tmp->next;\<close>\<close>

partial_function (option) insert_point ::
  "('n \<Rightarrow> ptr) \<Rightarrow> ('n \<Rightarrow> 'n \<Rightarrow> int) \<Rightarrow> 'n heap \<Rightarrow> ptr \<Rightarrow> ptr \<Rightarrow> ptr option" where
  "insert_point nxt cmp h cur tmp = do {
     t \<leftarrow> deref h tmp;
     if nxt t = None then Some tmp
     else do {
       n \<leftarrow> deref h (nxt t);
       c \<leftarrow> deref h cur;
       if cmp n c \<le> 0 then insert_point nxt cmp h cur (nxt t) else Some tmp
     }
   }"

definition insert_node ::
  "('n \<Rightarrow> ptr) \<Rightarrow> (ptr \<Rightarrow> 'n \<Rightarrow> 'n) \<Rightarrow> ('n \<Rightarrow> 'n \<Rightarrow> int) \<Rightarrow> ptr \<Rightarrow> ptr \<Rightarrow> 'n heap \<Rightarrow> (ptr \<times> 'n heap) option" where
  "insert_node nxt set_nxt cmp lst cur h =
     (if lst = None then Some (cur, h)
      else do {
        l \<leftarrow> deref h lst;
        c \<leftarrow> deref h cur;
        if cmp l c > 0 then do {
          h \<leftarrow> store h cur (set_nxt lst c);
          Some (cur, h)
        } else do {
          tmp \<leftarrow> insert_point nxt cmp h cur lst;
          t \<leftarrow> deref h tmp;
          h \<leftarrow> store h cur (set_nxt (nxt t) c);
          t \<leftarrow> deref h tmp;
          h \<leftarrow> store h tmp (set_nxt cur t);
          Some (lst, h)
        }
      })"

text \<open>\<^verbatim>\<open>while(tmp!=NULL) { if(test(tmp)) return tmp; tmp=tmp->next; }\<close>\<close>

partial_function (option) find_node ::
  "('n \<Rightarrow> ptr) \<Rightarrow> ('n \<Rightarrow> bool) \<Rightarrow> 'n heap \<Rightarrow> ptr \<Rightarrow> ptr option" where
  "find_node nxt test h tmp =
     (if tmp = None then Some None
      else do {
        t \<leftarrow> deref h tmp;
        if test t then Some tmp else find_node nxt test h (nxt t)
      })"

partial_function (option) free_nodes :: "('n \<Rightarrow> ptr) \<Rightarrow> ptr \<Rightarrow> 'n heap \<Rightarrow> 'n heap option" where
  "free_nodes nxt lst h =
     (if lst = None then Some h
      else do {
        t \<leftarrow> deref h lst;
        free_nodes nxt (nxt t) (h(the lst := None))
      })"

section \<open>Lists of nodes\<close>

text \<open>
  \<open>nseg nxt h p as ns q\<close>: following \<open>nxt\<close> from \<open>p\<close> visits the addresses \<open>as\<close>, holding the nodes \<open>ns\<close>,
  and arrives at \<open>q\<close>.
\<close>

fun nseg :: "('n \<Rightarrow> ptr) \<Rightarrow> 'n heap \<Rightarrow> ptr \<Rightarrow> addr list \<Rightarrow> 'n list \<Rightarrow> ptr \<Rightarrow> bool" where
  "nseg nxt h p [] [] q \<longleftrightarrow> p = q"
| "nseg nxt h p (a # as) (n # ns) q \<longleftrightarrow> p = Some a \<and> h a = Some n \<and> nseg nxt h (nxt n) as ns q"
| "nseg nxt h p _ _ q \<longleftrightarrow> False"

text \<open>Insertion behind every element whose key is not greater.\<close>

definition insert_by :: "('n \<Rightarrow> int) \<Rightarrow> 'n \<Rightarrow> 'n list \<Rightarrow> 'n list" where
  "insert_by key x xs = takeWhile (\<lambda>y. key y \<le> key x) xs @ x # dropWhile (\<lambda>y. key y \<le> key x) xs"

lemma nseg_length: "nseg nxt h p as ns q \<Longrightarrow> length as = length ns"
  by (induction nxt h p as ns q rule: nseg.induct) auto

lemma nseg_append:
  "length as = length ns \<Longrightarrow>
   nseg nxt h p (as @ bs) (ns @ ms) q \<longleftrightarrow> (\<exists>r. nseg nxt h p as ns r \<and> nseg nxt h r bs ms q)"
  by (induction as ns arbitrary: p rule: list_induct2) auto

lemma nseg_frame:
  "nseg nxt h p as ns q \<Longrightarrow> (\<And>a. a \<in> set as \<Longrightarrow> h' a = h a) \<Longrightarrow> nseg nxt h' p as ns q"
  by (induction nxt h p as ns q rule: nseg.induct) auto

lemma nseg_upd: "nseg nxt h p as ns q \<Longrightarrow> a \<notin> set as \<Longrightarrow> nseg nxt (h(a := v)) p as ns q"
  by (erule nseg_frame) auto

lemma nseg_dom: "nseg nxt h p as ns q \<Longrightarrow> set as \<subseteq> dom h"
  by (induction nxt h p as ns q rule: nseg.induct) auto

lemma nseg_null [simp]: "nseg nxt h None as ns None \<longleftrightarrow> as = [] \<and> ns = []"
  by (cases as; cases ns) auto

lemma find_node_nseg:
  "nseg nxt h p as ns None \<Longrightarrow>
   find_node nxt test h p =
     Some (map_option fst (find (\<lambda>(a, n). test n) (zip as ns)))"
proof (induction as arbitrary: p ns)
  case Nil
  then show ?case
    by (cases ns) (auto simp: find_node.simps)
next
  case (Cons a as)
  then show ?case
    by (cases ns) (auto simp: find_node.simps [of _ _ _ "Some a"] deref_def)
qed

lemma free_nodes_nseg:
  "nseg nxt h p as ns None \<Longrightarrow> distinct as \<Longrightarrow>
   free_nodes nxt p h = Some (h |` (- set as))"
proof (induction as arbitrary: p ns h)
  case Nil
  then show ?case
    by (cases ns) (auto simp: free_nodes.simps)
next
  case (Cons a as)
  then obtain n ms where ns: "ns = n # ms" and p: "p = Some a" "h a = Some n"
    and tl: "nseg nxt h (nxt n) as ms None"
    by (cases ns) auto
  have "free_nodes nxt (nxt n) (h(a := None)) = Some (h(a := None) |` (- set as))"
    using Cons.prems by (intro Cons.IH [OF nseg_upd [OF tl]]) auto
  moreover have "h(a := None) |` (- set as) = h |` (- set (a # as))"
    by (auto simp: restrict_map_def)
  ultimately show ?case
    using p by (simp add: free_nodes.simps [of _ "Some a"] deref_def)
qed

lemma mset_insert_by [simp]: "mset (insert_by key x xs) = add_mset x (mset xs)"
proof -
  have "mset (takeWhile P xs) + mset (dropWhile P xs) = mset xs" for P
    by (metis mset_append takeWhile_dropWhile_id)
  then show ?thesis
    by (simp add: insert_by_def)
qed

lemma set_insert_by [simp]: "set (insert_by key x xs) = insert x (set xs)"
  by (metis mset_insert_by set_mset_add_mset_insert set_mset_mset)

lemma length_insert_by [simp]: "length (insert_by key x xs) = Suc (length xs)"
  by (metis mset_insert_by size_add_mset size_mset)

lemma insert_by_Nil [simp]: "insert_by key x [] = [x]"
  by (simp add: insert_by_def)

lemma insert_by_Cons:
  "insert_by key x (y # ys) = (if key y \<le> key x then y # insert_by key x ys else x # y # ys)"
  by (simp add: insert_by_def)

lemma sorted_insert_by: "sorted (map key xs) \<Longrightarrow> sorted (map key (insert_by key x xs))"
  by (induction xs) (auto simp: insert_by_Cons)

lemma filter_insert_by:
  "sorted (map key xs) \<Longrightarrow>
   filter (\<lambda>y. k = key y) (insert_by key x xs) =
     (if k = key x then filter (\<lambda>y. k = key y) xs @ [x] else filter (\<lambda>y. k = key y) xs)"
proof (induction xs)
  case (Cons a xs)
  then have "filter (\<lambda>y. key x = key y) xs = []" if "\<not> key a \<le> key x"
    using that by (fastforce simp: filter_empty_conv)
  with Cons show ?case
    by (auto simp: insert_by_Cons)
qed simp

lemma foldl_insert_by:
  "foldl (\<lambda>acc x. insert_by key x acc) [] xs = sort_key key xs"
proof (rule properties_for_sort_key [symmetric])
  define f where "f = foldl (\<lambda>acc x. insert_by key x acc) []"
  have f: "mset (f xs) = mset xs \<and> sorted (map key (f xs)) \<and>
      (\<forall>k. filter (\<lambda>y. k = key y) (f xs) = filter (\<lambda>y. k = key y) xs)"
    by (induction xs rule: rev_induct) (auto simp: f_def sorted_insert_by filter_insert_by)
  show "mset (foldl (\<lambda>acc x. insert_by key x acc) [] xs) = mset xs"
    using f by (simp add: f_def)
  show "sorted (map key (foldl (\<lambda>acc x. insert_by key x acc) [] xs))"
    using f by (simp add: f_def)
  fix k assume "k \<in> set (foldl (\<lambda>acc x. insert_by key x acc) [] xs)"
  show "filter (\<lambda>x. key k = key x) (foldl (\<lambda>acc x. insert_by key x acc) [] xs) =
      filter (\<lambda>x. key k = key x) xs"
    using f by (simp add: f_def)
qed

section \<open>The interface of a node type\<close>

locale nodes =
  fixes nxt :: "'n \<Rightarrow> ptr"
    and set_nxt :: "ptr \<Rightarrow> 'n \<Rightarrow> 'n"
    and key :: "'n \<Rightarrow> int"
    and cmp :: "'n \<Rightarrow> 'n \<Rightarrow> int"
  assumes nxt_set [simp]: "nxt (set_nxt p n) = p"
    and set_set [simp]: "set_nxt p (set_nxt q n) = set_nxt p n"
    and key_set [simp]: "key (set_nxt p n) = key n"
    and cmp_pos: "cmp m n > 0 \<longleftrightarrow> key n < key m"
begin

text \<open>\<open>strip\<close> forgets the link; a list is described by its stripped nodes.\<close>

abbreviation strip :: "'n \<Rightarrow> 'n" where
  "strip \<equiv> set_nxt None"

lemma cmp_le: "cmp m n \<le> 0 \<longleftrightarrow> key m \<le> key n"
  using cmp_pos [of m n] by linarith

lemma map_strip_insert_by:
  "map strip (insert_by key x xs) = insert_by key (strip x) (map strip xs)"
  by (simp add: insert_by_def takeWhile_map dropWhile_map comp_def)

lemma insert_point_nseg:
  assumes "nseg nxt h (Some a) (a # as) (n # ns) None" "h c = Some m" "key n \<le> key m"
  shows "\<exists>us t ws xs z ys. a # as = us @ t # ws \<and> n # ns = xs @ z # ys \<and> length us = length xs \<and>
    (\<forall>x \<in> set (xs @ [z]). key x \<le> key m) \<and> (ys = [] \<or> key m < key (hd ys)) \<and>
    insert_point nxt cmp h (Some c) (Some a) = Some (Some t)"
  using assms
proof (induction as arbitrary: a n ns)
  case Nil
  then have "ns = []" "nxt n = None" "h a = Some n"
    by (cases ns; auto)+
  moreover from this have "insert_point nxt cmp h (Some c) (Some a) = Some (Some a)"
    by (simp add: insert_point.simps [of _ _ _ _ "Some a"] deref_def)
  ultimately show ?case
    using Nil.prems by (intro exI [of _ "[]"] exI [of _ a] exI [of _ n]) simp
next
  case (Cons b bs)
  then obtain k ks where ns: "ns = k # ks"
    by (cases ns) auto
  from Cons.prems(1) have b: "nxt n = Some b" "h a = Some n" "h b = Some k"
    by (auto simp: ns)
  show ?case
  proof (cases "key k \<le> key m")
    case True
    have "nseg nxt h (Some b) (b # bs) (k # ks) None"
      using Cons.prems(1) by (auto simp: ns)
    from Cons.IH [OF this Cons.prems(2) True] obtain us t ws xs z ys where
      IH: "b # bs = us @ t # ws" "k # ks = xs @ z # ys" "length us = length xs"
        "\<forall>x \<in> set (xs @ [z]). key x \<le> key m" "ys = [] \<or> key m < key (hd ys)"
        "insert_point nxt cmp h (Some c) (Some b) = Some (Some t)"
      by blast
    moreover have "insert_point nxt cmp h (Some c) (Some a) = insert_point nxt cmp h (Some c) (Some b)"
      using True Cons.prems(2) b
      by (simp add: insert_point.simps [of _ _ _ _ "Some a"] deref_def cmp_le)
    ultimately show ?thesis
      using Cons.prems(3)
      by (intro exI [of _ "a # us"] exI [of _ t] exI [of _ ws] exI [of _ "n # xs"] exI [of _ z]
          exI [of _ ys]) (simp add: ns)
  next
    case False
    then have "insert_point nxt cmp h (Some c) (Some a) = Some (Some a)"
      using Cons.prems(2) b
      by (simp add: insert_point.simps [of _ _ _ _ "Some a"] deref_def cmp_le)
    with False Cons.prems(3) show ?thesis
      by (intro exI [of _ "[]"] exI [of _ a] exI [of _ "b # bs"] exI [of _ "[]"] exI [of _ n]
          exI [of _ ns]) (simp add: ns)
  qed
qed

lemma insert_by_split:
  assumes "\<forall>x \<in> set xs. key x \<le> key m" "ys = [] \<or> key m < key (hd ys)"
  shows "insert_by key m (xs @ ys) = xs @ m # ys"
  using assms by (induction xs) (cases ys; auto simp: insert_by_Cons)+

lemma link_behind:
  assumes seg: "nseg nxt h (Some a) (us @ t # ws) (xs @ z # ys) None" "length us = length xs"
    and "distinct (us @ t # ws)" "c \<notin> set (us @ t # ws)" "h c = Some m"
  shows "nseg nxt (h(c \<mapsto> set_nxt (nxt z) m, t \<mapsto> set_nxt (Some c) z)) (Some a)
     (us @ t # c # ws) (xs @ set_nxt (Some c) z # set_nxt (nxt z) m # ys) None \<and> h t = Some z"
proof -
  let ?h = "h(c \<mapsto> set_nxt (nxt z) m, t \<mapsto> set_nxt (Some c) z)"
  from seg obtain r where r: "nseg nxt h (Some a) us xs r" "nseg nxt h r (t # ws) (z # ys) None"
    by (auto simp: nseg_append)
  have "nseg nxt ?h (Some a) us xs r"
    using r(1) assms(3,4) by (intro nseg_upd) auto
  moreover have "nseg nxt ?h (nxt z) ws ys None"
    using r(2) assms(3,4) by (intro nseg_upd) auto
  ultimately show ?thesis
    using r(2) assms(4) seg(2) by (auto simp: nseg_append)
qed

text \<open>
  Insertion cuts the list behind all nodes of at most the new key and links the node there.  Only the new node and the
  nodes in front of it are written.
\<close>

lemma insert_node_split:
  assumes seg: "nseg nxt h p as ns None" "distinct as" "c \<notin> set as" "h c = Some m"
    and fresh: "as = [] \<longrightarrow> nxt m = None"
  obtains p' h' us ws xs xs' ys m' where "insert_node nxt set_nxt cmp p (Some c) h = Some (p', h')"
    "as = us @ ws" "ns = xs @ ys" "length us = length xs" "length ws = length ys"
    "\<forall>x \<in> set xs. key x \<le> key m" "ys = [] \<or> key m < key (hd ys)"
    "nseg nxt h' p' us xs' (Some c)" "map strip xs' = map strip xs" "h' c = Some m'" "strip m' = strip m"
    "nseg nxt h' (nxt m') ws ys None" "\<forall>a. a \<notin> insert c (set us) \<longrightarrow> h' a = h a"
proof (cases ns)
  case Nil
  with seg(1) have as: "as = []" "p = None"
    by (cases as; simp)+
  with Nil fresh seg(4) show ?thesis
    by (intro that [where h' = h and us = Nil and xs = Nil and xs' = Nil and ws = as and ys = ns and m' = m])
      (simp_all add: insert_node_def)
next
  case (Cons n ms)
  with seg(1) obtain a bs where as: "as = a # bs" "p = Some a" "h a = Some n"
    by (cases as) auto
  show ?thesis
  proof (cases "key m < key n")
    case True
    then have "insert_node nxt set_nxt cmp p (Some c) h = Some (Some c, h(c \<mapsto> set_nxt p m))"
      using as seg(4) by (simp add: insert_node_def deref_def store_def cmp_pos)
    moreover have "nseg nxt (h(c \<mapsto> set_nxt p m)) p as ns None"
      using nseg_upd [OF seg(1,3)] by simp
    ultimately show ?thesis
      using True Cons nseg_length [OF seg(1)]
      by (intro that [where us = Nil and xs = Nil and xs' = Nil and ws = as and ys = ns and m' = "set_nxt p m"]) auto
  next
    case False
    with insert_point_nseg [of h a bs n ms c m] seg as Cons obtain us t ws xs z ys where
      split: "as = us @ t # ws" "ns = xs @ z # ys" "length us = length xs"
        "\<forall>x \<in> set (xs @ [z]). key x \<le> key m" "ys = [] \<or> key m < key (hd ys)"
        "insert_point nxt cmp h (Some c) p = Some (Some t)"
      by auto
    let ?h = "h(c \<mapsto> set_nxt (nxt z) m, t \<mapsto> set_nxt (Some c) z)"
    have len: "length ws = length ys"
      using nseg_length [OF seg(1)] split(1-3) by simp
    have link: "nseg nxt ?h p ((us @ [t]) @ (c # ws)) ((xs @ [set_nxt (Some c) z]) @ (set_nxt (nxt z) m # ys)) None" "h t = Some z"
      using link_behind [of h a us t ws xs z ys c m] seg as(2) split(1-3) by simp_all
    have "length (us @ [t]) = length (xs @ [set_nxt (Some c) z])"
      by (simp add: split(3))
    from iffD1 [OF nseg_append [OF this] link(1)] obtain r where
      r: "nseg nxt ?h p (us @ [t]) (xs @ [set_nxt (Some c) z]) r" "nseg nxt ?h r (c # ws) (set_nxt (nxt z) m # ys) None"
      by blast
    have "insert_node nxt set_nxt cmp p (Some c) h = Some (p, ?h)"
      using False split(1,6) as link(2) seg(3,4)
      by (auto simp: insert_node_def deref_def store_def cmp_pos)
    moreover have "nseg nxt ?h p (us @ [t]) (xs @ [set_nxt (Some c) z]) (Some c)" "nseg nxt ?h (nxt z) ws ys None"
      using r by simp_all
    ultimately show ?thesis
      using split(1-5) len seg(3)
      by (intro that [of p ?h "us @ [t]" ws "xs @ [z]" ys "xs @ [set_nxt (Some c) z]" "set_nxt (nxt z) m"]) auto
  qed
qed

text \<open>
  Insertion in a list that does not contain the node gives the list with the node behind all nodes
  of at most its key, and touches no other node.
\<close>

lemma insert_node_list:
  assumes seg: "nseg nxt h p as ns None" "distinct as" "c \<notin> set as" "h c = Some m"
    and fresh: "as = [] \<Longrightarrow> nxt m = None"
  shows "\<exists>p' h' as' ns'. insert_node nxt set_nxt cmp p (Some c) h = Some (p', h') \<and>
    nseg nxt h' p' as' ns' None \<and> distinct as' \<and> set as' = insert c (set as) \<and>
    map strip ns' = insert_by key (strip m) (map strip ns) \<and>
    (\<forall>a. a \<notin> set as' \<longrightarrow> h' a = h a) \<and> p' \<noteq> None"
proof -
  have "as = [] \<longrightarrow> nxt m = None"
    using fresh by blast
  then obtain p' h' us ws xs xs' ys m' where ins: "insert_node nxt set_nxt cmp p (Some c) h = Some (p', h')"
    "as = us @ ws" "ns = xs @ ys" "length us = length xs" "length ws = length ys"
    "\<forall>x \<in> set xs. key x \<le> key m" "ys = [] \<or> key m < key (hd ys)"
    "nseg nxt h' p' us xs' (Some c)" "map strip xs' = map strip xs" "h' c = Some m'" "strip m' = strip m"
    "nseg nxt h' (nxt m') ws ys None" "\<forall>a. a \<notin> insert c (set us) \<longrightarrow> h' a = h a"
    by (rule insert_node_split [OF seg])
  have "nseg nxt h' p' (us @ c # ws) (xs' @ m' # ys) None"
    using ins(8,10,12) nseg_append [OF nseg_length [OF ins(8)], of nxt h' p' "c # ws" "m' # ys" None] by auto
  moreover have "map strip (xs' @ m' # ys) = insert_by key (strip m) (map strip ns)"
    using insert_by_split [OF ins(6,7)] map_strip_insert_by [of m ns] ins(3,9,11) by simp
  moreover have "p' \<noteq> None"
    using ins(8) by (cases us; cases xs') auto
  ultimately show ?thesis
    using ins(1,2,13) seg(2,3)
    by (intro exI [of _ p'] exI [of _ h'] exI [of _ "us @ c # ws"] exI [of _ "xs' @ m' # ys"]) auto
qed

end

end
