(* ===== verification/USys.thy ===== *)
theory USys
  imports ULib Nodes
begin

text \<open>
  What a user program sees of the kernel: the files it can name, its sixteen file descriptors and its
  user id.  Only the calls that the account library makes are here (\<^verbatim>\<open>open\<close>, \<^verbatim>\<open>close\<close>, \<^verbatim>\<open>read\<close>,
  \<^verbatim>\<open>write\<close>, \<^verbatim>\<open>fsize\<close>, \<^verbatim>\<open>unlink\<close>, \<^verbatim>\<open>mkdir\<close>, \<^verbatim>\<open>chown\<close>, \<^verbatim>\<open>updateDirOwner\<close>), as the contract that
  \<^verbatim>\<open>sysfile.c\<close> and \<^verbatim>\<open>file.c\<close> implement: a file is its contents, a name leads to a file, and an open
  file is a file with an offset.  The permission test on the last component of a path passes for
  every name that starts with \<^verbatim>\<open>passwd\<close> or \<^verbatim>\<open>group\<close>, so the two account files are never refused;
  for the home directories the kernel's verdict is the predicate \<open>denied\<close>.

  \<open>stack_after\<close> holds the bytes that lie behind a variable-length array on the stack: the library
  reads the account files into such arrays and scans them as NUL-terminated strings.
\<close>

record ofile =
  of_ino :: nat
  of_off :: nat
  of_readable :: bool
  of_writable :: bool

datatype sysevent =
    EvMkdir string
  | EvChown string int int
  | EvUpdateDirOwner string int int
  | EvPrint string
  | EvEchoOnOff
  | EvClear
  | EvChdir string
  | EvSetuid int
  | EvExec string

record uworld =
  names :: "string \<rightharpoonup> nat"
  contents :: "nat \<Rightarrow> string"
  next_ino :: nat
  fds :: "nat \<Rightarrow> ofile option"
  proc_uid :: int
  denied :: "string \<Rightarrow> bool"
  stack_after :: string
  stdin :: string
  events :: "sysevent list"

abbreviation (input) O_RDONLY :: nat where "O_RDONLY \<equiv> 0"
abbreviation (input) O_WRONLY :: nat where "O_WRONLY \<equiv> 1"
abbreviation (input) O_RDWR :: nat where "O_RDWR \<equiv> 2"
abbreviation (input) O_CREATE :: nat where "O_CREATE \<equiv> 512"

definition u_fdalloc :: "'a uworld_scheme \<Rightarrow> nat option" where
  "u_fdalloc w = find (\<lambda>fd. fds w fd = None) [0..<16]"

definition u_lookup :: "string \<Rightarrow> nat \<Rightarrow> 'a uworld_scheme \<Rightarrow> (nat \<times> 'a uworld_scheme) option" where
  "u_lookup path mode w =
     (case names w path of
        Some i \<Rightarrow> Some (i, w)
      | None \<Rightarrow>
          if mode AND O_CREATE \<noteq> 0
          then Some (next_ino w,
                 w\<lparr>names := (names w)(path \<mapsto> next_ino w),
                   contents := (contents w)(next_ino w := []),
                   next_ino := Suc (next_ino w)\<rparr>)
          else None)"

definition u_open :: "string \<Rightarrow> nat \<Rightarrow> 'a uworld_scheme \<Rightarrow> int \<times> 'a uworld_scheme" where
  "u_open path mode w =
     (case u_lookup path mode w of
        None \<Rightarrow> (- 1, w)
      | Some (i, w) \<Rightarrow>
          (case u_fdalloc w of
             None \<Rightarrow> (- 1, w)
           | Some fd \<Rightarrow>
               (int fd,
                w\<lparr>fds := (fds w)(fd \<mapsto>
                   \<lparr>of_ino = i, of_off = 0, of_readable = (mode AND O_WRONLY = 0),
                    of_writable = (mode AND O_WRONLY \<noteq> 0 \<or> mode AND O_RDWR \<noteq> 0)\<rparr>)\<rparr>)))"

definition u_fd :: "int \<Rightarrow> 'a uworld_scheme \<Rightarrow> ofile option" where
  "u_fd fd w = (if 0 \<le> fd \<and> fd < 16 then fds w (nat fd) else None)"

definition u_close :: "int \<Rightarrow> 'a uworld_scheme \<Rightarrow> 'a uworld_scheme" where
  "u_close fd w = (if u_fd fd w = None then w else w\<lparr>fds := (fds w)(nat fd := None)\<rparr>)"

definition u_fsize :: "int \<Rightarrow> 'a uworld_scheme \<Rightarrow> int" where
  "u_fsize fd w = (case u_fd fd w of None \<Rightarrow> - 1 | Some f \<Rightarrow> int (length (contents w (of_ino f))))"

definition u_read :: "int \<Rightarrow> nat \<Rightarrow> 'a uworld_scheme \<Rightarrow> string option \<times> 'a uworld_scheme" where
  "u_read fd n w =
     (case u_fd fd w of
        None \<Rightarrow> (None, w)
      | Some f \<Rightarrow>
          if \<not> of_readable f then (None, w)
          else let d = take n (drop (of_off f) (contents w (of_ino f)))
               in (Some d, w\<lparr>fds := (fds w)(nat fd \<mapsto> f\<lparr>of_off := of_off f + length d\<rparr>)\<rparr>))"

definition u_write :: "int \<Rightarrow> string \<Rightarrow> 'a uworld_scheme \<Rightarrow> int \<times> 'a uworld_scheme" where
  "u_write fd s w =
     (case u_fd fd w of
        None \<Rightarrow> (- 1, w)
      | Some f \<Rightarrow>
          if \<not> of_writable f then (- 1, w)
          else let d = contents w (of_ino f);
                   d' = take (of_off f) d @ s @ drop (of_off f + length s) d
               in (int (length s),
                   w\<lparr>contents := (contents w)(of_ino f := d'),
                     fds := (fds w)(nat fd \<mapsto> f\<lparr>of_off := of_off f + length s\<rparr>)\<rparr>))"

definition u_unlink :: "string \<Rightarrow> 'a uworld_scheme \<Rightarrow> int \<times> 'a uworld_scheme" where
  "u_unlink path w =
     (if names w path = None then (- 1, w) else (0, w\<lparr>names := (names w)(path := None)\<rparr>))"

definition u_mkdir :: "string \<Rightarrow> 'a uworld_scheme \<Rightarrow> int \<times> 'a uworld_scheme" where
  "u_mkdir path w =
     (if names w path \<noteq> None \<or> denied w path then (- 1, w)
      else (0, w\<lparr>names := (names w)(path \<mapsto> next_ino w), next_ino := Suc (next_ino w),
                events := events w @ [EvMkdir path]\<rparr>))"

definition u_chown :: "string \<Rightarrow> int \<Rightarrow> int \<Rightarrow> 'a uworld_scheme \<Rightarrow> int \<times> 'a uworld_scheme" where
  "u_chown path uid gid w =
     (if proc_uid w \<noteq> 0 then (- 1, w) else (1, w\<lparr>events := events w @ [EvChown path uid gid]\<rparr>))"

definition u_updateDirOwner :: "string \<Rightarrow> int \<Rightarrow> int \<Rightarrow> 'a uworld_scheme \<Rightarrow> int \<times> 'a uworld_scheme" where
  "u_updateDirOwner path uid gid w = (1, w\<lparr>events := events w @ [EvUpdateDirOwner path uid gid]\<rparr>)"

text \<open>
  Well-formed worlds: the inode counter is fresh, so a created file never aliases an existing one.
\<close>

definition world_ok :: "'a uworld_scheme \<Rightarrow> bool" where
  "world_ok w \<longleftrightarrow> (\<forall>p i. names w p = Some i \<longrightarrow> i < next_ino w) \<and>
     (\<forall>fd f. fds w fd = Some f \<longrightarrow> of_ino f < next_ino w)"

text \<open>\<open>free_fds w k\<close>: at least \<open>k\<close> of the sixteen descriptors are free.\<close>

definition free_fds :: "'a uworld_scheme \<Rightarrow> nat" where
  "free_fds w = length (filter (\<lambda>fd. fds w fd = None) [0..<16])"

section \<open>Reading a whole file and replacing a file\<close>

text \<open>The stored text of a file by name.\<close>

definition file_text :: "'a uworld_scheme \<Rightarrow> string \<Rightarrow> string option" where
  "file_text w path = map_option (contents w) (names w path)"

lemma u_fdalloc_Some:
  assumes "0 < free_fds w"
  obtains fd where "u_fdalloc w = Some fd" "fd < 16" "fds w fd = None"
proof (cases "u_fdalloc w")
  case None
  then have "filter (\<lambda>fd. fds w fd = None) [0..<16] = []"
    unfolding u_fdalloc_def by (auto simp: find_None_iff filter_empty_conv)
  then show ?thesis
    using assms by (simp add: free_fds_def)
next
  case (Some fd)
  then show ?thesis
    using that [of fd] by (auto simp: u_fdalloc_def find_Some_iff)
qed

lemma open_existing:
  assumes "names w path = Some i" "0 < free_fds w"
  obtains fd where "u_open path mode w =
      (int fd, w\<lparr>fds := (fds w)(fd \<mapsto>
         \<lparr>of_ino = i, of_off = 0, of_readable = (mode AND O_WRONLY = 0),
          of_writable = (mode AND O_WRONLY \<noteq> 0 \<or> mode AND O_RDWR \<noteq> 0)\<rparr>)\<rparr>)"
    "fd < 16" "fds w fd = None"
proof -
  obtain fd where "u_fdalloc w = Some fd" "fd < 16" "fds w fd = None"
    using u_fdalloc_Some [OF assms(2)] by blast
  then show ?thesis
    using that [of fd] assms(1) by (simp add: u_open_def u_lookup_def)
qed

end
