(* ===== verification/Users.thy ===== *)
theory Users
  imports USys
begin

text \<open>
  \<^verbatim>\<open>src/user/userhandler.c\<close>, the part that works on users: the records of \<^verbatim>\<open>usergroups.h\<close>, the
  parser and printer of \<^verbatim>\<open>/etc/passwd\<close> lines, the sorted list of users on the heap, and the lookups
  and updates that the login and administration programs are made of.

  A freshly allocated node has the contents \<open>fresh_user\<close>, which nothing constrains: fields the code
  does not assign keep them.  \<^verbatim>\<open>malloc\<close> always succeeds here.  Arrays of \<^verbatim>\<open>STRING_SIZE\<close> characters
  overflow into undefined behaviour, that is \<open>None\<close>.
\<close>

record user =
  username :: string
  password :: string
  u_uid :: int
  u_gid :: int
  realname :: string
  homedir :: string
  u_next :: ptr

record group =
  groupname :: string
  g_gid :: int
  userList :: ptr
  g_next :: ptr

record accounts = uworld +
  uheap :: "user heap"
  gheap :: "group heap"
  brk :: nat
  fresh_user :: "addr \<Rightarrow> user"
  fresh_group :: "addr \<Rightarrow> group"
  strtok_sp :: "nat option"
  strtok2_sp :: "nat option"

definition malloc_user :: "accounts \<Rightarrow> ptr \<times> accounts" where
  "malloc_user w =
     (Some (brk w), w\<lparr>uheap := (uheap w)(brk w \<mapsto> fresh_user w (brk w)), brk := Suc (brk w)\<rparr>)"

definition put_user :: "ptr \<Rightarrow> user \<Rightarrow> accounts \<Rightarrow> accounts option" where
  "put_user p u w = do { h \<leftarrow> store (uheap w) p u; Some (w\<lparr>uheap := h\<rparr>) }"

section \<open>Lines of the password file\<close>

text \<open>
  Copying characters into \<^verbatim>\<open>buf\<close> up to the delimiter or a NUL.  \<open>s\<close> is the memory from the scanned
  position on; \<open>buf\<close> has \<open>STRING_SIZE\<close> characters, one of them for the terminator.
\<close>

fun scan_field :: "char \<Rightarrow> string \<Rightarrow> string option" where
  "scan_field d [] = undefined_behaviour ''read past the buffer''"
| "scan_field d (c # cs) =
     (if c = d \<or> c = NUL then Some [] else do { f \<leftarrow> scan_field d cs; Some (c # f) })"

definition field :: "char \<Rightarrow> string \<Rightarrow> nat \<Rightarrow> string option" where
  "field d s pnt = do { buf \<leftarrow> scan_field d (drop pnt s); strcpy STRING_SIZE buf }"

fun parse_fields :: "nat \<Rightarrow> string \<Rightarrow> nat \<Rightarrow> (string list \<times> nat) option" where
  "parse_fields 0 s pnt = Some ([], pnt)"
| "parse_fields (Suc k) s pnt = do {
     buf \<leftarrow> field (CHR '':'') s pnt;
     (tmp, pnt') \<leftarrow> parse_fields k s (pnt + length buf + 1);
     Some (buf # tmp, pnt')
   }"

definition getUserFromString :: "string \<Rightarrow> accounts \<Rightarrow> (ptr \<times> accounts) option" where
  "getUserFromString userString w = do {
     let (currUser, w) = malloc_user w;
     (tmp, pnt) \<leftarrow> parse_fields 6 userString 0;
     u \<leftarrow> deref (uheap w) currUser;
     w \<leftarrow> put_user currUser
       (u\<lparr>username := tmp ! 0, password := tmp ! 1, u_uid := atoi (tmp ! 2), u_gid := atoi (tmp ! 3),
          realname := tmp ! 4, homedir := tmp ! 5, u_next := None\<rparr>) w;
     Some (currUser, w)
   }"

text \<open>The caller's buffer \<^verbatim>\<open>userString\<close> has \<open>cap\<close> characters.\<close>

definition getStringFromUser :: "nat \<Rightarrow> user \<Rightarrow> string option" where
  "getStringFromUser cap currUser = do {
     userString \<leftarrow> strcpy cap (username currUser);
     userString \<leftarrow> strcat cap userString '':'';
     userString \<leftarrow> strcat cap userString (password currUser);
     userString \<leftarrow> strcat cap userString '':'';
     uidString \<leftarrow> strcpy STRING_SIZE (itoa (u_uid currUser) [] 10);
     userString \<leftarrow> strcat cap userString uidString;
     userString \<leftarrow> strcat cap userString '':'';
     gidString \<leftarrow> strcpy STRING_SIZE (itoa (u_gid currUser) [] 10);
     userString \<leftarrow> strcat cap userString gidString;
     userString \<leftarrow> strcat cap userString '':'';
     userString \<leftarrow> strcat cap userString (realname currUser);
     userString \<leftarrow> strcat cap userString '':'';
     userString \<leftarrow> strcat cap userString (homedir currUser);
     strcat cap userString [CHR 0x0A]
   }"

section \<open>The sorted list of users\<close>

definition compareUsers :: "user \<Rightarrow> user \<Rightarrow> int" where
  "compareUsers user1 user2 =
     (if u_uid user1 > u_uid user2 then 1 else if u_uid user1 < u_uid user2 then - 1 else 0)"

abbreviation set_u_next :: "ptr \<Rightarrow> user \<Rightarrow> user" where
  "set_u_next p u \<equiv> u\<lparr>u_next := p\<rparr>"

definition addUserToListSorted :: "ptr \<Rightarrow> ptr \<Rightarrow> accounts \<Rightarrow> (ptr \<times> accounts) option" where
  "addUserToListSorted ulist currUser w =
     (if currUser = None then Some (ulist, w)
      else do {
        (ulist, h) \<leftarrow> insert_node u_next set_u_next compareUsers ulist currUser (uheap w);
        Some (ulist, w\<lparr>uheap := h\<rparr>)
      })"

definition freeUserList :: "ptr \<Rightarrow> accounts \<Rightarrow> accounts option" where
  "freeUserList ulist w = do { h \<leftarrow> free_nodes u_next ulist (uheap w); Some (w\<lparr>uheap := h\<rparr>) }"

section \<open>Reading the password file\<close>

text \<open>
  \<open>slurp\<close> is the opening of both select functions: open the file, take its size, declare an array of
  that size and read into it.  Opening fails when the file is missing, and then the array's size is
  \<open>-1\<close>.  The memory from the array's first byte on is the file's bytes followed by \<open>stack_after\<close>.
\<close>

definition slurp :: "string \<Rightarrow> accounts \<Rightarrow> (int \<times> string \<times> accounts) option" where
  "slurp path w = do {
     let (fd, w) = u_open path O_RDONLY w;
     let size = u_fsize fd w;
     if size < 0 then undefined_behaviour ''array of negative size''
     else
       (case u_read fd (nat size) w of
          (None, w) \<Rightarrow> undefined_behaviour ''uninitialised array''
        | (Some d, w) \<Rightarrow>
            if length d < nat size then undefined_behaviour ''uninitialised array''
            else Some (fd, d @ stack_after w, w))
   }"

definition strtok_call ::
  "nat option \<Rightarrow> string \<Rightarrow> string \<Rightarrow> accounts \<Rightarrow> (nat option \<times> string \<times> accounts) option" where
  "strtok_call str delimiters buf w = do {
     (token, sp, buf) \<leftarrow> strtok str delimiters (strtok_sp w, buf);
     Some (token, buf, w\<lparr>strtok_sp := sp\<rparr>)
   }"

partial_function (option) users_loop ::
  "ptr \<Rightarrow> nat option \<Rightarrow> string \<Rightarrow> accounts \<Rightarrow> (ptr \<times> accounts) option" where
  "users_loop ulist token fileContent w =
     (case token of
        None \<Rightarrow> Some (ulist, w)
      | Some off \<Rightarrow> do {
          (currUser, w) \<leftarrow> getUserFromString (drop off fileContent) w;
          (ulist, w) \<leftarrow> addUserToListSorted ulist currUser w;
          (token, fileContent, w) \<leftarrow> strtok_call None [CHR 0x0A] fileContent w;
          users_loop ulist token fileContent w
        })"

definition selectAllUsersFromPasswdFile :: "accounts \<Rightarrow> (ptr \<times> accounts) option" where
  "selectAllUsersFromPasswdFile w = do {
     (fd, fileContent, w) \<leftarrow> slurp ''/etc/passwd'' w;
     (token, fileContent, w) \<leftarrow> strtok_call (Some 0) [CHR 0x0A] fileContent w;
     (ulist, w) \<leftarrow> users_loop None token fileContent w;
     Some (ulist, u_close fd w)
   }"

section \<open>Looking users up\<close>

definition checkUsernamePasswordForCurrUser :: "string \<Rightarrow> string \<Rightarrow> user \<Rightarrow> bool" where
  "checkUsernamePasswordForCurrUser uname pwd currUser \<longleftrightarrow>
     strcmp uname (username currUser) = 0 \<and> strcmp pwd (password currUser) = 0"

definition authenticateUser :: "string \<Rightarrow> string \<Rightarrow> accounts \<Rightarrow> (ptr \<times> accounts) option" where
  "authenticateUser uname pwd w = do {
     (ulist, w) \<leftarrow> selectAllUsersFromPasswdFile w;
     tmpUser \<leftarrow> find_node u_next (checkUsernamePasswordForCurrUser uname pwd) (uheap w) ulist;
     if tmpUser \<noteq> None then Some (tmpUser, w)
     else do { w \<leftarrow> freeUserList ulist w; Some (None, w) }
   }"

definition isUidAvailable :: "int \<Rightarrow> accounts \<Rightarrow> (bool \<times> accounts) option" where
  "isUidAvailable uid w = do {
     (ulist, w) \<leftarrow> selectAllUsersFromPasswdFile w;
     tmpUser \<leftarrow> find_node u_next (\<lambda>u. u_uid u = uid) (uheap w) ulist;
     w \<leftarrow> freeUserList ulist w;
     Some (tmpUser = None, w)
   }"

partial_function (option) next_uid_loop :: "user heap \<Rightarrow> ptr \<Rightarrow> int \<Rightarrow> int option" where
  "next_uid_loop h tmpUser uid =
     (if tmpUser = None then Some uid
      else do {
        u \<leftarrow> deref h tmpUser;
        next_uid_loop h (u_next u) (if u_uid u = uid then s32 (uid + 1) else uid)
      })"

definition getNextAvailableUid :: "accounts \<Rightarrow> (int \<times> accounts) option" where
  "getNextAvailableUid w = do {
     (ulist, w) \<leftarrow> selectAllUsersFromPasswdFile w;
     uid \<leftarrow> next_uid_loop (uheap w) ulist 1000;
     w \<leftarrow> freeUserList ulist w;
     Some (uid, w)
   }"

text \<open>The tail shared by \<^verbatim>\<open>getUserFromUid\<close> and \<^verbatim>\<open>getUserFromUsername\<close>: detach the node that was found.\<close>

definition detach_user :: "ptr \<Rightarrow> ptr \<Rightarrow> accounts \<Rightarrow> (ptr \<times> accounts) option" where
  "detach_user tmpUser ulist w =
     (if tmpUser \<noteq> None then do {
        u \<leftarrow> deref (uheap w) tmpUser;
        w \<leftarrow> put_user tmpUser (u\<lparr>u_next := None\<rparr>) w;
        Some (tmpUser, w)
      } else do { w \<leftarrow> freeUserList ulist w; Some (None, w) })"

definition getUserFromUid :: "int \<Rightarrow> accounts \<Rightarrow> (ptr \<times> accounts) option" where
  "getUserFromUid uid w = do {
     (ulist, w) \<leftarrow> selectAllUsersFromPasswdFile w;
     tmpUser \<leftarrow> find_node u_next (\<lambda>u. uid = u_uid u) (uheap w) ulist;
     detach_user tmpUser ulist w
   }"

definition getUserFromUsername :: "string \<Rightarrow> accounts \<Rightarrow> (ptr \<times> accounts) option" where
  "getUserFromUsername uname w = do {
     (ulist, w) \<leftarrow> selectAllUsersFromPasswdFile w;
     tmpUser \<leftarrow> find_node u_next (\<lambda>u. strcmp (username u) uname = 0) (uheap w) ulist;
     detach_user tmpUser ulist w
   }"

definition authenticateOldPassword :: "user \<Rightarrow> string \<Rightarrow> bool" where
  "authenticateOldPassword currUser oldPassword \<longleftrightarrow> strcmp (password currUser) oldPassword = 0"

section \<open>Writing the password file\<close>

partial_function (option) write_users :: "int \<Rightarrow> ptr \<Rightarrow> accounts \<Rightarrow> accounts option" where
  "write_users fd ulist w =
     (if ulist = None then Some w
      else do {
        u \<leftarrow> deref (uheap w) ulist;
        userString \<leftarrow> getStringFromUser (STRING_SIZE * 4) u;
        write_users fd (u_next u) (snd (u_write fd userString w))
      })"

definition updatePasswdFile :: "ptr \<Rightarrow> accounts \<Rightarrow> accounts option" where
  "updatePasswdFile ulist w = do {
     let (_, w) = u_unlink ''/etc/passwd'' w;
     let (_, w) = u_open ''/etc/passwd'' O_CREATE w;
     let (fd, w) = u_open ''/etc/passwd'' O_WRONLY w;
     w \<leftarrow> write_users fd ulist w;
     Some (u_close fd w)
   }"

definition addNewUser :: "ptr \<Rightarrow> accounts \<Rightarrow> accounts option" where
  "addNewUser newUser w = do {
     (ulist, w) \<leftarrow> selectAllUsersFromPasswdFile w;
     (ulist, w) \<leftarrow> addUserToListSorted ulist newUser w;
     w \<leftarrow> updatePasswdFile ulist w;
     freeUserList ulist w
   }"

text \<open>The \<^verbatim>\<open>strcpy\<close> calls between two users copy arrays of the same size.\<close>

definition overwrite_user :: "ptr \<Rightarrow> ptr \<Rightarrow> ptr \<Rightarrow> accounts \<Rightarrow> accounts option" where
  "overwrite_user currUser modUser ulist w =
     (if ulist = None then Some w
      else do {
        c \<leftarrow> deref (uheap w) currUser;
        tmpUser \<leftarrow> find_node u_next (\<lambda>u. compareUsers u c = 0) (uheap w) ulist;
        if tmpUser = None then Some w
        else do {
          t \<leftarrow> deref (uheap w) tmpUser;
          m \<leftarrow> deref (uheap w) modUser;
          put_user tmpUser (m\<lparr>u_next := u_next t\<rparr>) w
        }
      })"

definition updateUserInfo :: "ptr \<Rightarrow> ptr \<Rightarrow> accounts \<Rightarrow> accounts option" where
  "updateUserInfo currUser modUser w = do {
     (ulist, w) \<leftarrow> selectAllUsersFromPasswdFile w;
     w \<leftarrow> overwrite_user currUser modUser ulist w;
     w \<leftarrow> updatePasswdFile ulist w;
     freeUserList ulist w
   }"

section \<open>Printing and parsing one user\<close>

interpretation user_nodes: nodes u_next set_u_next u_uid compareUsers
  by unfold_locales (auto simp: compareUsers_def)

text \<open>The text of a user's line, without the newline.\<close>

definition user_line :: "user \<Rightarrow> string" where
  "user_line u = username u @ CHR '':'' # password u @ CHR '':'' # itoa (u_uid u) [] 10 @
     CHR '':'' # itoa (u_gid u) [] 10 @ CHR '':'' # realname u @ CHR '':'' # homedir u"

definition passwd_text :: "user list \<Rightarrow> string" where
  "passwd_text us = concat (map (\<lambda>u. user_line u @ [CHR 0x0A]) us)"

definition plain :: "string \<Rightarrow> bool" where
  "plain s \<longleftrightarrow> length s < STRING_SIZE \<and> NUL \<notin> set s \<and> CHR '':'' \<notin> set s \<and> CHR 0x0A \<notin> set s"

text \<open>
  A user whose line can be stored: every string fits its array and contains neither separators nor
  NUL, the ids are not negative, and the line with its newline fits the 128 characters that
  \<^verbatim>\<open>updatePasswdFile\<close> has for it.
\<close>

definition user_ok :: "user \<Rightarrow> bool" where
  "user_ok u \<longleftrightarrow> plain (username u) \<and> plain (password u) \<and> plain (realname u) \<and> plain (homedir u) \<and>
     0 \<le> u_uid u \<and> u_uid u < 2 ^ 31 \<and> 0 \<le> u_gid u \<and> u_gid u < 2 ^ 31 \<and>
     length (user_line u) + 1 < STRING_SIZE * 4 \<and> u_next u = None"

lemma scan_field_run:
  "d \<notin> set f \<Longrightarrow> NUL \<notin> set f \<Longrightarrow> c = d \<or> c = NUL \<Longrightarrow> scan_field d (f @ c # rest) = Some f"
  by (induction f) auto

lemma field_run:
  assumes "drop pnt s = f @ c # rest" "d \<notin> set f" "NUL \<notin> set f" "c = d \<or> c = NUL"
    and "length f < STRING_SIZE"
  shows "field d s pnt = Some f" and "drop (pnt + length f + 1) s = rest"
proof -
  show "field d s pnt = Some f"
    using assms scan_field_run [of d f c rest] by (simp add: field_def strcpy_def)
  have "drop (Suc (length f)) (drop pnt s) = rest"
    by (simp add: assms(1))
  then show "drop (pnt + length f + 1) s = rest"
    by (simp add: add.commute)
qed

lemma is_digit_not_special: "is_digit c \<Longrightarrow> c \<noteq> NUL \<and> c \<noteq> CHR '':'' \<and> c \<noteq> CHR '','' \<and> c \<noteq> CHR 0x0A"
  by (auto simp: is_digit_def NUL_def)

lemma itoa_plain:
  assumes "0 \<le> n" "n < 2 ^ 31"
  shows "plain (itoa n [] 10)" "CHR '','' \<notin> set (itoa n [] 10)"
  using length_itoa_decimal [OF assms, of "[]"] itoa_decimal_digits [OF assms(1), of "[]"]
    is_digit_not_special
  by (fastforce simp: plain_def STRING_SIZE_def list_all_iff)+

lemma parse_fields_run:
  "(\<forall>f \<in> set fs. plain f) \<Longrightarrow> plain g \<Longrightarrow> c = CHR '':'' \<or> c = NUL \<Longrightarrow>
   drop pnt s = concat (map (\<lambda>f. f @ '':'') fs) @ g @ c # rest \<Longrightarrow>
   \<exists>q. parse_fields (Suc (length fs)) s pnt = Some (fs @ [g], q) \<and> drop q s = rest"
proof (induction fs arbitrary: pnt)
  case Nil
  then have "field (CHR '':'') s pnt = Some g" "drop (pnt + length g + 1) s = rest"
    using field_run [of pnt s g c rest "CHR '':''"] by (auto simp: plain_def)
  then show ?case
    by simp
next
  case (Cons f fs)
  have "field (CHR '':'') s pnt = Some f"
    "drop (pnt + length f + 1) s = concat (map (\<lambda>f. f @ '':'') fs) @ g @ c # rest"
    using Cons.prems field_run [of pnt s f "CHR '':''" "concat (map (\<lambda>f. f @ '':'') fs) @ g @ c # rest"]
    by (auto simp: plain_def)
  moreover from this(2) obtain q where
    "parse_fields (Suc (length fs)) s (pnt + length f + 1) = Some (fs @ [g], q)" "drop q s = rest"
    using Cons.IH [of "pnt + length f + 1"] Cons.prems by auto
  ultimately show ?case
    by (simp del: parse_fields.simps add: parse_fields.simps(2) [of "Suc (length fs)"])
qed

lemma getStringFromUser_line:
  assumes "user_ok u"
  shows "getStringFromUser (STRING_SIZE * 4) u = Some (user_line u @ [CHR 0x0A])"
proof -
  have "length (itoa (u_uid u) [] 10) < STRING_SIZE" "length (itoa (u_gid u) [] 10) < STRING_SIZE"
    using assms itoa_plain by (auto simp: user_ok_def plain_def)
  then show ?thesis
    using assms
    by (simp add: getStringFromUser_def strcpy_def strcat_def user_ok_def user_line_def)
qed

lemma getUserFromString_line:
  assumes "user_ok u"
  shows "getUserFromString (user_line u @ NUL # rest) w =
    Some (Some (brk w), w\<lparr>uheap := (uheap w)(brk w \<mapsto> u), brk := Suc (brk w)\<rparr>)"
proof -
  let ?fs = "[username u, password u, itoa (u_uid u) [] 10, itoa (u_gid u) [] 10, realname u]"
  have plains: "\<forall>f \<in> set ?fs. plain f" "plain (homedir u)"
    using assms itoa_plain by (auto simp: user_ok_def)
  obtain q where "parse_fields 6 (user_line u @ NUL # rest) 0 = Some (?fs @ [homedir u], q)"
    using parse_fields_run [OF plains, of NUL 0 "user_line u @ NUL # rest" rest]
    by (auto simp: user_line_def eval_nat_numeral)
  moreover have full: "v\<lparr>username := username u, password := password u, u_uid := u_uid u, u_gid := u_gid u,
      realname := realname u, homedir := homedir u, u_next := None\<rparr> = u" for v
    using assms by (intro user.equality) (simp_all add: user_ok_def)
  ultimately show ?thesis
    using assms
    by (simp add: getUserFromString_def malloc_user_def deref_def put_user_def store_def user_ok_def
        atoi_itoa_decimal full)
qed

section \<open>Reading back a printed file\<close>

text \<open>A text of lines.  The newline behind the last line may be missing, as it is in the file of the distribution.\<close>

definition text_of :: "string \<Rightarrow> string list \<Rightarrow> bool" where
  "text_of t ls \<longleftrightarrow> t = concat (map (\<lambda>l. l @ [CHR 0x0A]) ls) \<or> t @ [CHR 0x0A] = concat (map (\<lambda>l. l @ [CHR 0x0A]) ls)"

definition line :: "string \<Rightarrow> bool" where
  "line l \<longleftrightarrow> l \<noteq> [] \<and> NUL \<notin> set l \<and> CHR 0x0A \<notin> set l"

text \<open>The token and the static pointer of \<^verbatim>\<open>strtok\<close> while the lines \<open>ls\<close> are still to come.\<close>

definition at_list :: "nat option \<Rightarrow> nat option \<Rightarrow> string \<Rightarrow> string list \<Rightarrow> bool" where
  "at_list token sp buf ls \<longleftrightarrow>
     (case ls of
        [] \<Rightarrow> token = None \<and> sp = None
      | l # ls \<Rightarrow> \<exists>off q x t y. token = Some off \<and> sp = Some q \<and>
          drop off buf = l @ NUL # x \<and> drop q buf = t @ NUL # y \<and> text_of t ls)"

lemma text_of_Cons:
  assumes "text_of t (l # ls)"
  obtains "ls = []" "t = l" | t' where "t = l @ CHR 0x0A # t'" "text_of t' ls"
  using assms
  by (cases ls) (auto simp: text_of_def append_eq_append_conv2 append_eq_Cons_conv Cons_eq_append_conv)

lemma strtok_list:
  assumes "drop p buf = t @ NUL # rest" "text_of t ls" "\<forall>l \<in> set ls. line l"
    and "str = None \<and> sp0 = Some p \<or> str = Some p \<and> sp0 = None"
  shows "\<exists>token buf' sp. strtok str [CHR 0x0A] (sp0, buf) = Some (token, (sp, buf')) \<and> at_list token sp buf' ls"
proof (cases ls)
  case Nil
  with assms(2) have "t = []"
    by (simp add: text_of_def)
  have "strtok str [CHR 0x0A] (sp0, buf) = Some (None, (None, buf))"
    using assms(1,4) \<open>t = []\<close> by (intro strtok_done [of p buf rest]) (simp_all add: NUL_def)
  then show ?thesis
    by (simp add: at_list_def Nil)
next
  case (Cons l ls')
  have l: "l \<noteq> []" "NUL \<notin> set l" "CHR 0x0A \<notin> set l"
    using assms(3) Cons by (simp_all add: line_def)
  from assms(2) [unfolded Cons] show ?thesis
  proof (cases rule: text_of_Cons)
    case 1
    have "strtok str [CHR 0x0A] (sp0, buf) = Some (Some p, (Some (p + length l), buf))"
      using strtok_next [OF assms(1), of "[CHR 0x0A]" str sp0] assms(4) 1 l by simp
    moreover have "drop (p + length l) buf = [] @ NUL # rest"
      using arg_cong [OF assms(1), of "drop (length l)"] 1 by (simp add: add.commute)
    moreover have "text_of [] ls'"
      using 1 by (simp add: text_of_def)
    ultimately show ?thesis
      using assms(1) 1 by (intro exI [of _ "Some p"] exI [of _ buf] exI [of _ "Some (p + length l)"])
        (auto simp: at_list_def Cons intro!: exI)
  next
    case (2 t')
    have buf: "drop p buf = l @ CHR 0x0A # t' @ NUL # rest"
      using assms(1) 2 by simp
    let ?buf = "buf[p + length l := NUL]"
    have "strtok str [CHR 0x0A] (sp0, buf) = Some (Some p, (Some (p + length l + 1), ?buf))"
      using strtok_next [OF buf, of "[CHR 0x0A]" str sp0] assms(4) l by (simp add: NUL_def)
    moreover have new: "drop p ?buf = l @ NUL # t' @ NUL # rest"
      by (subst drop_update_swap) (simp_all add: buf list_update_append)
    moreover have "drop (p + length l + 1) ?buf = t' @ NUL # rest"
      using arg_cong [OF new, of "drop (length l + 1)"] by (simp add: add.commute)
    ultimately show ?thesis
      using 2 by (intro exI [of _ "Some p"] exI [of _ ?buf] exI [of _ "Some (p + length l + 1)"])
        (auto simp: at_list_def Cons intro!: exI)
  qed
qed

text \<open>The lines of a list of users.\<close>

definition lines_of :: "string \<Rightarrow> user list \<Rightarrow> bool" where
  "lines_of t us \<longleftrightarrow> t = passwd_text us \<or> t @ [CHR 0x0A] = passwd_text us"

lemma lines_of_text: "lines_of t us = text_of t (map user_line us)"
  by (simp add: lines_of_def text_of_def passwd_text_def comp_def)

lemma passwd_text_Cons [simp]: "passwd_text (u # us) = user_line u @ CHR 0x0A # passwd_text us"
  by (simp add: passwd_text_def)

lemma passwd_text_Nil [simp]: "passwd_text [] = []"
  by (simp add: passwd_text_def)

lemma user_line_chars: "user_ok u \<Longrightarrow> line (user_line u)"
  using itoa_plain [of "u_uid u"] itoa_plain [of "u_gid u"]
  by (auto simp: user_line_def user_ok_def plain_def NUL_def line_def)

abbreviation at_lines :: "nat option \<Rightarrow> nat option \<Rightarrow> string \<Rightarrow> user list \<Rightarrow> bool" where
  "at_lines token sp buf us \<equiv> at_list token sp buf (map user_line us)"

lemma strtok_lines:
  assumes "drop p buf = t @ NUL # rest" "lines_of t us" "\<forall>u \<in> set us. user_ok u"
    and "str = None \<and> strtok_sp w = Some p \<or> str = Some p \<and> strtok_sp w = None"
  shows "\<exists>token buf' sp. strtok_call str [CHR 0x0A] buf w = Some (token, buf', w\<lparr>strtok_sp := sp\<rparr>) \<and>
    at_lines token sp buf' us"
  using strtok_list [OF assms(1) assms(2) [unfolded lines_of_text] _ assms(4)] assms(3) user_line_chars
  by (fastforce simp: strtok_call_def)

lemma users_loop_lines:
  assumes "at_lines token (strtok_sp w) buf us" "\<forall>u \<in> set us. user_ok u"
    and "nseg u_next (uheap w) p as ns None" "distinct as" "set as \<subseteq> {..<brk w}"
  shows "\<exists>p' h as' ns'. users_loop p token buf w =
      Some (p', w\<lparr>uheap := h, brk := brk w + length us, strtok_sp := None\<rparr>) \<and>
    nseg u_next h p' as' ns' None \<and> distinct as' \<and>
    set as' = set as \<union> {brk w..<brk w + length us} \<and>
    map user_nodes.strip ns' = foldl (\<lambda>acc u. insert_by u_uid u acc) (map user_nodes.strip ns) us \<and>
    (\<forall>a. a \<notin> set as' \<longrightarrow> h a = uheap w a)"
  using assms
proof (induction us arbitrary: token buf w p as ns)
  case Nil
  then show ?case
    by (intro exI [of _ p] exI [of _ "uheap w"] exI [of _ as] exI [of _ ns])
      (auto simp: users_loop.simps [of p None] at_list_def)
next
  case (Cons u us)
  from Cons.prems(1) obtain off q x t y where tok: "token = Some off" "strtok_sp w = Some q"
    "drop off buf = user_line u @ NUL # x" "drop q buf = t @ NUL # y" "lines_of t us"
    by (auto simp: at_list_def lines_of_text)
  have ok: "user_ok u" "user_nodes.strip u = u"
    using Cons.prems(2) by (auto simp: user_ok_def)
  have fresh: "brk w \<notin> set as"
    using Cons.prems(5) by auto
  let ?h1 = "(uheap w)(brk w \<mapsto> u)"
  let ?w1 = "w\<lparr>uheap := ?h1, brk := Suc (brk w)\<rparr>"
  have parse: "getUserFromString (drop off buf) w = Some (Some (brk w), ?w1)"
    using getUserFromString_line [OF ok(1)] tok(3) by simp
  obtain p2 h2 as2 ns2 where ins:
    "insert_node u_next set_u_next compareUsers p (Some (brk w)) ?h1 = Some (p2, h2)"
    "nseg u_next h2 p2 as2 ns2 None" "distinct as2" "set as2 = insert (brk w) (set as)"
    "map user_nodes.strip ns2 = insert_by u_uid u (map user_nodes.strip ns)"
    "\<forall>a. a \<notin> set as2 \<longrightarrow> h2 a = ?h1 a"
    using user_nodes.insert_node_list [OF nseg_upd [OF Cons.prems(3) fresh] Cons.prems(4) fresh, of "Some u" u]
      ok unfolding user_ok_def by (metis fun_upd_same)
  let ?w2 = "?w1\<lparr>uheap := h2\<rparr>"
  have add: "addUserToListSorted p (Some (brk w)) ?w1 = Some (p2, ?w2)"
    using ins(1) by (simp add: addUserToListSorted_def)
  obtain token' buf' sp where tk:
    "strtok_call None [CHR 0x0A] buf ?w2 = Some (token', buf', ?w2\<lparr>strtok_sp := sp\<rparr>)"
    "at_lines token' sp buf' us"
    using strtok_lines [OF tok(4,5), of None ?w2] Cons.prems(2) tok(2) by auto
  let ?w3 = "?w2\<lparr>strtok_sp := sp\<rparr>"
  have as2: "set as2 \<subseteq> {..<brk ?w3}" and oks: "\<forall>u \<in> set us. user_ok u"
    using ins(4) Cons.prems(2,5) by auto
  obtain p' h as' ns' where IH:
    "users_loop p2 token' buf' ?w3 =
       Some (p', ?w3\<lparr>uheap := h, brk := brk ?w3 + length us, strtok_sp := None\<rparr>)"
    "nseg u_next h p' as' ns' None" "distinct as'"
    "set as' = set as2 \<union> {brk ?w3..<brk ?w3 + length us}"
    "map user_nodes.strip ns' = foldl (\<lambda>acc u. insert_by u_uid u acc) (map user_nodes.strip ns2) us"
    "\<forall>a. a \<notin> set as' \<longrightarrow> h a = uheap ?w3 a"
    using Cons.IH [of token' ?w3 buf' p2 as2 ns2] tk(2) oks ins(2,3) as2 by auto
  have "{brk w..<brk w + length (u # us)} = insert (brk w) {Suc (brk w)..<Suc (brk w) + length us}"
    by auto
  then have "set as' = set as \<union> {brk w..<brk w + length (u # us)}"
    using IH(4) ins(4) by simp
  moreover have "users_loop p token buf w =
      Some (p', w\<lparr>uheap := h, brk := brk w + length (u # us), strtok_sp := None\<rparr>)"
    using IH(1) by (simp add: users_loop.simps [of p "Some off"] tok(1) parse add [simplified] tk(1) [simplified])
  ultimately show ?case
    using IH(2,3,5,6) ins(4-6)
    by (intro exI [of _ p'] exI [of _ h] exI [of _ as'] exI [of _ ns']) auto
qed

text \<open>
  \<open>passwd_file w us\<close>: the password file holds the lines of \<open>us\<close>, the byte behind the array it
  is read into is NUL, and a file descriptor is free.
\<close>

definition passwd_file :: "accounts \<Rightarrow> user list \<Rightarrow> bool" where
  "passwd_file w us \<longleftrightarrow> (case file_text w ''/etc/passwd'' of None \<Rightarrow> False | Some t \<Rightarrow> lines_of t us) \<and> (\<forall>u \<in> set us. user_ok u) \<and>
     stack_after w \<noteq> [] \<and> hd (stack_after w) = NUL \<and> strtok_sp w = None \<and> 0 < free_fds w"

lemma slurp_file:
  assumes "file_text w path = Some t" "0 < free_fds w"
  obtains fd f where "slurp path w = Some (int fd, t @ stack_after w, w\<lparr>fds := (fds w)(fd \<mapsto> f)\<rparr>)"
    "fd < 16" "fds w fd = None"
proof -
  obtain i where i: "names w path = Some i" "contents w i = t"
    using assms(1) by (auto simp: file_text_def)
  obtain fd where "u_open path 0 w =
      (int fd, w\<lparr>fds := (fds w)(fd \<mapsto>
         \<lparr>of_ino = i, of_off = 0, of_readable = (0 AND 1 = (0::nat)),
          of_writable = (0 AND 1 \<noteq> (0::nat) \<or> 0 AND 2 \<noteq> (0::nat))\<rparr>)\<rparr>)" "fd < 16" "fds w fd = None"
    by (rule open_existing [OF i(1) assms(2), of 0])
  then show ?thesis
    using that [of fd] i(2) by (simp add: slurp_def u_fsize_def u_read_def u_fd_def)
qed

lemma close_slurped:
  "fd < 16 \<Longrightarrow> fds w fd = None \<Longrightarrow> fds v = (fds w)(fd \<mapsto> f) \<Longrightarrow> u_close (int fd) v = v\<lparr>fds := fds w\<rparr>"
  by (simp add: u_close_def u_fd_def fun_upd_idem)

lemma select_users:
  assumes "passwd_file w us"
  shows "\<exists>p h as ns. selectAllUsersFromPasswdFile w = Some (p, w\<lparr>uheap := h, brk := brk w + length us\<rparr>) \<and>
    nseg u_next h p as ns None \<and> distinct as \<and> set as = {brk w..<brk w + length us} \<and>
    map user_nodes.strip ns = sort_key u_uid us \<and> (\<forall>a. a \<notin> set as \<longrightarrow> h a = uheap w a)"
proof -
  obtain t where pf: "file_text w ''/etc/passwd'' = Some t" "0 < free_fds w" "strtok_sp w = None"
    "\<forall>u \<in> set us. user_ok u" "lines_of t us"
    using assms by (auto simp: passwd_file_def split: option.splits)
  obtain rest where after: "stack_after w = NUL # rest"
    using assms by (cases "stack_after w") (auto simp: passwd_file_def)
  obtain fd f where slurp: "slurp ''/etc/passwd'' w =
      Some (int fd, t @ stack_after w, w\<lparr>fds := (fds w)(fd \<mapsto> f)\<rparr>)"
    and fd: "fd < 16" "fds w fd = None"
    by (rule slurp_file [OF pf(1,2)])
  let ?w1 = "w\<lparr>fds := (fds w)(fd \<mapsto> f)\<rparr>"
  obtain token buf sp where tok:
    "strtok_call (Some 0) [CHR 0x0A] (t @ stack_after w) ?w1 =
       Some (token, buf, ?w1\<lparr>strtok_sp := sp\<rparr>)" "at_lines token sp buf us"
    using strtok_lines [of 0 "t @ stack_after w" t rest us "Some 0" ?w1] pf after by auto
  let ?w2 = "?w1\<lparr>strtok_sp := sp\<rparr>"
  obtain p h as ns where loop:
    "users_loop None token buf ?w2 =
       Some (p, ?w2\<lparr>uheap := h, brk := brk w + length us, strtok_sp := None\<rparr>)"
    "nseg u_next h p as ns None" "distinct as" "set as = {brk w..<brk w + length us}"
    "map user_nodes.strip ns = foldl (\<lambda>acc u. insert_by u_uid u acc) [] us"
    "\<forall>a. a \<notin> set as \<longrightarrow> h a = uheap w a"
    using users_loop_lines [of token ?w2 buf us None "[]" "[]"] tok(2) pf(4) by auto
  have "u_close (int fd) (?w2\<lparr>uheap := h, brk := brk w + length us, strtok_sp := None\<rparr>) =
      ?w2\<lparr>uheap := h, brk := brk w + length us, strtok_sp := None, fds := fds w\<rparr>"
    using fd by (intro close_slurped [of fd w _ f]) simp_all
  also have "\<dots> = w\<lparr>uheap := h, brk := brk w + length us\<rparr>"
    using pf(3) by (intro accounts.equality) simp_all
  finally have "selectAllUsersFromPasswdFile w = Some (p, w\<lparr>uheap := h, brk := brk w + length us\<rparr>)"
    using slurp tok(1) loop(1) by (simp add: selectAllUsersFromPasswdFile_def)
  with loop(2-6) show ?thesis
    by (intro exI [of _ p] exI [of _ h] exI [of _ as] exI [of _ ns]) (simp add: foldl_insert_by)
qed

end
