(* ===== verification/Passwd.thy ===== *)
theory Passwd
  imports Users
begin

text \<open>
  What the operations on \<^verbatim>\<open>/etc/passwd\<close> do, over a file that holds the lines of a list of users: the
  lookups see the users in order of uid, a new or changed user replaces the file by the printed lines
  of the updated list, and no other file changes.
\<close>

section \<open>Lookups\<close>

lemma find_in_users:
  assumes "nseg u_next h p as ns None" "map user_nodes.strip ns = us"
    and test: "\<And>u q. test (u\<lparr>u_next := q\<rparr>) = test u"
  shows "find_node u_next test h p = Some None \<and> find test us = None \<or>
    (\<exists>a u. find_node u_next test h p = Some (Some a) \<and> a \<in> set as \<and> h a = Some u \<and>
       find test us = Some (user_nodes.strip u))"
proof -
  have len: "length as = length ns"
    using assms(1) by (rule nseg_length)
  then have "find test us = None \<and> find (\<lambda>(a, n). test n) (zip as ns) = None \<or>
    (\<exists>a u. find (\<lambda>(a, n). test n) (zip as ns) = Some (a, u) \<and> a \<in> set as \<and> h a = Some u \<and>
       find test us = Some (user_nodes.strip u))"
    using assms(1,2)
  proof (induction as ns arbitrary: p us rule: list_induct2)
    case (Cons a as n ns)
    show ?case
    proof (cases "test n")
      case True
      then show ?thesis
        using Cons.prems test [where u = n and q = None] by auto
    next
      case False
      then show ?thesis
        using Cons.IH [of "u_next n" "map user_nodes.strip ns"] Cons.prems test [where u = n and q = None] by auto
    qed
  qed simp
  with find_node_nseg [OF assms(1), of test] show ?thesis
    by auto
qed

lemma free_users:
  assumes "nseg u_next (uheap w) p as ns None" "distinct as"
  shows "freeUserList p w = Some (w\<lparr>uheap := uheap w |` (- set as)\<rparr>)"
  using free_nodes_nseg [OF assms] by (simp add: freeUserList_def)

text \<open>
  Reading and releasing the list leaves the heap as it was.  The allocator's counter moves on.
\<close>

lemma free_fresh_users:
  assumes "nseg u_next h p as ns None" "distinct as" "set as = {brk w..<brk w + n}"
    and "\<forall>a. a \<notin> set as \<longrightarrow> h a = uheap w a" "dom (uheap w) \<subseteq> {..<brk w}"
  shows "freeUserList p (w\<lparr>uheap := h, brk := b\<rparr>) = Some (w\<lparr>brk := b\<rparr>)"
proof -
  have "h |` (- set as) = uheap w"
  proof
    fix a
    have "uheap w a = None" if "a \<in> set as"
      using that assms(3,5) by (auto simp: domIff subset_iff)
    then show "(h |` (- set as)) a = uheap w a"
      using assms(4) by (auto simp: restrict_map_def)
  qed
  then show ?thesis
    using free_users [of "w\<lparr>uheap := h, brk := b\<rparr>" p as ns] assms(1,2) by simp
qed

definition heap_ok :: "accounts \<Rightarrow> bool" where
  "heap_ok w \<longleftrightarrow> dom (uheap w) \<subseteq> {..<brk w} \<and> dom (gheap w) \<subseteq> {..<brk w}"

text \<open>A search loop over the freshly read list.\<close>

lemma search_users:
  assumes "passwd_file w us" and test: "\<And>u q. test (u\<lparr>u_next := q\<rparr>) = test u"
  obtains p h as ns where
    "selectAllUsersFromPasswdFile w = Some (p, w\<lparr>uheap := h, brk := brk w + length us\<rparr>)"
    "nseg u_next h p as ns None" "distinct as" "set as = {brk w..<brk w + length us}"
    "map user_nodes.strip ns = sort_key u_uid us" "\<forall>a. a \<notin> set as \<longrightarrow> h a = uheap w a"
    "find_node u_next test h p = Some None \<and> find test (sort_key u_uid us) = None \<or>
     (\<exists>a u. find_node u_next test h p = Some (Some a) \<and> a \<in> set as \<and> h a = Some u \<and>
       find test (sort_key u_uid us) = Some (user_nodes.strip u))"
proof -
  from select_users [OF assms(1)] obtain p h as ns where
    *: "selectAllUsersFromPasswdFile w = Some (p, w\<lparr>uheap := h, brk := brk w + length us\<rparr>)"
    "nseg u_next h p as ns None" "distinct as" "set as = {brk w..<brk w + length us}"
    "map user_nodes.strip ns = sort_key u_uid us" "\<forall>a. a \<notin> set as \<longrightarrow> h a = uheap w a"
    by blast
  show ?thesis
    using that [OF *] find_in_users [OF *(2,5) test] by blast
qed

lemma find_none_iff_matches: "find P (sort_key f xs) = None \<longleftrightarrow> (\<forall>x \<in> set xs. \<not> P x)"
  by (auto simp: find_None_iff)

lemma find_some_matches: "find P (sort_key f xs) = Some v \<Longrightarrow> v \<in> set xs \<and> P v"
  by (metis find_Some_iff nth_mem set_sort)

lemma authenticate_cases:
  assumes "passwd_file w us" "heap_ok w" "NUL \<notin> set n" "NUL \<notin> set pw"
  shows "(\<exists>h a u. authenticateUser n pw w = Some (Some a, w\<lparr>uheap := h, brk := brk w + length us\<rparr>) \<and>
      h a = Some u \<and> user_nodes.strip u \<in> set us \<and> username u = n \<and> password u = pw) \<or>
    authenticateUser n pw w = Some (None, w\<lparr>brk := brk w + length us\<rparr>) \<and>
      (\<forall>u \<in> set us. \<not> (username u = n \<and> password u = pw))"
proof -
  let ?test = "checkUsernamePasswordForCurrUser n pw"
  have test: "?test (u\<lparr>u_next := q\<rparr>) = ?test u" for u q
    by (simp add: checkUsernamePasswordForCurrUser_def)
  have match: "?test u \<longleftrightarrow> username u = n \<and> password u = pw" if "u \<in> set us" for u
    using that assms
    by (auto simp: checkUsernamePasswordForCurrUser_def strcmp_eq_0 passwd_file_def user_ok_def plain_def)
  obtain p h as ns where
    *: "selectAllUsersFromPasswdFile w = Some (p, w\<lparr>uheap := h, brk := brk w + length us\<rparr>)"
    "nseg u_next h p as ns None" "distinct as" "set as = {brk w..<brk w + length us}"
    "map user_nodes.strip ns = sort_key u_uid us" "\<forall>a. a \<notin> set as \<longrightarrow> h a = uheap w a"
    "find_node u_next ?test h p = Some None \<and> find ?test (sort_key u_uid us) = None \<or>
     (\<exists>a u. find_node u_next ?test h p = Some (Some a) \<and> a \<in> set as \<and> h a = Some u \<and>
       find ?test (sort_key u_uid us) = Some (user_nodes.strip u))"
    by (rule search_users [OF assms(1) test])
  from *(7) show ?thesis
  proof (elim disjE conjE exE)
    assume none: "find_node u_next ?test h p = Some None" "find ?test (sort_key u_uid us) = None"
    have "authenticateUser n pw w = Some (None, w\<lparr>brk := brk w + length us\<rparr>)"
      using none(1) free_fresh_users [OF *(2-4,6)] assms(2)
      by (simp add: authenticateUser_def *(1) heap_ok_def)
    with none(2) match show ?thesis
      by (simp add: find_none_iff_matches)
  next
    fix a u
    assume some: "find_node u_next ?test h p = Some (Some a)" "h a = Some u"
      "find ?test (sort_key u_uid us) = Some (user_nodes.strip u)"
    have "user_nodes.strip u \<in> set us" "?test (user_nodes.strip u)"
      using find_some_matches [OF some(3)] by simp_all
    with match have "username u = n \<and> password u = pw"
      by fastforce
    with some \<open>user_nodes.strip u \<in> set us\<close> show ?thesis
      by (intro disjI1 exI [of _ h] exI [of _ a] exI [of _ u]) (simp add: authenticateUser_def *(1))
  qed
qed

section \<open>The next free uid\<close>

fun next_uid :: "int \<Rightarrow> int list \<Rightarrow> int" where
  "next_uid uid [] = uid"
| "next_uid uid (k # ks) = next_uid (if k = uid then s32 (uid + 1) else uid) ks"

lemma next_uid_loop_nseg:
  "nseg u_next h p as ns None \<Longrightarrow> next_uid_loop h p uid = Some (next_uid uid (map u_uid ns))"
proof (induction ns arbitrary: p as uid)
  case Nil
  then show ?case
    by (cases as) (auto simp: next_uid_loop.simps [of h None])
next
  case (Cons n ns)
  then show ?case
    by (cases as) (auto simp: next_uid_loop.simps [of h "Some a" for a] deref_def)
qed

text \<open>On a sorted list the loop stops at the first number, from its start on, that is not in the list.\<close>

lemma next_uid_sorted:
  "sorted ks \<Longrightarrow> - (2 ^ 31) \<le> uid \<Longrightarrow> uid + int (length ks) < 2 ^ 31 \<Longrightarrow>
   uid \<le> next_uid uid ks \<and> next_uid uid ks \<notin> set ks \<and> (\<forall>k. uid \<le> k \<and> k < next_uid uid ks \<longrightarrow> k \<in> set ks)"
proof (induction ks arbitrary: uid)
  case (Cons k ks)
  show ?case
  proof (cases "k = uid")
    case True
    have "s32 (uid + 1) = uid + 1"
      using Cons.prems by (intro s32_id) auto
    moreover have "uid + 1 \<le> next_uid (uid + 1) ks \<and> next_uid (uid + 1) ks \<notin> set ks \<and>
        (\<forall>k. uid + 1 \<le> k \<and> k < next_uid (uid + 1) ks \<longrightarrow> k \<in> set ks)"
      using Cons.prems by (intro Cons.IH) auto
    ultimately show ?thesis
      using True by (auto simp: le_less dest: zless_imp_add1_zle)
  next
    case False
    show ?thesis
    proof (cases "uid < k")
      case True
      then have "next_uid uid ks = uid"
        using Cons.prems(1) by (induction ks) auto
      with True Cons.prems(1) show ?thesis
        by auto
    next
      case False
      with \<open>k \<noteq> uid\<close> Cons.IH [of uid] Cons.prems show ?thesis
        by auto
    qed
  qed
qed simp

lemma next_available_uid:
  assumes "passwd_file w us" "heap_ok w" "length us < 2 ^ 31 - 1000"
  shows "\<exists>uid. getNextAvailableUid w = Some (uid, w\<lparr>brk := brk w + length us\<rparr>) \<and> 1000 \<le> uid \<and>
    uid \<notin> u_uid ` set us \<and> (\<forall>k. 1000 \<le> k \<and> k < uid \<longrightarrow> k \<in> u_uid ` set us)"
proof -
  from select_users [OF assms(1)] obtain p h as ns where
    *: "selectAllUsersFromPasswdFile w = Some (p, w\<lparr>uheap := h, brk := brk w + length us\<rparr>)"
    "nseg u_next h p as ns None" "distinct as" "set as = {brk w..<brk w + length us}"
    "map user_nodes.strip ns = sort_key u_uid us" "\<forall>a. a \<notin> set as \<longrightarrow> h a = uheap w a"
    by metis
  let ?ks = "map u_uid (sort_key u_uid us)"
  have "map u_uid ns = ?ks"
    using arg_cong [OF *(5), of "map u_uid"] by (simp add: comp_def)
  with next_uid_loop_nseg [OF *(2)] have "next_uid_loop h p 1000 = Some (next_uid 1000 ?ks)"
    by simp
  moreover have "freeUserList p (w\<lparr>uheap := h, brk := brk w + length us\<rparr>) = Some (w\<lparr>brk := brk w + length us\<rparr>)"
    using free_fresh_users [OF *(2-4,6)] assms(2) by (simp add: heap_ok_def)
  ultimately have "getNextAvailableUid w = Some (next_uid 1000 ?ks, w\<lparr>brk := brk w + length us\<rparr>)"
    by (simp add: getNextAvailableUid_def *(1))
  moreover have "1000 \<le> next_uid 1000 ?ks \<and> next_uid 1000 ?ks \<notin> set ?ks \<and>
      (\<forall>k. 1000 \<le> k \<and> k < next_uid 1000 ?ks \<longrightarrow> k \<in> set ?ks)"
    using assms(3) by (intro next_uid_sorted) auto
  ultimately show ?thesis
    by (intro exI [of _ "next_uid 1000 ?ks"]) simp
qed

section \<open>Replacing the file\<close>

text \<open>A descriptor open for writing at the end of its file.\<close>

definition appends :: "nat \<Rightarrow> nat \<Rightarrow> 'a uworld_scheme \<Rightarrow> bool" where
  "appends fd i w \<longleftrightarrow> fd < 16 \<and> (\<exists>f. fds w fd = Some f \<and> of_ino f = i \<and> of_writable f \<and>
     of_off f = length (contents w i))"

lemma write_appends:
  assumes "appends fd i w"
  obtains f where "snd (u_write (int fd) s w) =
      w\<lparr>contents := (contents w)(i := contents w i @ s), fds := (fds w)(fd \<mapsto> f)\<rparr>"
    "appends fd i (snd (u_write (int fd) s w))"
proof -
  obtain f where f: "fds w fd = Some f" "of_ino f = i" "of_writable f" "of_off f = length (contents w i)" "fd < 16"
    using assms by (auto simp: appends_def)
  then have "snd (u_write (int fd) s w) =
      w\<lparr>contents := (contents w)(i := contents w i @ s),
        fds := (fds w)(fd \<mapsto> f\<lparr>of_off := of_off f + length s\<rparr>)\<rparr>"
    by (simp add: u_write_def u_fd_def Let_def)
  with that f show ?thesis
    by (simp add: appends_def)
qed

lemma write_users_nseg:
  assumes "nseg u_next (uheap w) p as ns None" "\<forall>n \<in> set ns. user_ok (user_nodes.strip n)" "appends fd i w"
  shows "\<exists>f. write_users (int fd) p w =
    Some (w\<lparr>contents := (contents w)(i := contents w i @ passwd_text (map user_nodes.strip ns)),
            fds := (fds w)(fd := f)\<rparr>)"
  using assms
proof (induction ns arbitrary: p as w)
  case Nil
  then have "write_users (int fd) p w = Some w"
    by (cases as) (auto simp: write_users.simps [of _ None])
  then show ?case
    by (intro exI [of _ "fds w fd"]) simp
next
  case (Cons n ns)
  obtain a as' where p: "p = Some a" "uheap w a = Some n" "nseg u_next (uheap w) (u_next n) as' ns None"
    using Cons.prems(1) by (cases as) auto
  have same: "user_line (user_nodes.strip n) = user_line n"
    "getStringFromUser cap n = getStringFromUser cap (user_nodes.strip n)" for cap
    by (simp_all add: user_line_def getStringFromUser_def)
  let ?s = "user_line n @ [CHR 0x0A]"
  have str: "getStringFromUser (STRING_SIZE * 4) n = Some ?s"
    using Cons.prems(2) getStringFromUser_line [of "user_nodes.strip n"] same by simp
  obtain f where w': "snd (u_write (int fd) ?s w) =
      w\<lparr>contents := (contents w)(i := contents w i @ ?s), fds := (fds w)(fd \<mapsto> f)\<rparr>"
    "appends fd i (snd (u_write (int fd) ?s w))"
    by (rule write_appends [OF Cons.prems(3)])
  let ?w = "snd (u_write (int fd) ?s w)"
  have seg: "nseg u_next (uheap ?w) (u_next n) as' ns None"
    using p(3) by (simp add: w'(1))
  have oks: "\<forall>n \<in> set ns. user_ok (user_nodes.strip n)"
    using Cons.prems(2) by simp
  obtain g where "write_users (int fd) (u_next n) ?w =
      Some (?w\<lparr>contents := (contents ?w)(i := contents ?w i @ passwd_text (map user_nodes.strip ns)),
               fds := (fds ?w)(fd := g)\<rparr>)"
    using Cons.IH [OF seg oks w'(2)] by (elim exE) (rule that)
  then have "write_users (int fd) p w =
      Some (w\<lparr>contents := (contents w)(i := contents w i @ passwd_text (map user_nodes.strip (n # ns))),
              fds := (fds w)(fd := g)\<rparr>)"
    by (simp add: write_users.simps [of _ "Some a"] p(1,2) deref_def str w'(1) same(1))
  then show ?case
    by (rule exI)
qed

text \<open>
  \<open>replaced w path t w'\<close>: in \<open>w'\<close> the file \<open>path\<close> holds \<open>t\<close>, every other file is as in \<open>w\<close>, and one
  more descriptor is in use.
\<close>

definition replaced :: "accounts \<Rightarrow> string \<Rightarrow> string \<Rightarrow> accounts \<Rightarrow> bool" where
  "replaced w path t w' \<longleftrightarrow> file_text w' path = Some t \<and>
     (\<forall>q. q \<noteq> path \<longrightarrow> file_text w' q = file_text w q) \<and> free_fds w = Suc (free_fds w') \<and> world_ok w' \<and>
     uheap w' = uheap w \<and> gheap w' = gheap w \<and> brk w' = brk w \<and> events w' = events w \<and>
     strtok_sp w' = strtok_sp w \<and> strtok2_sp w' = strtok2_sp w \<and> stack_after w' = stack_after w \<and>
     proc_uid w' = proc_uid w \<and> stdin w' = stdin w \<and> denied w' = denied w"

lemma free_fds_upd:
  "fd < 16 \<Longrightarrow> fds w fd = None \<Longrightarrow> free_fds w = Suc (free_fds (w\<lparr>fds := (fds w)(fd \<mapsto> f)\<rparr>))"
proof -
  assume fd: "fd < 16" "fds w fd = None"
  have card: "free_fds v = card {k. k < 16 \<and> fds v k = None}" for v :: "'a uworld_scheme"
    unfolding free_fds_def by (subst distinct_card [symmetric]) (auto intro: arg_cong [of _ _ card])
  have "{k. k < 16 \<and> fds w k = None} =
      insert fd {k. k < 16 \<and> fds (w\<lparr>fds := (fds w)(fd \<mapsto> f)\<rparr>) k = None}"
    using fd by auto
  then show ?thesis
    unfolding card by simp
qed

text \<open>Unlinking a file, creating it and opening it for writing.\<close>

definition reopened :: "string \<Rightarrow> accounts \<Rightarrow> int \<times> accounts" where
  "reopened path w = u_open path O_WRONLY (snd (u_open path O_CREATE (snd (u_unlink path w))))"

lemma reopened_world:
  assumes "world_ok w" "1 < free_fds w"
  obtains fd fd0 f f0 where "reopened path w =
      (int fd, w\<lparr>names := (names w)(path \<mapsto> next_ino w), contents := (contents w)(next_ino w := []),
                next_ino := Suc (next_ino w), fds := (fds w)(fd0 \<mapsto> f0, fd \<mapsto> f)\<rparr>)"
    "fd0 < 16" "fd < 16" "fds w fd0 = None" "fds w fd = None" "fd \<noteq> fd0"
    "of_ino f = next_ino w" "of_off f = 0" "of_writable f" "of_ino f0 = next_ino w"
proof -
  let ?w1 = "w\<lparr>names := (names w)(path \<mapsto> next_ino w), contents := (contents w)(next_ino w := []),
    next_ino := Suc (next_ino w)\<rparr>"
  have same: "free_fds ?w1 = free_fds w"
    by (simp add: free_fds_def)
  then have free1: "0 < free_fds ?w1"
    using assms(2) by simp
  obtain fd0 where fd0: "u_fdalloc ?w1 = Some fd0" "fd0 < 16" "fds ?w1 fd0 = None"
    by (rule u_fdalloc_Some [OF free1])
  define f0 where "f0 = \<lparr>of_ino = next_ino w, of_off = 0, of_readable = True, of_writable = False\<rparr>"
  let ?w2 = "?w1\<lparr>fds := (fds w)(fd0 \<mapsto> f0)\<rparr>"
  have "snd (u_open path 512 (snd (u_unlink path w))) = ?w2"
    using fd0(1) by (simp add: u_open_def u_unlink_def u_lookup_def f0_def)
  moreover have free2: "0 < free_fds ?w2"
    using assms(2) free_fds_upd [OF fd0(2,3), of f0] same by simp
  obtain fd where fd: "u_fdalloc ?w2 = Some fd" "fd < 16" "fds ?w2 fd = None"
    by (rule u_fdalloc_Some [OF free2])
  define f where "f = \<lparr>of_ino = next_ino w, of_off = 0, of_readable = False, of_writable = True\<rparr>"
  have "u_open path 1 ?w2 = (int fd, ?w2\<lparr>fds := (fds w)(fd0 \<mapsto> f0, fd \<mapsto> f)\<rparr>)"
    using fd(1) by (simp add: u_open_def u_lookup_def f_def)
  ultimately have "reopened path w = (int fd, ?w2\<lparr>fds := (fds w)(fd0 \<mapsto> f0, fd \<mapsto> f)\<rparr>)"
    by (simp add: reopened_def)
  with that [of fd fd0 f0 f] fd fd0(2,3) show ?thesis
    by (auto simp: f0_def f_def split: if_splits)
qed

lemma replaced_by_writing:
  assumes "world_ok w" "fd0 < 16" "fd < 16" "fds w fd0 = None" "fds w fd = None" "fd \<noteq> fd0"
    and "of_ino f0 = next_ino w"
    and w': "w' = w\<lparr>names := (names w)(path \<mapsto> next_ino w), next_ino := Suc (next_ino w),
      contents := (contents w)(next_ino w := t), fds := (fds w)(fd0 \<mapsto> f0, fd := f)\<rparr>"
  shows "replaced w path t (u_close (int fd) w')"
proof -
  have fdsf: "((fds w)(fd0 \<mapsto> f0, fd := f))(fd := None) = (fds w)(fd0 \<mapsto> f0)"
    using assms(5,6) by (auto simp: fun_eq_iff)
  have closed: "u_close (int fd) w' = w'\<lparr>fds := (fds w)(fd0 \<mapsto> f0)\<rparr>"
  proof (cases f)
    case None
    then show ?thesis
      using fdsf assms(3) by (simp add: u_close_def u_fd_def w')
  next
    case (Some _)
    then show ?thesis
      using fdsf assms(3) by (simp add: u_close_def u_fd_def w')
  qed
  have old: "i \<noteq> next_ino w" if "names w q = Some i" for q i
    using assms(1) that by (auto simp: world_ok_def)
  have "file_text (u_close (int fd) w') q = file_text w q" if "q \<noteq> path" for q
    unfolding closed unfolding w' using that old by (cases "names w q") (auto simp: file_text_def)
  moreover have "world_ok (u_close (int fd) w')"
    using assms(1,7) unfolding closed unfolding w' world_ok_def by (auto simp: less_Suc_eq)
  moreover have "free_fds w = Suc (free_fds (u_close (int fd) w'))"
    using free_fds_upd [OF assms(2,4), of f0] unfolding closed unfolding w' by (simp add: free_fds_def)
  ultimately show ?thesis
    unfolding replaced_def closed unfolding w' by (simp add: file_text_def)
qed

lemma update_passwd_file:
  assumes "nseg u_next (uheap w) p as ns None" "\<forall>n \<in> set ns. user_ok (user_nodes.strip n)"
    and "world_ok w" "1 < free_fds w"
  shows "\<exists>w'. updatePasswdFile p w = Some w' \<and>
    replaced w ''/etc/passwd'' (passwd_text (map user_nodes.strip ns)) w'"
proof -
  obtain fd fd0 f f0 where re: "reopened ''/etc/passwd'' w =
      (int fd, w\<lparr>names := (names w)(''/etc/passwd'' \<mapsto> next_ino w), contents := (contents w)(next_ino w := []),
                next_ino := Suc (next_ino w), fds := (fds w)(fd0 \<mapsto> f0, fd \<mapsto> f)\<rparr>)"
    "fd0 < 16" "fd < 16" "fds w fd0 = None" "fds w fd = None" "fd \<noteq> fd0"
    "of_ino f = next_ino w" "of_off f = 0" "of_writable f" "of_ino f0 = next_ino w"
    by (rule reopened_world [OF assms(3,4)])
  let ?w = "w\<lparr>names := (names w)(''/etc/passwd'' \<mapsto> next_ino w), contents := (contents w)(next_ino w := []),
    next_ino := Suc (next_ino w), fds := (fds w)(fd0 \<mapsto> f0, fd \<mapsto> f)\<rparr>"
  have "appends fd (next_ino w) ?w"
    using re by (simp add: appends_def)
  moreover have "nseg u_next (uheap ?w) p as ns None"
    using assms(1) by simp
  ultimately obtain g where "write_users (int fd) p ?w =
      Some (?w\<lparr>contents := (contents ?w)(next_ino w := contents ?w (next_ino w) @ passwd_text (map user_nodes.strip ns)),
               fds := (fds ?w)(fd := g)\<rparr>)"
    using write_users_nseg [OF _ assms(2)] by blast
  then have "updatePasswdFile p w = Some (u_close (int fd)
      (w\<lparr>names := (names w)(''/etc/passwd'' \<mapsto> next_ino w), next_ino := Suc (next_ino w),
         contents := (contents w)(next_ino w := passwd_text (map user_nodes.strip ns)), fds := (fds w)(fd0 \<mapsto> f0, fd := g)\<rparr>))"
    using re(1) by (simp add: updatePasswdFile_def reopened_def case_prod_unfold)
  with replaced_by_writing [OF assms(3) re(2-6,10)] show ?thesis
    by blast
qed

lemma replaced_text: "replaced w path t w' \<Longrightarrow> file_text w' path = Some t"
  by (simp add: replaced_def)

lemma replaced_heap: "replaced w path t w' \<Longrightarrow> uheap w' = uheap w \<and> gheap w' = gheap w"
  by (simp add: replaced_def)

lemma replaced_select:
  assumes "replaced (w\<lparr>uheap := h, brk := b\<rparr>) path t w'"
  shows "replaced w path t (w'\<lparr>uheap := uheap w, brk := brk w\<rparr>)"
  using assms by (simp add: replaced_def file_text_def free_fds_def world_ok_def)

lemma brk_uheap: "w\<lparr>brk := b, uheap := h\<rparr> = (w :: accounts)\<lparr>uheap := h, brk := b\<rparr>"
  by simp

text \<open>
  Reading the list, changing it and writing it back: \<open>f\<close> is what the change does to the list of users.
\<close>

lemma rewrite_users:
  assumes "nseg u_next h p as ns None" "distinct as" "map user_nodes.strip ns = us" "\<forall>u \<in> set us. user_ok u"
    and "world_ok w" "1 < free_fds w"
  shows "\<exists>w'. do { w1 \<leftarrow> updatePasswdFile p (w\<lparr>uheap := h, brk := b\<rparr>); freeUserList p w1 } = Some w' \<and>
    replaced w ''/etc/passwd'' (passwd_text us) (w'\<lparr>uheap := uheap w, brk := brk w\<rparr>) \<and>
    uheap w' = h |` (- set as) \<and> brk w' = b"
proof -
  let ?w = "w\<lparr>uheap := h, brk := b\<rparr>"
  have "\<forall>n \<in> set ns. user_ok (user_nodes.strip n)"
    using assms(3,4) by auto
  moreover have "world_ok ?w" "1 < free_fds ?w" "nseg u_next (uheap ?w) p as ns None"
    using assms(1,5,6) by (simp_all add: world_ok_def free_fds_def)
  ultimately obtain w1 where w1: "updatePasswdFile p ?w = Some w1"
    "replaced ?w ''/etc/passwd'' (passwd_text us) w1"
    using update_passwd_file [of ?w p as ns] assms(3) by metis
  then have heap: "uheap w1 = h" "brk w1 = b"
    by (simp_all add: replaced_def)
  then have "freeUserList p w1 = Some (w1\<lparr>uheap := h |` (- set as)\<rparr>)"
    using free_users [of w1 p as ns] assms(1,2) by simp
  moreover have "replaced w ''/etc/passwd'' (passwd_text us) (w1\<lparr>uheap := uheap w, brk := brk w\<rparr>)"
    by (rule replaced_select [OF w1(2)])
  ultimately show ?thesis
    using w1(1) heap(2) by (intro exI [of _ "w1\<lparr>uheap := h |` (- set as)\<rparr>"]) simp
qed

lemma add_new_user:
  assumes "passwd_file w us" "world_ok w" "1 < free_fds w" "heap_ok w"
    and "uheap w c = Some u" "user_ok (user_nodes.strip u)" "us \<noteq> []"
  shows "\<exists>w'. addNewUser (Some c) w = Some w' \<and>
    replaced w ''/etc/passwd'' (passwd_text (insert_by u_uid (user_nodes.strip u) (sort_key u_uid us)))
      (w'\<lparr>uheap := uheap w, brk := brk w\<rparr>) \<and>
    uheap w' = (uheap w)(c := None) \<and> brk w' = brk w + length us"
proof -
  from select_users [OF assms(1)] obtain p h as ns where
    *: "selectAllUsersFromPasswdFile w = Some (p, w\<lparr>uheap := h, brk := brk w + length us\<rparr>)"
    "nseg u_next h p as ns None" "distinct as" "set as = {brk w..<brk w + length us}"
    "map user_nodes.strip ns = sort_key u_uid us" "\<forall>a. a \<notin> set as \<longrightarrow> h a = uheap w a"
    by metis
  have c: "c \<notin> set as" "h c = Some u"
    using assms(4,5) *(4,6) by (auto simp: heap_ok_def)
  have "as \<noteq> []"
    using *(4) assms(7) by auto
  with user_nodes.insert_node_list [OF *(2,3) c] obtain p' h' as' ns' where ins:
    "insert_node u_next set_u_next compareUsers p (Some c) h = Some (p', h')"
    "nseg u_next h' p' as' ns' None" "distinct as'" "set as' = insert c (set as)"
    "map user_nodes.strip ns' = insert_by u_uid (user_nodes.strip u) (sort_key u_uid us)"
    "\<forall>a. a \<notin> set as' \<longrightarrow> h' a = h a"
    unfolding *(5) by metis
  let ?us = "insert_by u_uid (user_nodes.strip u) (sort_key u_uid us)"
  have "\<forall>v \<in> set ?us. user_ok v"
    using assms(1,6) by (simp add: passwd_file_def)
  from rewrite_users [OF ins(2,3,5) this assms(2,3), of "brk w + length us"] obtain w' where w':
    "do { w1 \<leftarrow> updatePasswdFile p' (w\<lparr>uheap := h', brk := brk w + length us\<rparr>); freeUserList p' w1 } = Some w'"
    "replaced w ''/etc/passwd'' (passwd_text ?us) (w'\<lparr>uheap := uheap w, brk := brk w\<rparr>)"
    "uheap w' = h' |` (- set as')" "brk w' = brk w + length us"
    by metis
  have "addNewUser (Some c) w = Some w'"
    using w'(1) ins(1) by (simp add: addNewUser_def *(1) addUserToListSorted_def brk_uheap)
  moreover have "h' |` (- set as') = (uheap w)(c := None)"
  proof
    fix a
    show "(h' |` (- set as')) a = ((uheap w)(c := None)) a"
    proof (cases "a \<in> set as")
      case True
      then have "uheap w a = None"
        using *(4) assms(4) by (auto simp: heap_ok_def domIff subset_iff)
      with True ins(4) show ?thesis
        by simp
    next
      case False
      with ins(4,6) *(6) show ?thesis
        by (simp add: restrict_map_def)
    qed
  qed
  ultimately show ?thesis
    using w'(2-4) by metis
qed

text \<open>Overwriting the first element that matches.\<close>

fun replace_first :: "('x \<Rightarrow> bool) \<Rightarrow> 'x \<Rightarrow> 'x list \<Rightarrow> 'x list" where
  "replace_first P v [] = []"
| "replace_first P v (x # xs) = (if P x then v # xs else x # replace_first P v xs)"

lemma set_replace_first: "set (replace_first P v xs) \<subseteq> insert v (set xs)"
  by (induction xs) auto

lemma nseg_overwrite:
  assumes "nseg u_next h p as ns None" "distinct as"
    and test: "\<And>u q. test (u\<lparr>u_next := q\<rparr>) = test u"
    and "find_node u_next test h p = Some (Some a)" "h a = Some t"
  shows "\<exists>ns'. nseg u_next (h(a \<mapsto> m\<lparr>u_next := u_next t\<rparr>)) p as ns' None \<and>
    map user_nodes.strip ns' = replace_first test (user_nodes.strip m) (map user_nodes.strip ns)"
  using assms(1,2,4)
proof (induction ns arbitrary: p as)
  case Nil
  then show ?case
    by (cases as) (auto simp: find_node.simps [of _ _ _ None])
next
  case (Cons n ns)
  then obtain b bs where b: "as = b # bs" "p = Some b" "h b = Some n" "nseg u_next h (u_next n) bs ns None"
    by (cases as) auto
  show ?case
  proof (cases "test n")
    case True
    then have "b = a"
      using Cons.prems(3) b by (simp add: find_node.simps [of _ _ _ "Some b"] deref_def)
    moreover have "nseg u_next (h(a \<mapsto> m\<lparr>u_next := u_next t\<rparr>)) (u_next n) bs ns None"
      using nseg_upd [OF b(4), of a] Cons.prems(2) b(1) \<open>b = a\<close> by simp
    ultimately show ?thesis
      using b assms(5) True test [where u = n and q = None]
      by (intro exI [of _ "m\<lparr>u_next := u_next t\<rparr> # ns"]) (simp del: fun_upd_apply add: fun_upd_same)
  next
    case False
    then have find: "find_node u_next test h (u_next n) = Some (Some a)"
      using Cons.prems(3) b by (simp add: find_node.simps [of _ _ _ "Some b"] deref_def)
    have tl: "distinct bs"
      using Cons.prems(2) b(1) by simp
    have "a \<noteq> b"
    proof
      assume "a = b"
      have "a \<in> set bs"
        using find find_in_users [OF b(4) refl test] by auto
      with \<open>a = b\<close> Cons.prems(2) b(1) show False
        by simp
    qed
    moreover obtain ns' where "nseg u_next (h(a \<mapsto> m\<lparr>u_next := u_next t\<rparr>)) (u_next n) bs ns' None"
      "map user_nodes.strip ns' = replace_first test (user_nodes.strip m) (map user_nodes.strip ns)"
      using Cons.IH [OF b(4) tl find] by (elim exE conjE) (rule that)
    ultimately show ?thesis
      using b False test [where u = n and q = None]
      by (intro exI [of _ "n # ns'"]) (simp del: fun_upd_apply add: fun_upd_other)
  qed
qed

lemma replace_first_none: "find P xs = None \<Longrightarrow> replace_first P v xs = xs"
  by (induction xs) (auto split: if_splits)

lemma overwrite_user_nseg:
  assumes "nseg u_next (uheap w) p as ns None" "distinct as"
    and "uheap w c = Some cu" "uheap w m = Some mu"
  shows "\<exists>h ns'. overwrite_user (Some c) (Some m) p w = Some (w\<lparr>uheap := h\<rparr>) \<and>
    nseg u_next h p as ns' None \<and> (\<forall>a. a \<notin> set as \<longrightarrow> h a = uheap w a) \<and>
    map user_nodes.strip ns' =
      replace_first (\<lambda>u. u_uid u = u_uid cu) (user_nodes.strip mu) (map user_nodes.strip ns)"
proof -
  let ?test = "\<lambda>u. compareUsers u cu = 0"
  have test: "?test (u\<lparr>u_next := q\<rparr>) = ?test u" for u q
    by (simp add: compareUsers_def)
  have test_eq: "?test = (\<lambda>u. u_uid u = u_uid cu)"
    by (auto simp: compareUsers_def fun_eq_iff)
  consider "find_node u_next ?test (uheap w) p = Some None" "find ?test (map user_nodes.strip ns) = None"
    | a t where "find_node u_next ?test (uheap w) p = Some (Some a)" "a \<in> set as" "uheap w a = Some t"
    using find_in_users [OF assms(1) refl test] by auto
  then show ?thesis
  proof cases
    case 1
    then have "overwrite_user (Some c) (Some m) p w = Some (w\<lparr>uheap := uheap w\<rparr>)"
      by (simp add: overwrite_user_def deref_def assms(3))
    with 1 assms(1) show ?thesis
      unfolding test_eq by (intro exI [of _ "uheap w"] exI [of _ ns]) (simp add: replace_first_none)
  next
    case 2
    let ?h = "(uheap w)(a \<mapsto> mu\<lparr>u_next := u_next t\<rparr>)"
    have "p \<noteq> None"
      using 2(1) find_node.simps [of u_next ?test "uheap w" None] by (cases p) simp_all
    then have "overwrite_user (Some c) (Some m) p w = Some (w\<lparr>uheap := ?h\<rparr>)"
      using 2 assms(3,4) by (auto simp: overwrite_user_def deref_def put_user_def store_def)
    with 2 nseg_overwrite [OF assms(1,2) test 2(1,3), of mu] show ?thesis
      unfolding test_eq by (elim exE) (intro exI [of _ ?h], auto)
  qed
qed

lemma update_user_info:
  assumes "passwd_file w us" "world_ok w" "1 < free_fds w" "heap_ok w"
    and "uheap w c = Some cu" "uheap w m = Some mu" "user_ok (user_nodes.strip mu)"
  shows "\<exists>w'. updateUserInfo (Some c) (Some m) w = Some w' \<and>
    replaced w ''/etc/passwd''
      (passwd_text (replace_first (\<lambda>u. u_uid u = u_uid cu) (user_nodes.strip mu) (sort_key u_uid us)))
      (w'\<lparr>uheap := uheap w, brk := brk w\<rparr>)"
proof -
  from select_users [OF assms(1)] obtain p h as ns where
    *: "selectAllUsersFromPasswdFile w = Some (p, w\<lparr>uheap := h, brk := brk w + length us\<rparr>)"
    "nseg u_next h p as ns None" "distinct as" "set as = {brk w..<brk w + length us}"
    "map user_nodes.strip ns = sort_key u_uid us" "\<forall>a. a \<notin> set as \<longrightarrow> h a = uheap w a"
    by metis
  let ?w = "w\<lparr>uheap := h, brk := brk w + length us\<rparr>"
  let ?us = "replace_first (\<lambda>u. u_uid u = u_uid cu) (user_nodes.strip mu) (sort_key u_uid us)"
  have cm: "uheap ?w c = Some cu" "uheap ?w m = Some mu" "nseg u_next (uheap ?w) p as ns None"
    using assms(4-6) *(2,4,6) by (auto simp: heap_ok_def)
  from overwrite_user_nseg [OF cm(3) *(3) cm(1,2)] obtain h' ns' where over:
    "overwrite_user (Some c) (Some m) p ?w = Some (?w\<lparr>uheap := h'\<rparr>)"
    "nseg u_next h' p as ns' None" "map user_nodes.strip ns' = ?us"
    unfolding *(5) by metis
  have "\<forall>u \<in> set ?us. user_ok u"
    using set_replace_first [of "\<lambda>u. u_uid u = u_uid cu" "user_nodes.strip mu" "sort_key u_uid us"]
      assms(1,7) by (auto simp: passwd_file_def)
  from rewrite_users [OF over(2) *(3) over(3) this assms(2,3), of "brk w + length us"] obtain w' where w':
    "do { w1 \<leftarrow> updatePasswdFile p (w\<lparr>uheap := h', brk := brk w + length us\<rparr>); freeUserList p w1 } = Some w'"
    "replaced w ''/etc/passwd'' (passwd_text ?us) (w'\<lparr>uheap := uheap w, brk := brk w\<rparr>)"
    by metis
  have "updateUserInfo (Some c) (Some m) w = Some w'"
    using w'(1) over(1) by (simp add: updateUserInfo_def *(1) brk_uheap)
  with w'(2) show ?thesis
    by metis
qed

section \<open>A sample system\<close>

text \<open>The users of the distributed image, and a world whose account files have the given texts.\<close>

definition root_user :: user where
  "root_user = \<lparr>username = ''root'', password = ''password'', u_uid = 0, u_gid = 0,
     realname = ''Superuser'', homedir = ''/home/root'', u_next = None\<rparr>"

definition ken_user :: user where
  "ken_user = \<lparr>username = ''ken'', password = ''abcd1234'', u_uid = 1000, u_gid = 1000,
     realname = ''Ken_Thompson'', homedir = ''/home/ken'', u_next = None\<rparr>"

definition dmr_user :: user where
  "dmr_user = \<lparr>username = ''dmr'', password = ''password1'', u_uid = 1001, u_gid = 1001,
     realname = ''Dennis_Ritchie'', homedir = ''/home/dmr'', u_next = None\<rparr>"

definition bwk_user :: user where
  "bwk_user = \<lparr>username = ''bwk'', password = ''123456'', u_uid = 1002, u_gid = 1002,
     realname = ''Brian_Kernighan'', homedir = ''/home/bwk'', u_next = None\<rparr>"

definition sample_world :: "string \<Rightarrow> string \<Rightarrow> user heap \<Rightarrow> accounts" where
  "sample_world pw gr h =
     \<lparr>names = [''/etc/passwd'' \<mapsto> 0, ''/etc/group'' \<mapsto> 1],
      contents = (\<lambda>i. if i = 0 then pw else gr), next_ino = 2, fds = (\<lambda>_. None), proc_uid = 0,
      denied = (\<lambda>_. False), stack_after = [NUL], stdin = [], events = [],
      uheap = h, gheap = (\<lambda>_. None), brk = 8, fresh_user = (\<lambda>_. root_user),
      fresh_group = (\<lambda>_. \<lparr>groupname = [], g_gid = 0, userList = None, g_next = None\<rparr>),
      strtok_sp = None, strtok2_sp = None\<rparr>"

text \<open>The world of the distributed image: no newline ends the password file.\<close>

definition image_world :: "string \<Rightarrow> user heap \<Rightarrow> accounts" where
  "image_world = sample_world (butlast (passwd_text [root_user, ken_user, dmr_user, bwk_user]))"

lemma sample_users_ok: "user_ok root_user" "user_ok ken_user" "user_ok dmr_user" "user_ok bwk_user"
  by code_simp+

lemma sample_world_ok:
  "world_ok (sample_world pw gr h)" "free_fds (sample_world pw gr h) = 16"
  "dom h \<subseteq> {..<8} \<Longrightarrow> heap_ok (sample_world pw gr h)"
  "\<forall>u \<in> set us. user_ok u \<Longrightarrow> lines_of t us \<Longrightarrow> passwd_file (sample_world t gr h) us"
  by (auto simp: sample_world_def world_ok_def free_fds_def heap_ok_def passwd_file_def file_text_def
      split: if_splits)

lemma image_world_ok:
  "world_ok (image_world gr h)" "free_fds (image_world gr h) = 16"
  "dom h \<subseteq> {..<8} \<Longrightarrow> heap_ok (image_world gr h)"
  "passwd_file (image_world gr h) [root_user, ken_user, dmr_user, bwk_user]"
proof -
  show "passwd_file (image_world gr h) [root_user, ken_user, dmr_user, bwk_user]"
    unfolding image_world_def
    by (intro sample_world_ok(4)) (simp_all add: sample_users_ok lines_of_def butlast_append)
qed (simp_all add: image_world_def sample_world_ok)

section \<open>Properties\<close>

text \<open>
  C14: what \<^verbatim>\<open>updatePasswdFile\<close> writes for a list of storable users, \<^verbatim>\<open>selectAllUsersFromPasswdFile\<close>
  reads back: the returned list holds exactly those users, stably sorted by uid, in nodes of its own.
\<close>

theorem passwd_roundtrip:
  assumes "nseg u_next (uheap w) p as ns None" "\<forall>n \<in> set ns. user_ok (n\<lparr>u_next := None\<rparr>)"
    and "world_ok w" "2 < free_fds w" "stack_after w \<noteq> []" "hd (stack_after w) = NUL" "strtok_sp w = None"
  shows "\<exists>w1 q w2 bs ms. updatePasswdFile p w = Some w1 \<and> selectAllUsersFromPasswdFile w1 = Some (q, w2) \<and>
    nseg u_next (uheap w2) q bs ms None \<and> distinct bs \<and> set bs \<subseteq> {brk w..<brk w2} \<and>
    map (\<lambda>n. n\<lparr>u_next := None\<rparr>) ms = sort_key u_uid (map (\<lambda>n. n\<lparr>u_next := None\<rparr>) ns)"
proof -
  let ?us = "map user_nodes.strip ns"
  obtain w1 where w1: "updatePasswdFile p w = Some w1" "replaced w ''/etc/passwd'' (passwd_text ?us) w1"
    using update_passwd_file [OF assms(1-3)] assms(4) by auto
  have "passwd_file w1 ?us"
    using w1(2) assms(2,4-7) by (simp add: passwd_file_def replaced_def lines_of_def)
  from select_users [OF this] w1 show ?thesis
    by (fastforce simp: replaced_def)
qed

theorem passwd_roundtrip_witness:
  "\<exists>w1 q w2 bs ms.
    updatePasswdFile (Some 0) (sample_world [] [] [0 \<mapsto> dmr_user\<lparr>u_next := Some 1\<rparr>, 1 \<mapsto> root_user]) = Some w1 \<and>
    selectAllUsersFromPasswdFile w1 = Some (q, w2) \<and> nseg u_next (uheap w2) q bs ms None \<and>
    map (\<lambda>n. n\<lparr>u_next := None\<rparr>) ms = [root_user, dmr_user]"
proof -
  let ?w = "sample_world [] [] [0 \<mapsto> dmr_user\<lparr>u_next := Some 1\<rparr>, 1 \<mapsto> root_user]"
  have u: "dmr_user\<lparr>u_next := None\<rparr> = dmr_user" "root_user\<lparr>u_next := None\<rparr> = root_user" "u_next root_user = None"
    by (simp_all add: dmr_user_def root_user_def)
  have "nseg u_next (uheap ?w) (Some 0) [0, 1] [dmr_user\<lparr>u_next := Some 1\<rparr>, root_user] None"
    "\<forall>n \<in> set [dmr_user\<lparr>u_next := Some 1\<rparr>, root_user]. user_ok (n\<lparr>u_next := None\<rparr>)"
    "world_ok ?w" "2 < free_fds ?w" "stack_after ?w \<noteq> []" "hd (stack_after ?w) = NUL" "strtok_sp ?w = None"
    by (simp_all add: sample_users_ok sample_world_ok u) (simp_all add: sample_world_def u)
  from passwd_roundtrip [OF this] obtain w1 q w2 bs ms where "updatePasswdFile (Some 0) ?w = Some w1"
    "selectAllUsersFromPasswdFile w1 = Some (q, w2)" "nseg u_next (uheap w2) q bs ms None"
    "map (\<lambda>n. n\<lparr>u_next := None\<rparr>) ms = sort_key u_uid [dmr_user, root_user]"
    by (auto simp del: One_nat_def simp: u)
  moreover have "sort_key u_uid [dmr_user, root_user] = [root_user, dmr_user]"
    by (simp add: dmr_user_def root_user_def)
  ultimately show ?thesis
    by metis
qed

text \<open>
  C6: authentication.  On a readable password file \<^verbatim>\<open>authenticateUser\<close> returns, leaves the files as
  they are, and yields a user if and only if some line has exactly the given name and password; the
  node it yields is one of the file's users, with that name and that password.
\<close>

theorem authenticateUser_correct:
  assumes "passwd_file w us" "heap_ok w" "NUL \<notin> set n" "NUL \<notin> set pw"
  shows "\<exists>p w'. authenticateUser n pw w = Some (p, w') \<and> file_text w' = file_text w \<and> fds w' = fds w \<and>
    (p \<noteq> None \<longleftrightarrow> (\<exists>u \<in> set us. username u = n \<and> password u = pw)) \<and>
    (\<forall>a. p = Some a \<longrightarrow> (\<exists>u. uheap w' a = Some u \<and> u\<lparr>u_next := None\<rparr> \<in> set us \<and>
       username u = n \<and> password u = pw))"
proof -
  have frame: "file_text (w\<lparr>uheap := h, brk := b\<rparr>) = file_text w" "file_text (w\<lparr>brk := b\<rparr>) = file_text w" for h b
    by (simp_all add: file_text_def fun_eq_iff)
  from authenticate_cases [OF assms] show ?thesis
  proof (elim disjE exE conjE)
    fix h a u
    assume "authenticateUser n pw w = Some (Some a, w\<lparr>uheap := h, brk := brk w + length us\<rparr>)"
      "h a = Some u" "user_nodes.strip u \<in> set us" "username u = n" "password u = pw"
    then show ?thesis
      by (intro exI [of _ "Some a"] exI [of _ "w\<lparr>uheap := h, brk := brk w + length us\<rparr>"])
        (auto simp: frame intro!: bexI [of _ "user_nodes.strip u"])
  next
    assume "authenticateUser n pw w = Some (None, w\<lparr>brk := brk w + length us\<rparr>)"
      "\<forall>u \<in> set us. \<not> (username u = n \<and> password u = pw)"
    then show ?thesis
      by (intro exI [of _ None] exI [of _ "w\<lparr>brk := brk w + length us\<rparr>"]) (auto simp: frame)
  qed
qed

theorem authenticateUser_correct_witness:
  "(\<exists>a w'. authenticateUser ''dmr'' ''password1'' (image_world [] (\<lambda>_. None)) = Some (Some a, w')) \<and>
   (\<exists>w'. authenticateUser ''dmr'' ''password'' (image_world [] (\<lambda>_. None)) = Some (None, w'))"
proof -
  let ?w = "image_world [] (\<lambda>_. None)"
  have pre: "heap_ok ?w"
    by (simp add: image_world_ok)
  have "\<exists>a w'. authenticateUser ''dmr'' ''password1'' ?w = Some (Some a, w')"
    using authenticateUser_correct [OF image_world_ok(4) pre, of "''dmr''" "''password1''"]
    by (auto simp: NUL_def dmr_user_def)
  moreover have "\<exists>w'. authenticateUser ''dmr'' ''password'' ?w = Some (None, w')"
    using authenticateUser_correct [OF image_world_ok(4) pre, of "''dmr''" "''password''"]
    by (auto simp: NUL_def dmr_user_def root_user_def bwk_user_def ken_user_def)
  ultimately show ?thesis
    by blast
qed

text \<open>
  C37: \<^verbatim>\<open>getNextAvailableUid\<close> returns the least uid from 1000 on that no line of the password file has,
  and releases every node it allocated.
\<close>

theorem getNextAvailableUid_least:
  assumes "passwd_file w us" "heap_ok w" "length us < 2 ^ 31 - 1000"
  shows "\<exists>uid w'. getNextAvailableUid w = Some (uid, w') \<and> uheap w' = uheap w \<and> 1000 \<le> uid \<and>
    uid \<notin> u_uid ` set us \<and> (\<forall>k. 1000 \<le> k \<and> k < uid \<longrightarrow> k \<in> u_uid ` set us)"
proof -
  obtain uid where "getNextAvailableUid w = Some (uid, w\<lparr>brk := brk w + length us\<rparr>)" "1000 \<le> uid"
    "uid \<notin> u_uid ` set us" "\<forall>k. 1000 \<le> k \<and> k < uid \<longrightarrow> k \<in> u_uid ` set us"
    using next_available_uid [OF assms] by blast
  then show ?thesis
    by (intro exI [of _ uid] exI [of _ "w\<lparr>brk := brk w + length us\<rparr>"]) simp
qed

theorem getNextAvailableUid_least_witness:
  "\<exists>w'. getNextAvailableUid (image_world [] (\<lambda>_. None)) = Some (1003, w')"
proof -
  let ?w = "image_world [] (\<lambda>_. None)"
  let ?us = "[root_user, ken_user, dmr_user, bwk_user]"
  have "heap_ok ?w"
    by (simp add: image_world_ok)
  from getNextAvailableUid_least [OF image_world_ok(4) this] obtain uid w' where
    r: "getNextAvailableUid ?w = Some (uid, w')" "1000 \<le> uid" "uid \<notin> u_uid ` set ?us"
      "\<forall>k. 1000 \<le> k \<and> k < uid \<longrightarrow> k \<in> u_uid ` set ?us"
    by auto
  have uids: "u_uid ` set ?us = {0, 1000, 1001, 1002}"
    by (auto simp: root_user_def ken_user_def dmr_user_def bwk_user_def)
  have "uid = 1003"
    using r(2,3) r(4) [rule_format, of 1003] unfolding uids by (cases "1003 < uid") auto
  with r(1) show ?thesis
    by blast
qed

text \<open>
  C29: adding an account.  \<^verbatim>\<open>addNewUser\<close> on a non-empty password file replaces it by the lines of its
  users sorted by uid with the new user inserted behind all users of at most its uid, changes no other
  file, and frees the new user's node (and every node it allocated) before it returns.
\<close>

theorem addNewUser_inserts:
  assumes "passwd_file w us" "world_ok w" "1 < free_fds w" "heap_ok w" "us \<noteq> []"
    and "uheap w c = Some u" "user_ok (u\<lparr>u_next := None\<rparr>)"
  shows "\<exists>w'. addNewUser (Some c) w = Some w' \<and>
    file_text w' ''/etc/passwd'' =
      Some (passwd_text (insert_by u_uid (u\<lparr>u_next := None\<rparr>) (sort_key u_uid us))) \<and>
    (\<forall>q. q \<noteq> ''/etc/passwd'' \<longrightarrow> file_text w' q = file_text w q) \<and> uheap w' = (uheap w)(c := None)"
proof -
  obtain w' where w': "addNewUser (Some c) w = Some w'"
    "replaced w ''/etc/passwd'' (passwd_text (insert_by u_uid (user_nodes.strip u) (sort_key u_uid us)))
      (w'\<lparr>uheap := uheap w, brk := brk w\<rparr>)"
    "uheap w' = (uheap w)(c := None)"
    using add_new_user [OF assms(1-4,6,7,5)] by metis
  moreover have "file_text (w'\<lparr>uheap := uheap w, brk := brk w\<rparr>) = file_text w'"
    by (simp add: file_text_def fun_eq_iff)
  ultimately show ?thesis
    by (auto simp: replaced_def)
qed

theorem addNewUser_inserts_witness:
  "\<exists>w'. addNewUser (Some 3) (sample_world (passwd_text [ken_user, root_user]) [] [3 \<mapsto> dmr_user]) = Some w' \<and>
     file_text w' ''/etc/passwd'' = Some (passwd_text [root_user, ken_user, dmr_user])"
proof -
  let ?w = "sample_world (passwd_text [ken_user, root_user]) [] [3 \<mapsto> dmr_user]"
  have pre: "passwd_file ?w [ken_user, root_user]" "world_ok ?w" "1 < free_fds ?w" "heap_ok ?w"
    "[ken_user, root_user] \<noteq> []"
    by (simp_all add: sample_world_ok sample_users_ok lines_of_def)
  have "uheap ?w 3 = Some dmr_user" "user_ok (dmr_user\<lparr>u_next := None\<rparr>)"
    using sample_users_ok(3) by (simp_all add: sample_world_def dmr_user_def)
  from addNewUser_inserts [OF pre this] obtain w' where
    "addNewUser (Some 3) ?w = Some w'" "file_text w' ''/etc/passwd'' =
      Some (passwd_text (insert_by u_uid (dmr_user\<lparr>u_next := None\<rparr>) (sort_key u_uid [ken_user, root_user])))"
    by metis
  moreover have "insert_by u_uid (dmr_user\<lparr>u_next := None\<rparr>) (sort_key u_uid [ken_user, root_user]) =
      [root_user, ken_user, dmr_user]"
    by (simp add: ken_user_def dmr_user_def root_user_def insert_by_def)
  ultimately show ?thesis
    by metis
qed

text \<open>
  C30: changing an account.  \<^verbatim>\<open>updateUserInfo\<close> replaces the password file by the lines of its users
  sorted by uid, in which the first user with the uid of \<open>currUser\<close> is the modified user and all others
  are as before; no other file changes.
\<close>

theorem updateUserInfo_replaces:
  assumes "passwd_file w us" "world_ok w" "1 < free_fds w" "heap_ok w"
    and "uheap w c = Some cu" "uheap w m = Some mu" "user_ok (mu\<lparr>u_next := None\<rparr>)"
  shows "\<exists>w'. updateUserInfo (Some c) (Some m) w = Some w' \<and>
    file_text w' ''/etc/passwd'' = Some (passwd_text
      (replace_first (\<lambda>u. u_uid u = u_uid cu) (mu\<lparr>u_next := None\<rparr>) (sort_key u_uid us))) \<and>
    (\<forall>q. q \<noteq> ''/etc/passwd'' \<longrightarrow> file_text w' q = file_text w q)"
proof -
  obtain w' where "updateUserInfo (Some c) (Some m) w = Some w'"
    "replaced w ''/etc/passwd'' (passwd_text
      (replace_first (\<lambda>u. u_uid u = u_uid cu) (user_nodes.strip mu) (sort_key u_uid us)))
      (w'\<lparr>uheap := uheap w, brk := brk w\<rparr>)"
    using update_user_info [OF assms] by metis
  moreover have "file_text (w'\<lparr>uheap := uheap w, brk := brk w\<rparr>) = file_text w'"
    by (simp add: file_text_def fun_eq_iff)
  ultimately show ?thesis
    by (auto simp: replaced_def)
qed

theorem updateUserInfo_replaces_witness:
  "\<exists>w'. updateUserInfo (Some 3) (Some 3)
        (image_world [] [3 \<mapsto> dmr_user\<lparr>password := ''unixunix''\<rparr>]) = Some w' \<and>
     file_text w' ''/etc/passwd'' = Some (passwd_text
       [root_user, ken_user, dmr_user\<lparr>password := ''unixunix''\<rparr>, bwk_user])"
proof -
  let ?d = "dmr_user\<lparr>password := ''unixunix''\<rparr>"
  let ?w = "image_world [] [3 \<mapsto> ?d]"
  let ?us = "[root_user, ken_user, dmr_user, bwk_user]"
  have "passwd_file ?w ?us" "world_ok ?w" "1 < free_fds ?w" "heap_ok ?w" "uheap ?w 3 = Some ?d" "uheap ?w 3 = Some ?d"
    by (simp_all add: image_world_ok) (simp_all add: image_world_def sample_world_def)
  moreover have d: "?d\<lparr>u_next := None\<rparr> = ?d"
    by (simp add: dmr_user_def)
  moreover have "user_ok ?d"
    by code_simp
  ultimately obtain w' where "updateUserInfo (Some 3) (Some 3) ?w = Some w'"
    "file_text w' ''/etc/passwd'' = Some (passwd_text
      (replace_first (\<lambda>u. u_uid u = u_uid ?d) ?d (sort_key u_uid ?us)))"
    using updateUserInfo_replaces [of ?w ?us 3 ?d 3 ?d] by auto
  moreover have "replace_first (\<lambda>u. u_uid u = u_uid ?d) ?d (sort_key u_uid ?us) =
      [root_user, ken_user, ?d, bwk_user]"
    by (simp add: dmr_user_def root_user_def ken_user_def bwk_user_def)
  ultimately show ?thesis
    by metis
qed

end
