(* ===== verification/UGroups.thy ===== *)
theory UGroups
  imports Passwd
begin

text \<open>
  \<^verbatim>\<open>src/user/grouphandler.c\<close> and the functions of \<^verbatim>\<open>src/user/userhandler.c\<close> that work on groups: the parser and printer
  of \<^verbatim>\<open>/etc/group\<close> lines, the sorted list of groups, each with its own list of members, and the administration routines
  that create and modify users.  A line names its members; the parser looks every name up in \<^verbatim>\<open>/etc/passwd\<close>, which reads
  that file anew for each of them.
\<close>

definition malloc_group :: "accounts \<Rightarrow> ptr \<times> accounts" where
  "malloc_group w =
     (Some (brk w), w\<lparr>gheap := (gheap w)(brk w \<mapsto> fresh_group w (brk w)), brk := Suc (brk w)\<rparr>)"

definition put_group :: "ptr \<Rightarrow> group \<Rightarrow> accounts \<Rightarrow> accounts option" where
  "put_group p g w = do { h \<leftarrow> store (gheap w) p g; Some (w\<lparr>gheap := h\<rparr>) }"

section \<open>Lines of the group file\<close>

text \<open>The second loop of \<^verbatim>\<open>getGroupFromString\<close>, over the names of the members.\<close>

partial_function (option) members_loop :: "string \<Rightarrow> nat \<Rightarrow> ptr \<Rightarrow> accounts \<Rightarrow> accounts option" where
  "members_loop groupString pnt currGroup w = do {
     buf \<leftarrow> field (CHR '','') groupString pnt;
     (currUser, w) \<leftarrow> getUserFromUsername buf w;
     g \<leftarrow> deref (gheap w) currGroup;
     (ulist, w) \<leftarrow> addUserToListSorted (userList g) currUser w;
     w \<leftarrow> put_group currGroup (g\<lparr>userList := ulist\<rparr>) w;
     if groupString ! (length buf + pnt) = NUL then Some w
     else members_loop groupString (pnt + length buf + 1) currGroup w
   }"

definition getGroupFromString :: "string \<Rightarrow> accounts \<Rightarrow> (ptr \<times> accounts) option" where
  "getGroupFromString groupString w = do {
     let (currGroup, w) = malloc_group w;
     (tmp, pnt) \<leftarrow> parse_fields 2 groupString 0;
     g \<leftarrow> deref (gheap w) currGroup;
     w \<leftarrow> put_group currGroup (g\<lparr>groupname := tmp ! 0, g_gid := atoi (tmp ! 1), userList := None\<rparr>) w;
     w \<leftarrow> members_loop groupString pnt currGroup w;
     g \<leftarrow> deref (gheap w) currGroup;
     w \<leftarrow> put_group currGroup (g\<lparr>g_next := None\<rparr>) w;
     Some (currGroup, w)
   }"

partial_function (option) print_members :: "nat \<Rightarrow> user heap \<Rightarrow> bool \<Rightarrow> ptr \<Rightarrow> string \<Rightarrow> string option" where
  "print_members cap h isFirstUser tmpUser groupString =
     (if tmpUser = None then Some groupString
      else do {
        u \<leftarrow> deref h tmpUser;
        groupString \<leftarrow> (if \<not> isFirstUser then strcat cap groupString '','' else Some groupString);
        groupString \<leftarrow> strcat cap groupString (username u);
        print_members cap h False (u_next u) groupString
      })"

text \<open>The caller's buffer \<^verbatim>\<open>groupString\<close> has \<open>cap\<close> characters.\<close>

definition getStringFromGroup :: "nat \<Rightarrow> user heap \<Rightarrow> group \<Rightarrow> string option" where
  "getStringFromGroup cap h currGroup = do {
     groupString \<leftarrow> strcpy cap (groupname currGroup);
     groupString \<leftarrow> strcat cap groupString '':'';
     gidString \<leftarrow> strcpy STRING_SIZE (itoa (g_gid currGroup) [] 10);
     groupString \<leftarrow> strcat cap groupString gidString;
     groupString \<leftarrow> strcat cap groupString '':'';
     groupString \<leftarrow> print_members cap h True (userList currGroup) groupString;
     strcat cap groupString [CHR 0x0A]
   }"

section \<open>The sorted list of groups\<close>

definition compareGroups :: "group \<Rightarrow> group \<Rightarrow> int" where
  "compareGroups group1 group2 =
     (if g_gid group1 > g_gid group2 then 1 else if g_gid group1 < g_gid group2 then - 1 else 0)"

abbreviation set_g_next :: "ptr \<Rightarrow> group \<Rightarrow> group" where
  "set_g_next p g \<equiv> g\<lparr>g_next := p\<rparr>"

definition addGroupToListSorted :: "ptr \<Rightarrow> ptr \<Rightarrow> accounts \<Rightarrow> (ptr \<times> accounts) option" where
  "addGroupToListSorted glist currGroup w = do {
     (glist, h) \<leftarrow> insert_node g_next set_g_next compareGroups glist currGroup (gheap w);
     Some (glist, w\<lparr>gheap := h\<rparr>)
   }"

definition freeGroupList :: "ptr \<Rightarrow> accounts \<Rightarrow> accounts option" where
  "freeGroupList glist w = do { h \<leftarrow> free_nodes g_next glist (gheap w); Some (w\<lparr>gheap := h\<rparr>) }"

text \<open>\<^verbatim>\<open>strtok2\<close> is the text of \<^verbatim>\<open>strtok\<close> again, with a static pointer of its own.\<close>

definition strtok2 ::
  "nat option \<Rightarrow> string \<Rightarrow> string \<Rightarrow> accounts \<Rightarrow> (nat option \<times> string \<times> accounts) option" where
  "strtok2 str delimiters buf w = do {
     (token, sp, buf) \<leftarrow> strtok str delimiters (strtok2_sp w, buf);
     Some (token, buf, w\<lparr>strtok2_sp := sp\<rparr>)
   }"

partial_function (option) groups_loop ::
  "ptr \<Rightarrow> nat option \<Rightarrow> string \<Rightarrow> accounts \<Rightarrow> (ptr \<times> accounts) option" where
  "groups_loop glist token fileContent w =
     (case token of
        None \<Rightarrow> Some (glist, w)
      | Some off \<Rightarrow> do {
          (currGroup, w) \<leftarrow> getGroupFromString (drop off fileContent) w;
          (glist, w) \<leftarrow> addGroupToListSorted glist currGroup w;
          (token, fileContent, w) \<leftarrow> strtok2 None [CHR 0x0A] fileContent w;
          groups_loop glist token fileContent w
        })"

definition selectAllGroupsFromGroupFile :: "accounts \<Rightarrow> (ptr \<times> accounts) option" where
  "selectAllGroupsFromGroupFile w = do {
     (fd, fileContent, w) \<leftarrow> slurp ''/etc/group'' w;
     (token, fileContent, w) \<leftarrow> strtok2 (Some 0) [CHR 0x0A] fileContent w;
     (glist, w) \<leftarrow> groups_loop None token fileContent w;
     Some (glist, u_close fd w)
   }"

text \<open>
  \<^verbatim>\<open>printEtcFile\<close> prints the array as a string: up to the first NUL in it or behind it.  It does not close the file.
\<close>

definition printEtcFile :: "string \<Rightarrow> accounts \<Rightarrow> accounts option" where
  "printEtcFile name w = do {
     path \<leftarrow> strcpy STRING_SIZE ''/etc/'';
     path \<leftarrow> strcat STRING_SIZE path name;
     if fst (u_open path O_RDONLY w) \<noteq> - 1 then do {
       (fd, fileContent, w) \<leftarrow> slurp path w;
       out \<leftarrow> scan_field NUL fileContent;
       Some (w\<lparr>events := events w @ [EvPrint (out @ [CHR 0x0A])]\<rparr>)
     } else Some (snd (u_open path O_RDONLY w))
   }"

section \<open>Group ids and lookups\<close>

definition isGidAvailable :: "int \<Rightarrow> accounts \<Rightarrow> (bool \<times> accounts) option" where
  "isGidAvailable gid w = do {
     (glist, w) \<leftarrow> selectAllGroupsFromGroupFile w;
     tmpGroup \<leftarrow> find_node g_next (\<lambda>g. g_gid g = gid) (gheap w) glist;
     w \<leftarrow> freeGroupList glist w;
     Some (tmpGroup = None, w)
   }"

partial_function (option) next_gid_loop :: "group heap \<Rightarrow> ptr \<Rightarrow> int \<Rightarrow> int option" where
  "next_gid_loop h tmpGroup gid =
     (if tmpGroup = None then Some gid
      else do {
        g \<leftarrow> deref h tmpGroup;
        next_gid_loop h (g_next g) (if g_gid g = gid then s32 (gid + 1) else gid)
      })"

definition getNextAvailableGid :: "accounts \<Rightarrow> (int \<times> accounts) option" where
  "getNextAvailableGid w = do {
     (glist, w) \<leftarrow> selectAllGroupsFromGroupFile w;
     gid \<leftarrow> next_gid_loop (gheap w) glist 1000;
     w \<leftarrow> freeGroupList glist w;
     Some (gid, w)
   }"

text \<open>The tail shared by \<^verbatim>\<open>getGroupFromGroupname\<close> and \<^verbatim>\<open>getGroupFromGid\<close>: detach the node that was found.\<close>

definition detach_group :: "ptr \<Rightarrow> ptr \<Rightarrow> accounts \<Rightarrow> (ptr \<times> accounts) option" where
  "detach_group tmpGroup glist w =
     (if tmpGroup \<noteq> None then do {
        g \<leftarrow> deref (gheap w) tmpGroup;
        w \<leftarrow> put_group tmpGroup (g\<lparr>g_next := None\<rparr>) w;
        Some (tmpGroup, w)
      } else do { w \<leftarrow> freeGroupList glist w; Some (None, w) })"

definition getGroupFromGroupname :: "string \<Rightarrow> accounts \<Rightarrow> (ptr \<times> accounts) option" where
  "getGroupFromGroupname name w = do {
     (glist, w) \<leftarrow> selectAllGroupsFromGroupFile w;
     tmpGroup \<leftarrow> find_node g_next (\<lambda>g. strcmp (groupname g) name = 0) (gheap w) glist;
     detach_group tmpGroup glist w
   }"

definition getGroupFromGid :: "int \<Rightarrow> accounts \<Rightarrow> (ptr \<times> accounts) option" where
  "getGroupFromGid gid w = do {
     (glist, w) \<leftarrow> selectAllGroupsFromGroupFile w;
     tmpGroup \<leftarrow> find_node g_next (\<lambda>g. gid = g_gid g) (gheap w) glist;
     detach_group tmpGroup glist w
   }"

partial_function (option) names_loop :: "string \<Rightarrow> nat \<Rightarrow> ptr \<Rightarrow> accounts \<Rightarrow> (ptr \<times> accounts) option" where
  "names_loop groupsString pnt glist w = do {
     buf \<leftarrow> field (CHR '','') groupsString pnt;
     (currGroup, w) \<leftarrow> getGroupFromGroupname buf w;
     (glist, w) \<leftarrow> (if currGroup \<noteq> None then addGroupToListSorted glist currGroup w else Some (glist, w));
     if groupsString ! (length buf + pnt) = NUL then Some (glist, w)
     else names_loop groupsString (pnt + length buf + 1) glist w
   }"

definition getMultipleGroupsFromString :: "string \<Rightarrow> accounts \<Rightarrow> (ptr \<times> accounts) option" where
  "getMultipleGroupsFromString groupsString w = names_loop groupsString 0 None w"

section \<open>Writing the group file\<close>

partial_function (option) write_groups :: "int \<Rightarrow> ptr \<Rightarrow> accounts \<Rightarrow> accounts option" where
  "write_groups fd glist w =
     (if glist = None then Some w
      else do {
        g \<leftarrow> deref (gheap w) glist;
        groupString \<leftarrow> getStringFromGroup (STRING_SIZE * 16) (uheap w) g;
        write_groups fd (g_next g) (snd (u_write fd groupString w))
      })"

definition updateGroupFile :: "ptr \<Rightarrow> accounts \<Rightarrow> accounts option" where
  "updateGroupFile glist w = do {
     let (_, w) = u_unlink ''/etc/group'' w;
     let (_, w) = u_open ''/etc/group'' O_CREATE w;
     let (fd, w) = u_open ''/etc/group'' O_WRONLY w;
     w \<leftarrow> write_groups fd glist w;
     Some (u_close fd w)
   }"

definition addNewGroup :: "ptr \<Rightarrow> accounts \<Rightarrow> accounts option" where
  "addNewGroup newGroup w = do {
     (glist, w) \<leftarrow> selectAllGroupsFromGroupFile w;
     (glist, w) \<leftarrow> addGroupToListSorted glist newGroup w;
     w \<leftarrow> updateGroupFile glist w;
     freeGroupList glist w
   }"

text \<open>
  The id that a user or group gets: the one asked for, when it is a number other than 0 and free, and else none; the next
  free one when none was asked for.
\<close>

definition choose_id :: "(int \<Rightarrow> accounts \<Rightarrow> (bool \<times> accounts) option) \<Rightarrow> (accounts \<Rightarrow> (int \<times> accounts) option) \<Rightarrow>
    string \<Rightarrow> accounts \<Rightarrow> (int option \<times> accounts) option" where
  "choose_id available next_id idString w =
     (if \<not> isEmptyString idString then
        let i = atoi idString in
        if i = 0 then Some (None, w)
        else do { (free, w) \<leftarrow> available i w; Some (if free then Some i else None, w) }
      else do { (i, w) \<leftarrow> next_id w; Some (Some i, w) })"

definition ADD_USER :: int where "ADD_USER = 2"
definition DONT_ADD_USER :: int where "DONT_ADD_USER = 1"

definition createGroup :: "string \<Rightarrow> string \<Rightarrow> int \<Rightarrow> accounts \<Rightarrow> (ptr \<times> accounts) option" where
  "createGroup name gidString addUserWithSameGroupname w = do {
     let (newGroup, w) = malloc_group w;
     n \<leftarrow> strcpy STRING_SIZE name;
     g \<leftarrow> deref (gheap w) newGroup;
     w \<leftarrow> put_group newGroup (g\<lparr>groupname := n\<rparr>) w;
     (gid, w) \<leftarrow> choose_id isGidAvailable getNextAvailableGid gidString w;
     (case gid of
        None \<Rightarrow> Some (None, w)
      | Some gid \<Rightarrow> do {
          g \<leftarrow> deref (gheap w) newGroup;
          w \<leftarrow> put_group newGroup (g\<lparr>g_gid := gid\<rparr>) w;
          if addUserWithSameGroupname = ADD_USER then do {
            (currUser, w) \<leftarrow> getUserFromUsername name w;
            g \<leftarrow> deref (gheap w) newGroup;
            w \<leftarrow> put_group newGroup (g\<lparr>userList := currUser\<rparr>) w;
            Some (newGroup, w)
          } else if addUserWithSameGroupname = DONT_ADD_USER then do {
            g \<leftarrow> deref (gheap w) newGroup;
            w \<leftarrow> put_group newGroup (g\<lparr>userList := None\<rparr>) w;
            Some (newGroup, w)
          } else Some (newGroup, w)
        })
   }"

section \<open>Members of groups\<close>

definition isUserInGroup :: "ptr \<Rightarrow> group \<Rightarrow> accounts \<Rightarrow> bool option" where
  "isUserInGroup currUser currGroup w =
     (if userList currGroup = None then Some False
      else do {
        c \<leftarrow> deref (uheap w) currUser;
        tmpUser \<leftarrow> find_node u_next (\<lambda>u. compareUsers u c = 0) (uheap w) (userList currGroup);
        Some (tmpUser \<noteq> None)
      })"

partial_function (option) add_groups_loop :: "ptr \<Rightarrow> ptr \<Rightarrow> ptr \<Rightarrow> accounts \<Rightarrow> accounts option" where
  "add_groups_loop tmpGroup groupsToAddUser currUser w =
     (if tmpGroup = None \<or> groupsToAddUser = None then Some w
      else do {
        t \<leftarrow> deref (gheap w) tmpGroup;
        g \<leftarrow> deref (gheap w) groupsToAddUser;
        if compareGroups g t = 0 then do {
          member \<leftarrow> isUserInGroup currUser t w;
          w \<leftarrow> (if \<not> member then do {
                 (ulist, w) \<leftarrow> addUserToListSorted (userList t) currUser w;
                 put_group tmpGroup (t\<lparr>userList := ulist\<rparr>) w
               } else Some w);
          add_groups_loop (g_next t) (g_next g) currUser w
        } else add_groups_loop (g_next t) groupsToAddUser currUser w
      })"

definition addUserToGroups :: "ptr \<Rightarrow> ptr \<Rightarrow> accounts \<Rightarrow> accounts option" where
  "addUserToGroups groupsToAddUser currUser w = do {
     (glist, w) \<leftarrow> selectAllGroupsFromGroupFile w;
     w \<leftarrow> add_groups_loop glist groupsToAddUser currUser w;
     w \<leftarrow> updateGroupFile glist w;
     freeGroupList glist w
   }"

partial_function (option) remove_loop :: "ptr \<Rightarrow> ptr \<Rightarrow> accounts \<Rightarrow> accounts option" where
  "remove_loop currUser tmpUser w = do {
     t \<leftarrow> deref (uheap w) tmpUser;
     if u_next t = None then Some w
     else do {
       n \<leftarrow> deref (uheap w) (u_next t);
       c \<leftarrow> deref (uheap w) currUser;
       w \<leftarrow> (if compareUsers n c = 0 then put_user tmpUser (t\<lparr>u_next := u_next n\<rparr>) w else Some w);
       t \<leftarrow> deref (uheap w) tmpUser;
       remove_loop currUser (u_next t) w
     }
   }"

definition removeUserFromCurrGroup :: "ptr \<Rightarrow> ptr \<Rightarrow> accounts \<Rightarrow> (ptr \<times> accounts) option" where
  "removeUserFromCurrGroup currGroup currUser w = do {
     g \<leftarrow> deref (gheap w) currGroup;
     if userList g = None then Some (None, w)
     else do {
       c \<leftarrow> deref (uheap w) currUser;
       if strcmp (groupname g) (username c) = 0 then Some (userList g, w)
       else do {
         f \<leftarrow> deref (uheap w) (userList g);
         if compareUsers f c = 0 then Some (u_next f, w)
         else do {
           w \<leftarrow> remove_loop currUser (userList g) w;
           Some (userList g, w)
         }
       }
     }
   }"

partial_function (option) remove_all_loop :: "ptr \<Rightarrow> ptr \<Rightarrow> accounts \<Rightarrow> accounts option" where
  "remove_all_loop tmpGroup currUser w =
     (if tmpGroup = None then Some w
      else do {
        (ulist, w) \<leftarrow> removeUserFromCurrGroup tmpGroup currUser w;
        g \<leftarrow> deref (gheap w) tmpGroup;
        w \<leftarrow> put_group tmpGroup (g\<lparr>userList := ulist\<rparr>) w;
        remove_all_loop (g_next g) currUser w
      })"

definition removeUserFromAllGroups :: "ptr \<Rightarrow> accounts \<Rightarrow> accounts option" where
  "removeUserFromAllGroups currUser w = do {
     (glist, w) \<leftarrow> selectAllGroupsFromGroupFile w;
     w \<leftarrow> remove_all_loop glist currUser w;
     w \<leftarrow> updateGroupFile glist w;
     freeGroupList glist w
   }"

section \<open>Creating and modifying users\<close>

text \<open>An option of \<^verbatim>\<open>usermod\<close>, the empty string if it was not given.\<close>

type_synonym flag = string

definition home_path :: "string \<Rightarrow> string option" where
  "home_path dir = do { hd \<leftarrow> strcpy STRING_SIZE ''/home/''; strcat STRING_SIZE hd dir }"

definition createUser :: "string \<Rightarrow> string \<Rightarrow> string \<Rightarrow> string \<Rightarrow> accounts \<Rightarrow> (ptr \<times> accounts) option" where
  "createUser dir uidString rname uname w = do {
     let (newUser, w) = malloc_user w;
     (uid, w) \<leftarrow> choose_id isUidAvailable getNextAvailableUid uidString w;
     (case uid of
        None \<Rightarrow> Some (None, w)
      | Some uid \<Rightarrow> do {
          u \<leftarrow> deref (uheap w) newUser;
          w \<leftarrow> put_user newUser (u\<lparr>u_uid := uid\<rparr>) w;
          (gid, w) \<leftarrow> getNextAvailableGid w;
          hd \<leftarrow> home_path (if \<not> isEmptyString dir then dir else uname);
          u \<leftarrow> deref (uheap w) newUser;
          w \<leftarrow> put_user newUser (u\<lparr>u_gid := gid, homedir := hd\<rparr>) w;
          let (valid, w) = u_mkdir hd w;
          if valid = - 1 then Some (None, w)
          else do {
            let (_, w) = u_chown hd uid gid w;
            rn \<leftarrow> strcpy STRING_SIZE rname;
            un \<leftarrow> strcpy STRING_SIZE uname;
            u \<leftarrow> deref (uheap w) newUser;
            w \<leftarrow> put_user newUser (u\<lparr>realname := rn, username := un\<rparr>) w;
            Some (newUser, w)
          }
        })
   }"

text \<open>
  \<^verbatim>\<open>modifyUser\<close> works on a copy of the user; its steps give the changed copy, or \<open>None\<close> inside the pair where the code
  returns \<^verbatim>\<open>NULL\<close>.
\<close>

definition mod_username :: "string \<Rightarrow> user \<Rightarrow> accounts \<Rightarrow> (user option \<times> accounts) option" where
  "mod_username uname m w =
     (if \<not> isEmptyString uname then do {
        (other, w) \<leftarrow> getUserFromUsername uname w;
        if other = None then do { un \<leftarrow> strcpy STRING_SIZE uname; Some (Some (m\<lparr>username := un\<rparr>), w) }
        else Some (None, w)
      } else Some (Some m, w))"

definition mod_uid :: "string \<Rightarrow> user \<Rightarrow> accounts \<Rightarrow> (user option \<times> accounts) option" where
  "mod_uid uidString m w =
     (if \<not> isEmptyString uidString then
        let uid = atoi uidString in
        if uid = 0 then Some (None, w)
        else do {
          (free, w) \<leftarrow> isUidAvailable uid w;
          if free then Some (Some (m\<lparr>u_uid := uid\<rparr>), snd (u_updateDirOwner (homedir m) uid (u_gid m) w))
          else Some (None, w)
        }
      else Some (Some m, w))"

definition mod_groups :: "string \<Rightarrow> string \<Rightarrow> ptr \<Rightarrow> accounts \<Rightarrow> accounts option" where
  "mod_groups groups a currUser w =
     (if \<not> isEmptyString groups then do {
        w \<leftarrow> (if isEmptyString a then removeUserFromAllGroups currUser w else Some w);
        (groupsToAddUser, w) \<leftarrow> getMultipleGroupsFromString (groups @ [NUL]) w;
        addUserToGroups groupsToAddUser currUser w
      } else Some w)"

definition mod_homedir :: "string \<Rightarrow> user \<Rightarrow> accounts \<Rightarrow> (user option \<times> accounts) option" where
  "mod_homedir dir m w =
     (if \<not> isEmptyString dir then do {
        hd \<leftarrow> home_path dir;
        let (r, w) = u_mkdir hd w;
        if r = - 1 then Some (None, w)
        else
          let (valid, w) = u_chown hd (u_uid m) (u_gid m) w in
          Some (if valid < 0 then None else Some (m\<lparr>homedir := hd\<rparr>), w)
      } else Some (Some m, w))"

definition modifyUser :: "ptr \<Rightarrow> flag \<Rightarrow> flag \<Rightarrow> flag \<Rightarrow> flag \<Rightarrow> flag \<Rightarrow> flag \<Rightarrow> accounts \<Rightarrow>
    (ptr \<times> accounts) option" where
  "modifyUser currUser uname uidString rname dir groups a w = do {
     let (modUser, w) = malloc_user w;
     c \<leftarrow> deref (uheap w) currUser;
     let m = c\<lparr>u_next := None\<rparr>;
     (m, w) \<leftarrow> mod_username uname m w;
     (case m of
        None \<Rightarrow> Some (None, w)
      | Some m \<Rightarrow> do {
          (m, w) \<leftarrow> mod_uid uidString m w;
          (case m of
             None \<Rightarrow> Some (None, w)
           | Some m \<Rightarrow> do {
               rn \<leftarrow> (if \<not> isEmptyString rname then strcpy STRING_SIZE rname else Some (realname m));
               w \<leftarrow> mod_groups groups a currUser w;
               (m, w) \<leftarrow> mod_homedir dir (m\<lparr>realname := rn\<rparr>) w;
               (case m of
                  None \<Rightarrow> Some (None, w)
                | Some m \<Rightarrow> do { w \<leftarrow> put_user modUser m w; Some (modUser, w) })
             })
        })
   }"

end
