(* ===== verification/GroupFile.thy ===== *)
theory GroupFile
  imports UGroups
begin

text \<open>
  What the operations on groups do: members of a group, reading and writing of \<^verbatim>\<open>/etc/group\<close> beside \<^verbatim>\<open>/etc/passwd\<close>, free
  group ids and new users.
\<close>

interpretation group_nodes: nodes g_next set_g_next g_gid compareGroups
  by unfold_locales (auto simp: compareGroups_def)

section \<open>Adding a member\<close>

lemma cut_by:
  assumes "\<forall>x \<in> set xs. u_uid x \<le> k" "ys = [] \<or> k < u_uid (hd ys)"
  shows "takeWhile (\<lambda>u. u_uid u \<le> k) (map user_nodes.strip (xs @ ys)) = map user_nodes.strip xs"
    and "dropWhile (\<lambda>u. u_uid u \<le> k) (map user_nodes.strip (xs @ ys)) = map user_nodes.strip ys"
  using assms by (induction xs) (cases ys; auto)+

text \<open>
  One node that goes into two lists: the second insertion overwrites the link of the first one, and insertion into an empty
  list overwrites nothing.
\<close>

lemma insert_twice:
  assumes "nseg u_next h p1 as1 ns1 None" "nseg u_next h p2 as2 ns2 None" "distinct (as1 @ as2)" "c \<notin> set (as1 @ as2)"
    and m: "h c = Some m" "u_next m = None"
  obtains q1 q2 h1 h2 m1 bs1 bs2 ms1 ms2 where
    "insert_node u_next set_u_next compareUsers p1 (Some c) h = Some (q1, h1)"
    "nseg u_next h1 p2 as2 ns2 None" "h1 c = Some m1" "u_uid m1 = u_uid m"
    "insert_node u_next set_u_next compareUsers p2 (Some c) h1 = Some (q2, h2)"
    "nseg u_next h2 q1 bs1 ms1 None" "nseg u_next h2 q2 bs2 ms2 None"
    "map user_nodes.strip ms1 = takeWhile (\<lambda>u. u_uid u \<le> u_uid m) (map user_nodes.strip ns1) @ user_nodes.strip m #
       dropWhile (\<lambda>u. u_uid u \<le> u_uid m) (map user_nodes.strip (if ns2 = [] then ns1 else ns2))"
    "map user_nodes.strip ms2 = takeWhile (\<lambda>u. u_uid u \<le> u_uid m) (map user_nodes.strip ns2) @ user_nodes.strip m #
       dropWhile (\<lambda>u. u_uid u \<le> u_uid m) (map user_nodes.strip (if ns2 = [] then ns1 else ns2))"
proof -
  have pre: "distinct as1" "c \<notin> set as1" "as1 = [] \<longrightarrow> u_next m = None"
    using assms by auto
  obtain q1 h1 us ws xs xs' ys m1 where
    a: "insert_node u_next set_u_next compareUsers p1 (Some c) h = Some (q1, h1)"
    "as1 = us @ ws" "ns1 = xs @ ys" "length us = length xs" "length ws = length ys"
    "\<forall>x \<in> set xs. u_uid x \<le> u_uid m" "ys = [] \<or> u_uid m < u_uid (hd ys)"
    "nseg u_next h1 q1 us xs' (Some c)" "map user_nodes.strip xs' = map user_nodes.strip xs" "h1 c = Some m1"
    "user_nodes.strip m1 = user_nodes.strip m" "nseg u_next h1 (u_next m1) ws ys None"
    "\<forall>a. a \<notin> insert c (set us) \<longrightarrow> h1 a = h a"
    by (rule user_nodes.insert_node_split [OF assms(1) pre(1,2) m(1) pre(3)])
  have uid: "u_uid m1 = u_uid m"
    using arg_cong [OF a(11), of u_uid] by simp
  have cut1: "takeWhile (\<lambda>u. u_uid u \<le> u_uid m) (map user_nodes.strip ns1) = map user_nodes.strip xs"
    "dropWhile (\<lambda>u. u_uid u \<le> u_uid m) (map user_nodes.strip ns1) = map user_nodes.strip ys"
    using cut_by [OF a(6,7)] a(3) by simp_all
  have "h1 b = h b" if "b \<in> set as2" for b
    using that assms(3,4) a(2,13) by (auto simp: disjoint_iff)
  then have l2: "nseg u_next h1 p2 as2 ns2 None" "distinct as2" "c \<notin> set as2"
    using nseg_frame [OF assms(2), of h1] assms(3,4) by simp_all
  show ?thesis
  proof (cases "ns2 = []")
    case True
    then have "p2 = None"
      using assms(2) by (cases as2) auto
    moreover have "nseg u_next h1 q1 (us @ c # ws) (xs' @ m1 # ys) None"
      using a(8,10,12) nseg_append [OF nseg_length [OF a(8)], of u_next h1 q1 "c # ws" "m1 # ys" None] by auto
    moreover have "nseg u_next h1 (Some c) (c # ws) (m1 # ys) None"
      using a(10,12) by simp
    ultimately show ?thesis
      using that [OF a(1) l2(1) a(10) uid, of "Some c" h1 "us @ c # ws" "xs' @ m1 # ys" "c # ws" "m1 # ys"] a(9,11) cut1 True
      by (simp add: insert_node_def)
  next
    case False
    then have "as2 = [] \<longrightarrow> u_next m1 = None"
      using nseg_length [OF l2(1)] by auto
    then obtain q2 h2 us2 ws2 xs2 xs2' ys2 m2 where
      b: "insert_node u_next set_u_next compareUsers p2 (Some c) h1 = Some (q2, h2)"
      "as2 = us2 @ ws2" "ns2 = xs2 @ ys2" "length us2 = length xs2" "length ws2 = length ys2"
      "\<forall>x \<in> set xs2. u_uid x \<le> u_uid m1" "ys2 = [] \<or> u_uid m1 < u_uid (hd ys2)"
      "nseg u_next h2 q2 us2 xs2' (Some c)" "map user_nodes.strip xs2' = map user_nodes.strip xs2" "h2 c = Some m2"
      "user_nodes.strip m2 = user_nodes.strip m1" "nseg u_next h2 (u_next m2) ws2 ys2 None"
      "\<forall>a. a \<notin> insert c (set us2) \<longrightarrow> h2 a = h1 a"
      by (rule user_nodes.insert_node_split [OF l2 a(10)])
    have cut2: "takeWhile (\<lambda>u. u_uid u \<le> u_uid m) (map user_nodes.strip ns2) = map user_nodes.strip xs2"
      "dropWhile (\<lambda>u. u_uid u \<le> u_uid m) (map user_nodes.strip ns2) = map user_nodes.strip ys2"
      using cut_by [OF b(6,7)] b(3) uid by simp_all
    have "h2 d = h1 d" if "d \<in> set us" for d
      using that assms(3,4) a(2) b(2,13) by (auto simp: disjoint_iff)
    then have "nseg u_next h2 q1 us xs' (Some c)"
      by (rule nseg_frame [OF a(8)])
    then have "nseg u_next h2 q1 (us @ c # ws2) (xs' @ m2 # ys2) None"
      using b(10,12) nseg_append [OF nseg_length [OF a(8)], of u_next h2 q1 "c # ws2" "m2 # ys2" None] by auto
    moreover have "nseg u_next h2 q2 (us2 @ c # ws2) (xs2' @ m2 # ys2) None"
      using b(8,10,12) nseg_append [OF nseg_length [OF b(8)], of u_next h2 q2 "c # ws2" "m2 # ys2" None] by auto
    ultimately show ?thesis
      using that [OF a(1) l2(1) a(10) uid b(1)] a(9,11) b(9,11) cut1 cut2 False by simp
  qed
qed

text \<open>
  The loop of \<^verbatim>\<open>addUserToGroups\<close> on two groups that the user is to join.
\<close>

lemma not_a_member:
  assumes "nseg u_next (uheap w) (userList g) as ns None" "uheap w c = Some m" "\<forall>u \<in> set ns. u_uid u \<noteq> u_uid m"
  shows "isUserInGroup (Some c) g w = Some False"
proof -
  have "find (\<lambda>(a, n). compareUsers n m = 0) (zip as ns) = None"
    using assms(3) by (auto simp: find_None_iff compareUsers_def dest: set_zip_rightD)
  then show ?thesis
    using find_node_nseg [OF assms(1)] assms(2) by (simp add: isUserInGroup_def deref_def)
qed

text \<open>
  C36: joining two groups at once corrupts them.  When \<^verbatim>\<open>addUserToGroups\<close> adds a user to two groups, the same node goes
  into both lists of members, and both lists then end with the same tail: the first group gets the members of the second one
  with greater ids instead of its own, or, when the second group was empty, the second group gets those of the first.
\<close>

theorem two_groups_share_tail:
  assumes groups: "gheap w t1 = Some g1" "gheap w t2 = Some g2" "g_next g1 = Some t2"
    and asked: "gheap w r1 = Some k1" "gheap w r2 = Some k2" "g_next k1 = Some r2" "g_next k2 = None"
      "g_gid k1 = g_gid g1" "g_gid k2 = g_gid g2"
    and "distinct [t1, t2, r1, r2]"
    and members: "nseg u_next (uheap w) (userList g1) as1 ns1 None" "nseg u_next (uheap w) (userList g2) as2 ns2 None"
      "distinct (as1 @ as2)" "c \<notin> set (as1 @ as2)"
    and joins: "uheap w c = Some m" "u_next m = None" "\<forall>u \<in> set (ns1 @ ns2). u_uid u \<noteq> u_uid m"
  shows "\<exists>w' g1' g2' bs1 bs2 ms1 ms2. add_groups_loop (Some t1) (Some r1) (Some c) w = Some w' \<and>
    gheap w' t1 = Some g1' \<and> gheap w' t2 = Some g2' \<and>
    nseg u_next (uheap w') (userList g1') bs1 ms1 None \<and> nseg u_next (uheap w') (userList g2') bs2 ms2 None \<and>
    map user_nodes.strip ms1 = takeWhile (\<lambda>u. u_uid u \<le> u_uid m) (map user_nodes.strip ns1) @ user_nodes.strip m #
      dropWhile (\<lambda>u. u_uid u \<le> u_uid m) (map user_nodes.strip (if ns2 = [] then ns1 else ns2)) \<and>
    map user_nodes.strip ms2 = takeWhile (\<lambda>u. u_uid u \<le> u_uid m) (map user_nodes.strip ns2) @ user_nodes.strip m #
      dropWhile (\<lambda>u. u_uid u \<le> u_uid m) (map user_nodes.strip (if ns2 = [] then ns1 else ns2))"
proof -
  obtain q1 q2 h1 h2 m1 bs1 bs2 ms1 ms2 where ins:
    "insert_node u_next set_u_next compareUsers (userList g1) (Some c) (uheap w) = Some (q1, h1)"
    "nseg u_next h1 (userList g2) as2 ns2 None" "h1 c = Some m1" "u_uid m1 = u_uid m"
    "insert_node u_next set_u_next compareUsers (userList g2) (Some c) h1 = Some (q2, h2)"
    "nseg u_next h2 q1 bs1 ms1 None" "nseg u_next h2 q2 bs2 ms2 None"
    "map user_nodes.strip ms1 = takeWhile (\<lambda>u. u_uid u \<le> u_uid m) (map user_nodes.strip ns1) @ user_nodes.strip m #
       dropWhile (\<lambda>u. u_uid u \<le> u_uid m) (map user_nodes.strip (if ns2 = [] then ns1 else ns2))"
    "map user_nodes.strip ms2 = takeWhile (\<lambda>u. u_uid u \<le> u_uid m) (map user_nodes.strip ns2) @ user_nodes.strip m #
       dropWhile (\<lambda>u. u_uid u \<le> u_uid m) (map user_nodes.strip (if ns2 = [] then ns1 else ns2))"
    by (rule insert_twice [OF members joins(1,2)])
  let ?w1 = "w\<lparr>uheap := h1, gheap := (gheap w)(t1 \<mapsto> g1\<lparr>userList := q1\<rparr>)\<rparr>"
  let ?w2 = "?w1\<lparr>uheap := h2, gheap := (gheap ?w1)(t2 \<mapsto> g2\<lparr>userList := q2\<rparr>)\<rparr>"
  have m1: "isUserInGroup (Some c) g1 w = Some False"
    using joins(3) by (intro not_a_member [OF members(1) joins(1)]) simp
  have m2: "isUserInGroup (Some c) g2 ?w1 = Some False"
    using ins(2-4) joins(3) by (intro not_a_member [of ?w1 g2 as2 ns2 c m1]) auto
  have "add_groups_loop (g_next g2) None (Some c) ?w2 = Some ?w2"
    by (simp add: add_groups_loop.simps [of "g_next g2"])
  moreover have "add_groups_loop (Some t2) (Some r2) (Some c) ?w1 = add_groups_loop (g_next g2) None (Some c) ?w2"
    using m2 ins(5) groups asked assms(10)
    by (simp add: add_groups_loop.simps [of "Some t2"] deref_def compareGroups_def addUserToListSorted_def put_group_def store_def)
  moreover have "add_groups_loop (Some t1) (Some r1) (Some c) w = add_groups_loop (Some t2) (Some r2) (Some c) ?w1"
    using m1 ins(1) groups asked assms(10)
    by (simp add: add_groups_loop.simps [of "Some t1"] deref_def compareGroups_def addUserToListSorted_def put_group_def store_def)
  ultimately have "add_groups_loop (Some t1) (Some r1) (Some c) w = Some ?w2"
    by metis
  moreover have "gheap ?w2 t1 = Some (g1\<lparr>userList := q1\<rparr>)" "gheap ?w2 t2 = Some (g2\<lparr>userList := q2\<rparr>)"
    using assms(10) by simp_all
  moreover have "nseg u_next (uheap ?w2) (userList (g1\<lparr>userList := q1\<rparr>)) bs1 ms1 None"
    "nseg u_next (uheap ?w2) (userList (g2\<lparr>userList := q2\<rparr>)) bs2 ms2 None"
    using ins(6,7) by simp_all
  ultimately show ?thesis
    using ins(8,9) by blast
qed

text \<open>A system with the group \<open>staff\<close> of \<open>dmr\<close>, the group \<open>admin\<close> of \<open>root\<close> and \<open>bwk\<close>, and \<open>ken\<close>, who joins both.\<close>

definition joining_ken :: accounts where
  "joining_ken = (sample_world [] [] [0 \<mapsto> dmr_user, 1 \<mapsto> root_user\<lparr>u_next := Some 2\<rparr>, 2 \<mapsto> bwk_user, 3 \<mapsto> ken_user])
     \<lparr>gheap := [4 \<mapsto> \<lparr>groupname = ''staff'', g_gid = 50, userList = Some 0, g_next = Some 5\<rparr>,
                5 \<mapsto> \<lparr>groupname = ''admin'', g_gid = 60, userList = Some 1, g_next = None\<rparr>,
                6 \<mapsto> \<lparr>groupname = ''staff'', g_gid = 50, userList = None, g_next = Some 7\<rparr>,
                7 \<mapsto> \<lparr>groupname = ''admin'', g_gid = 60, userList = None, g_next = None\<rparr>]\<rparr>"

theorem two_groups_share_tail_witness:
  "\<exists>w' g bs ms. add_groups_loop (Some 4) (Some 6) (Some 3) joining_ken = Some w' \<and> gheap w' 4 = Some g \<and>
     nseg u_next (uheap w') (userList g) bs ms None \<and> map username ms = [''ken'', ''bwk'']"
proof -
  let ?g = "\<lambda>n k u q. \<lparr>groupname = n, g_gid = k, userList = u, g_next = q\<rparr>"
  let ?w = joining_ken
  note s = joining_ken_def sample_world_def dmr_user_def root_user_def bwk_user_def ken_user_def
  have "gheap ?w 4 = Some (?g ''staff'' 50 (Some 0) (Some 5))" "gheap ?w 5 = Some (?g ''admin'' 60 (Some 1) None)"
    "gheap ?w 6 = Some (?g ''staff'' 50 None (Some 7))" "gheap ?w 7 = Some (?g ''admin'' 60 None None)"
    by (simp_all add: s)
  moreover have "nseg u_next (uheap ?w) (Some 0) [0] [dmr_user] None"
    "nseg u_next (uheap ?w) (Some 1) [1, 2] [root_user\<lparr>u_next := Some 2\<rparr>, bwk_user] None"
    "uheap ?w 3 = Some ken_user" "u_next ken_user = None"
    "\<forall>u \<in> set ([dmr_user] @ [root_user\<lparr>u_next := Some 2\<rparr>, bwk_user]). u_uid u \<noteq> u_uid ken_user"
    by (simp_all add: s)
  ultimately obtain w' g1 g2 bs1 bs2 ms1 ms2 where
    *: "add_groups_loop (Some 4) (Some 6) (Some 3) ?w = Some w'" "gheap w' 4 = Some g1"
    "nseg u_next (uheap w') (userList g1) bs1 ms1 None"
    "map user_nodes.strip ms1 = takeWhile (\<lambda>u. u_uid u \<le> u_uid ken_user) (map user_nodes.strip [dmr_user]) @ user_nodes.strip ken_user #
      dropWhile (\<lambda>u. u_uid u \<le> u_uid ken_user)
        (map user_nodes.strip (if [root_user\<lparr>u_next := Some 2\<rparr>, bwk_user] = [] then [dmr_user] else [root_user\<lparr>u_next := Some 2\<rparr>, bwk_user]))"
    using two_groups_share_tail [of ?w 4 "?g ''staff'' 50 (Some 0) (Some 5)" 5 "?g ''admin'' 60 (Some 1) None"
        6 "?g ''staff'' 50 None (Some 7)" 7 "?g ''admin'' 60 None None" "[0]" "[dmr_user]" "[1, 2]"
        "[root_user\<lparr>u_next := Some 2\<rparr>, bwk_user]" 3 ken_user] by auto
  have "map username ms1 = map username (map user_nodes.strip ms1)"
    by (simp add: comp_def)
  also have "\<dots> = [''ken'', ''bwk'']"
    unfolding *(4) by (simp add: dmr_user_def root_user_def bwk_user_def ken_user_def)
  finally show ?thesis
    using *(1-3) by (intro exI conjI)
qed

section \<open>Removing a member\<close>

lemma remove_loop_null: "remove_loop c None w = None"
  by (simp add: remove_loop.simps [of c None] deref_def)

lemma remove_loop_Cons:
  assumes "uheap w a = Some n" "u_next n = Some b" "uheap w b = Some k" "uheap w c = Some m"
  shows "remove_loop (Some c) (Some a) w =
    (if u_uid k = u_uid m then remove_loop (Some c) (u_next k) (w\<lparr>uheap := (uheap w)(a \<mapsto> n\<lparr>u_next := u_next k\<rparr>)\<rparr>)
     else remove_loop (Some c) (Some b) w)"
  using assms by (simp add: remove_loop.simps [of "Some c" "Some a"] deref_def put_user_def store_def compareUsers_def)

lemma remove_loop_single:
  "uheap w a = Some n \<Longrightarrow> u_next n = None \<Longrightarrow> remove_loop (Some c) (Some a) w = Some w"
  by (simp add: remove_loop.simps [of "Some c" "Some a"] deref_def)

lemma remove_loop_none:
  assumes "nseg u_next (uheap w) (Some a) (a # as) (n # ns) None" "uheap w c = Some m" "\<forall>u \<in> set ns. u_uid u \<noteq> u_uid m"
  shows "remove_loop (Some c) (Some a) w = Some w"
  using assms
proof (induction as arbitrary: a n ns)
  case Nil
  then show ?case
    by (cases ns) (auto intro: remove_loop_single)
next
  case (Cons b bs)
  then show ?case
    by (cases ns) (auto simp: remove_loop_Cons [of w a n b])
qed

text \<open>The loop at a node in front of the user: the user is unlinked, and the loop goes on behind.\<close>

lemma remove_loop_hit:
  assumes "nseg u_next (uheap w) (Some a) (a # b # bs) (n # k # ks) None" "distinct (a # b # bs)" "uheap w c = Some m"
    and "c \<notin> set (a # b # bs)" "u_uid k = u_uid m" "\<forall>u \<in> set ks. u_uid u \<noteq> u_uid m"
  shows "remove_loop (Some c) (Some a) w =
    (if ks = [] then None else Some (w\<lparr>uheap := (uheap w)(a \<mapsto> n\<lparr>u_next := u_next k\<rparr>)\<rparr>))"
    and "nseg u_next ((uheap w)(a \<mapsto> n\<lparr>u_next := u_next k\<rparr>)) (Some a) (a # bs) (n\<lparr>u_next := u_next k\<rparr> # ks) None"
proof -
  let ?w = "w\<lparr>uheap := (uheap w)(a \<mapsto> n\<lparr>u_next := u_next k\<rparr>)\<rparr>"
  from assms(1) have b: "uheap w a = Some n" "u_next n = Some b" "uheap w b = Some k"
    "nseg u_next (uheap w) (u_next k) bs ks None"
    by auto
  then have tl: "nseg u_next (uheap ?w) (u_next k) bs ks None"
    using nseg_upd [OF b(4), of a] assms(2) by simp
  then show "nseg u_next ((uheap w)(a \<mapsto> n\<lparr>u_next := u_next k\<rparr>)) (Some a) (a # bs) (n\<lparr>u_next := u_next k\<rparr> # ks) None"
    by simp
  have step: "remove_loop (Some c) (Some a) w = remove_loop (Some c) (u_next k) ?w"
    using remove_loop_Cons [OF b(1-3) assms(3)] assms(5) by simp
  show "remove_loop (Some c) (Some a) w = (if ks = [] then None else Some ?w)"
  proof (cases ks)
    case Nil
    then have "u_next k = None"
      using b(4) by (cases bs) auto
    then show ?thesis
      using step Nil by (simp add: remove_loop_null)
  next
    case (Cons e es)
    then obtain d ds where bs: "bs = d # ds" "u_next k = Some d"
      using b(4) by (cases bs) auto
    have "remove_loop (Some c) (Some d) ?w = Some ?w"
      using tl assms(3,4,6) bs Cons by (intro remove_loop_none [of ?w d ds e es c m]) auto
    then show ?thesis
      using step Cons bs(2) by simp
  qed
qed

text \<open>The whole loop, behind a node that stays: it fails exactly when the user is the last one of the list.\<close>

definition removed :: "user \<Rightarrow> user heap \<Rightarrow> addr \<Rightarrow> addr list \<Rightarrow> user \<Rightarrow> user list \<Rightarrow> user heap \<Rightarrow> bool" where
  "removed m h a as n ns h' \<longleftrightarrow> (\<exists>as' n' ns'. nseg u_next h' (Some a) (a # as') (n' # ns') None \<and>
     user_nodes.strip n' = user_nodes.strip n \<and>
     map user_nodes.strip ns' = filter (\<lambda>u. u_uid u \<noteq> u_uid m) (map user_nodes.strip ns) \<and>
     (\<forall>b. b \<notin> set (a # as) \<longrightarrow> h' b = h b))"

lemma removed_Cons:
  assumes "removed m h b bs k ks h'" "h a = Some n" "u_next n = Some b" "distinct (a # b # bs)" "u_uid k \<noteq> u_uid m"
  shows "removed m h a (b # bs) n (k # ks) h'"
proof -
  obtain as' n' ns' where *: "nseg u_next h' (Some b) (b # as') (n' # ns') None" "user_nodes.strip n' = user_nodes.strip k"
    "map user_nodes.strip ns' = filter (\<lambda>u. u_uid u \<noteq> u_uid m) (map user_nodes.strip ks)"
    "\<forall>d. d \<notin> set (b # bs) \<longrightarrow> h' d = h d"
    using assms(1) by (auto simp: removed_def)
  then have "h' a = Some n"
    using assms(2,4) by auto
  then show ?thesis
    using * assms(3,5)
    by (auto simp: removed_def intro!: exI [of _ "b # as'"] exI [of _ n] exI [of _ "n' # ns'"])
qed

lemma removed_list:
  assumes "removed m h a bs n ms h'" "u_uid n \<noteq> u_uid m"
  shows "\<exists>as' ns'. nseg u_next h' (Some a) as' ns' None \<and>
    map user_nodes.strip ns' = filter (\<lambda>u. u_uid u \<noteq> u_uid m) (map user_nodes.strip (n # ms)) \<and>
    (\<forall>b. b \<notin> set (a # bs) \<longrightarrow> h' b = h b)"
proof -
  from assms(1) obtain as' n' ns' where "nseg u_next h' (Some a) (a # as') (n' # ns') None"
    "user_nodes.strip n' = user_nodes.strip n" "\<forall>b. b \<notin> set (a # bs) \<longrightarrow> h' b = h b"
    "map user_nodes.strip ns' = filter (\<lambda>u. u_uid u \<noteq> u_uid m) (map user_nodes.strip ms)"
    by (auto simp: removed_def)
  then show ?thesis
    using assms(2) by (intro exI [of _ "a # as'"] exI [of _ "n' # ns'"]) simp
qed

lemma remove_loop_nseg:
  assumes "nseg u_next (uheap w) (Some a) (a # as) (n # ns) None" "distinct (a # as)" "uheap w c = Some m" "c \<notin> set (a # as)"
    and "distinct (map u_uid ns)"
  shows "if ns \<noteq> [] \<and> u_uid (last ns) = u_uid m then remove_loop (Some c) (Some a) w = None
    else \<exists>h'. remove_loop (Some c) (Some a) w = Some (w\<lparr>uheap := h'\<rparr>) \<and> removed m (uheap w) a as n ns h'"
  using assms
proof (induction as arbitrary: a n ns)
  case Nil
  then have "ns = []" "remove_loop (Some c) (Some a) w = Some w"
    by (cases ns; auto intro: remove_loop_single)+
  with Nil.prems(1) show ?case
    by (auto simp: removed_def intro!: exI [of _ "uheap w"] exI [of _ "[]"] exI [of _ n])
next
  case (Cons b bs)
  then obtain k ks where ns: "ns = k # ks"
    by (cases ns) auto
  from Cons.prems(1) have b: "uheap w a = Some n" "u_next n = Some b" "uheap w b = Some k"
    "nseg u_next (uheap w) (Some b) (b # bs) (k # ks) None"
    by (auto simp: ns)
  show ?case
  proof (cases "u_uid k = u_uid m")
    case False
    have "if ks \<noteq> [] \<and> u_uid (last ks) = u_uid m then remove_loop (Some c) (Some b) w = None
      else \<exists>h'. remove_loop (Some c) (Some b) w = Some (w\<lparr>uheap := h'\<rparr>) \<and> removed m (uheap w) b bs k ks h'"
      using Cons.prems(2-5) by (intro Cons.IH [OF b(4)]) (auto simp: ns)
    then show ?thesis
      using remove_loop_Cons [OF b(1-3) Cons.prems(3)] removed_Cons [where h = "uheap w", OF _ b(1,2) Cons.prems(2) False] False
      by (auto simp: ns split: if_splits)
  next
    case True
    then have others: "\<forall>u \<in> set ks. u_uid u \<noteq> u_uid m"
      using Cons.prems(5) by (auto simp: ns) (metis imageI)
    note hit = remove_loop_hit [OF Cons.prems(1) [unfolded ns] Cons.prems(2-4) True others]
    have "removed m (uheap w) a (b # bs) n ns ((uheap w)(a \<mapsto> n\<lparr>u_next := u_next k\<rparr>))"
      unfolding removed_def using hit(2) others True
      by (intro exI [of _ bs] exI [of _ "n\<lparr>u_next := u_next k\<rparr>"] exI [of _ ks]) (simp add: ns filter_map comp_def)
    then show ?thesis
      using hit(1) others True by (auto simp: ns)
  qed
qed

text \<open>
  C31: removing a user from a group.  For a group that is not the user's own and whose members have different ids,
  \<^verbatim>\<open>removeUserFromCurrGroup\<close> takes exactly that user out of the list of members, except that it follows a null pointer
  when the user is the last of several members.
\<close>

theorem removeUserFromCurrGroup_correct:
  assumes "gheap w gp = Some g" "nseg u_next (uheap w) (userList g) as ns None" "distinct as" "distinct (map u_uid ns)"
    and "uheap w c = Some m" "c \<notin> set as" "strcmp (groupname g) (username m) \<noteq> 0"
  shows "if length ns > 1 \<and> u_uid (last ns) = u_uid m then removeUserFromCurrGroup (Some gp) (Some c) w = None
    else \<exists>p' h' as' ns'. removeUserFromCurrGroup (Some gp) (Some c) w = Some (p', w\<lparr>uheap := h'\<rparr>) \<and>
      nseg u_next h' p' as' ns' None \<and>
      map user_nodes.strip ns' = filter (\<lambda>u. u_uid u \<noteq> u_uid m) (map user_nodes.strip ns) \<and>
      (\<forall>b. b \<notin> set as \<longrightarrow> h' b = uheap w b)"
proof (cases ns)
  case Nil
  then have "userList g = None"
    using assms(2) by (cases as) auto
  then show ?thesis
    using Nil assms(1) by (auto simp: removeUserFromCurrGroup_def deref_def intro!: exI [of _ "uheap w"] exI [of _ "[]"])
next
  case (Cons n ms)
  with assms(2) obtain a bs where as: "as = a # bs" "userList g = Some a" "uheap w a = Some n"
    "nseg u_next (uheap w) (u_next n) bs ms None"
    by (cases as) auto
  have call: "removeUserFromCurrGroup (Some gp) (Some c) w =
    (if u_uid n = u_uid m then Some (u_next n, w)
     else do { w \<leftarrow> remove_loop (Some c) (Some a) w; Some (Some a, w) })"
    using assms(1,5,7) as by (simp add: removeUserFromCurrGroup_def deref_def compareUsers_def)
  show ?thesis
  proof (cases "u_uid n = u_uid m")
    case True
    then have "\<forall>u \<in> set ms. u_uid u \<noteq> u_uid m"
      using assms(4) by (auto simp: Cons) (metis imageI)
    then have "map user_nodes.strip ms = filter (\<lambda>u. u_uid u \<noteq> u_uid m) (map user_nodes.strip ns)"
      "\<not> (length ns > 1 \<and> u_uid (last ns) = u_uid m)"
      using True by (auto simp: Cons filter_map comp_def)
    moreover have "removeUserFromCurrGroup (Some gp) (Some c) w = Some (u_next n, w\<lparr>uheap := uheap w\<rparr>)"
      using call True by simp
    ultimately show ?thesis
      using as(4) by (simp only: if_False) blast
  next
    case False
    have "if ms \<noteq> [] \<and> u_uid (last ms) = u_uid m then remove_loop (Some c) (Some a) w = None
      else \<exists>h'. remove_loop (Some c) (Some a) w = Some (w\<lparr>uheap := h'\<rparr>) \<and> removed m (uheap w) a bs n ms h'"
      using assms(2-6) as by (intro remove_loop_nseg) (auto simp: Cons)
    moreover have "length ns > 1 \<and> u_uid (last ns) = u_uid m \<longleftrightarrow> ms \<noteq> [] \<and> u_uid (last ms) = u_uid m"
      using False by (auto simp: Cons)
    ultimately consider "length ns > 1 \<and> u_uid (last ns) = u_uid m" "remove_loop (Some c) (Some a) w = None"
      | h' where "\<not> (length ns > 1 \<and> u_uid (last ns) = u_uid m)"
        "remove_loop (Some c) (Some a) w = Some (w\<lparr>uheap := h'\<rparr>)" "removed m (uheap w) a bs n ms h'"
      by (metis (full_types))
    then show ?thesis
    proof cases
      case 1
      then show ?thesis
        using call False by simp
    next
      case (2 h')
      then have "removeUserFromCurrGroup (Some gp) (Some c) w = Some (Some a, w\<lparr>uheap := h'\<rparr>)"
        using call False by simp
      with removed_list [OF 2(3) False, folded Cons as(1)] show ?thesis
        by (subst if_not_P [OF 2(1)]) blast
    qed
  qed
qed

theorem removeUserFromCurrGroup_correct_witness:
  "removeUserFromCurrGroup (Some 5) (Some 3) (joining_ken\<lparr>uheap := (uheap joining_ken)(3 \<mapsto> bwk_user)\<rparr>) = None \<and>
   (\<exists>p h as ns. removeUserFromCurrGroup (Some 5) (Some 3) (joining_ken\<lparr>uheap := (uheap joining_ken)(3 \<mapsto> root_user)\<rparr>) =
      Some (p, joining_ken\<lparr>uheap := h\<rparr>) \<and> nseg u_next h p as ns None \<and> map username ns = [''bwk''])"
proof -
  let ?w = "\<lambda>u. joining_ken\<lparr>uheap := (uheap joining_ken)(3 \<mapsto> u)\<rparr>"
  let ?g = "\<lparr>groupname = ''admin'', g_gid = 60, userList = Some 1, g_next = None\<rparr>"
  let ?ns = "[root_user\<lparr>u_next := Some 2\<rparr>, bwk_user]"
  note s = joining_ken_def sample_world_def root_user_def bwk_user_def
  have w: "gheap (?w u) 5 = Some ?g" "nseg u_next (uheap (?w u)) (userList ?g) [1, 2] ?ns None"
    "distinct [1, 2 :: addr]" "distinct (map u_uid ?ns)" "uheap (?w u) 3 = Some u" "3 \<notin> set [1, 2 :: addr]" for u
    by (simp_all add: s)
  have n: "strcmp (groupname ?g) (username bwk_user) \<noteq> 0" "strcmp (groupname ?g) (username root_user) \<noteq> 0"
    by (simp_all add: bwk_user_def root_user_def)
  have "removeUserFromCurrGroup (Some 5) (Some 3) (?w bwk_user) = None"
    using removeUserFromCurrGroup_correct [OF w n(1)] by simp
  moreover have "\<not> (length ?ns > 1 \<and> u_uid (last ?ns) = u_uid root_user)"
    by (simp add: bwk_user_def root_user_def)
  with removeUserFromCurrGroup_correct [OF w n(2)] obtain p h as ns where
    *: "removeUserFromCurrGroup (Some 5) (Some 3) (?w root_user) = Some (p, (?w root_user)\<lparr>uheap := h\<rparr>)"
    "nseg u_next h p as ns None"
    "map user_nodes.strip ns = filter (\<lambda>u. u_uid u \<noteq> u_uid root_user) (map user_nodes.strip ?ns)"
    by (simp only: if_False) blast
  have "map username (map user_nodes.strip ns) = [''bwk'']"
    unfolding *(3) by (simp add: bwk_user_def root_user_def)
  then have "map username ns = [''bwk'']"
    by (simp add: comp_def)
  moreover have "removeUserFromCurrGroup (Some 5) (Some 3) (?w root_user) = Some (p, joining_ken\<lparr>uheap := h\<rparr>)"
    using *(1) by simp
  ultimately show ?thesis
    using *(2) by (intro conjI exI)
qed

section \<open>Reading a group\<close>

definition lookup_user :: "user list \<Rightarrow> string \<Rightarrow> user option" where
  "lookup_user us n = find (\<lambda>u. username u = n) (sort_key u_uid us)"

text \<open>The users that a list of names stands for: names that no user has are dropped.\<close>

definition resolve :: "user list \<Rightarrow> string list \<Rightarrow> user list" where
  "resolve us ms = List.map_filter (lookup_user us) ms"

lemma resolve_Cons: "resolve us (n # ns) = (case lookup_user us n of None \<Rightarrow> resolve us ns | Some u \<Rightarrow> u # resolve us ns)"
  by (simp add: resolve_def map_filter_simps split: option.split)

lemma find_cong_on: "(\<And>x. x \<in> set xs \<Longrightarrow> P x = Q x) \<Longrightarrow> find P xs = find Q xs"
  by (induction xs) auto


lemma get_user:
  assumes "passwd_file w us" "heap_ok w" "NUL \<notin> set n"
  shows "(\<exists>h a u. getUserFromUsername n w = Some (Some a, w\<lparr>uheap := h, brk := brk w + length us\<rparr>) \<and>
      brk w \<le> a \<and> h a = Some u \<and> u_next u = None \<and> lookup_user us n = Some u \<and>
      (\<forall>b < brk w. h b = uheap w b) \<and> dom h \<subseteq> {..<brk w + length us}) \<or>
    getUserFromUsername n w = Some (None, w\<lparr>brk := brk w + length us\<rparr>) \<and> lookup_user us n = None"
proof -
  let ?test = "\<lambda>u. strcmp (username u) n = 0"
  have "find ?test (sort_key u_uid us) = lookup_user us n"
    unfolding lookup_user_def using assms(1,3)
    by (intro find_cong_on) (auto simp: strcmp_eq_0 passwd_file_def user_ok_def plain_def)
  moreover obtain p h as ns where
    *: "selectAllUsersFromPasswdFile w = Some (p, w\<lparr>uheap := h, brk := brk w + length us\<rparr>)"
    "nseg u_next h p as ns None" "distinct as" "set as = {brk w..<brk w + length us}"
    "map user_nodes.strip ns = sort_key u_uid us" "\<forall>a. a \<notin> set as \<longrightarrow> h a = uheap w a"
    "find_node u_next ?test h p = Some None \<and> find ?test (sort_key u_uid us) = None \<or>
     (\<exists>a u. find_node u_next ?test h p = Some (Some a) \<and> a \<in> set as \<and> h a = Some u \<and>
       find ?test (sort_key u_uid us) = Some (user_nodes.strip u))"
    by (rule search_users [OF assms(1), of ?test]) simp_all
  ultimately consider "find_node u_next ?test h p = Some None" "lookup_user us n = None"
    | a u where "find_node u_next ?test h p = Some (Some a)" "a \<in> set as" "h a = Some u"
      "lookup_user us n = Some (user_nodes.strip u)"
    by auto
  then show ?thesis
  proof cases
    case 1
    have "freeUserList p (w\<lparr>uheap := h, brk := brk w + length us\<rparr>) = Some (w\<lparr>brk := brk w + length us\<rparr>)"
      using free_fresh_users [OF *(2-4,6)] assms(2) by (simp add: heap_ok_def)
    with 1 show ?thesis
      by (simp add: getUserFromUsername_def *(1) detach_user_def)
  next
    case (2 a u)
    let ?h = "h(a \<mapsto> user_nodes.strip u)"
    have "getUserFromUsername n w = Some (Some a, w\<lparr>uheap := ?h, brk := brk w + length us\<rparr>)"
      using 2 by (simp add: getUserFromUsername_def *(1) detach_user_def deref_def put_user_def store_def)
    moreover have "\<forall>b < brk w. ?h b = uheap w b" "brk w \<le> a"
      using *(4,6) 2(2) by auto
    moreover have "dom ?h \<subseteq> {..<brk w + length us}"
    proof
      fix b assume "b \<in> dom ?h"
      then show "b \<in> {..<brk w + length us}"
        using *(4,6) 2(2) assms(2) by (cases "b \<in> set as") (force simp: heap_ok_def dom_def split: if_splits)+
    qed
    ultimately show ?thesis
      using 2(4) by (intro disjI1 exI [of _ ?h] exI [of _ a] exI [of _ "user_nodes.strip u"]) simp
  qed
qed

fun commas :: "string list \<Rightarrow> string" where
  "commas [] = []"
| "commas [n] = n"
| "commas (n # ns) = n @ CHR '','' # commas ns"

definition member_name :: "string \<Rightarrow> bool" where
  "member_name n \<longleftrightarrow> length n < STRING_SIZE \<and> NUL \<notin> set n \<and> CHR '','' \<notin> set n"

lemma passwd_file_frame [simp]:
  "passwd_file (w\<lparr>uheap := h\<rparr>) = passwd_file w" "passwd_file (w\<lparr>gheap := k\<rparr>) = passwd_file w"
  "passwd_file (w\<lparr>brk := b\<rparr>) = passwd_file w" "passwd_file (w\<lparr>strtok2_sp := q\<rparr>) = passwd_file w"
  by (simp_all add: fun_eq_iff passwd_file_def file_text_def free_fds_def)

text \<open>Looking one name up and adding the user, if there is one, to a list.\<close>

lemma add_member:
  assumes "passwd_file w us" "heap_ok w" "NUL \<notin> set n"
    and "nseg u_next (uheap w) p as ns None" "distinct as" "set as \<subseteq> {..<brk w}"
  obtains c h0 p' h as' ns' where
    "getUserFromUsername n w = Some (c, w\<lparr>uheap := h0, brk := brk w + length us\<rparr>)"
    "addUserToListSorted p c (w\<lparr>uheap := h0, brk := brk w + length us\<rparr>) = Some (p', w\<lparr>uheap := h, brk := brk w + length us\<rparr>)"
    "nseg u_next h p' as' ns' None" "distinct as'" "set as' \<subseteq> set as \<union> {brk w..<brk w + length us}"
    "map user_nodes.strip ns' =
      foldl (\<lambda>acc u. insert_by u_uid u acc) (map user_nodes.strip ns) (resolve us [n])"
    "\<forall>b < brk w. b \<notin> set as \<longrightarrow> h b = uheap w b" "dom h \<subseteq> {..<brk w + length us}"
  using get_user [OF assms(1-3)]
proof (elim disjE exE conjE)
  fix h a u
  assume got: "getUserFromUsername n w = Some (Some a, w\<lparr>uheap := h, brk := brk w + length us\<rparr>)"
    "brk w \<le> a" "h a = Some u" "u_next u = None" "lookup_user us n = Some u" "\<forall>b < brk w. h b = uheap w b"
    "dom h \<subseteq> {..<brk w + length us}"
  have "nseg u_next h p as ns None"
    using assms(6) got(6) by (intro nseg_frame [OF assms(4)]) auto
  moreover have "a \<notin> set as"
    using assms(6) got(2) by auto
  ultimately obtain p' h' as' ns' where ins: "insert_node u_next set_u_next compareUsers p (Some a) h = Some (p', h')"
    "nseg u_next h' p' as' ns' None" "distinct as'" "set as' = insert a (set as)"
    "map user_nodes.strip ns' = insert_by u_uid (user_nodes.strip u) (map user_nodes.strip ns)"
    "\<forall>b. b \<notin> set as' \<longrightarrow> h' b = h b"
    using user_nodes.insert_node_list [of h p as ns a u] assms(5) got(3,4) by blast
  have "a < brk w + length us"
    using got(3,7) by auto
  moreover have "user_nodes.strip u = u"
    using got(4) by simp
  then have "map user_nodes.strip ns' = insert_by u_uid u (map user_nodes.strip ns)"
    using ins(5) by (simp only:)
  moreover have "dom h' \<subseteq> {..<brk w + length us}"
  proof
    fix b assume "b \<in> dom h'"
    then show "b \<in> {..<brk w + length us}"
      using ins(4,6) assms(6) got(7) \<open>a < brk w + length us\<close> by (cases "b \<in> set as'") (force simp: dom_def)+
  qed
  moreover have "\<forall>b < brk w. b \<notin> set as \<longrightarrow> h' b = uheap w b"
    using ins(4,6) got(2,6) by auto
  moreover have "resolve us [n] = [u]"
    using got(5) by (simp add: resolve_def map_filter_simps)
  ultimately show thesis
    using got(1,2,5) ins(1-4) by (intro that [of "Some a" h p' h' as' ns']) (auto simp: addUserToListSorted_def)
next
  assume "getUserFromUsername n w = Some (None, w\<lparr>brk := brk w + length us\<rparr>)" "lookup_user us n = None"
  moreover have "dom (uheap w) \<subseteq> {..<brk w + length us}"
    using assms(2) by (auto simp: heap_ok_def)
  moreover have "resolve us [n] = []"
    using \<open>lookup_user us n = None\<close> by (simp add: resolve_def map_filter_simps)
  ultimately show thesis
    using assms(4,5) by (intro that [of None "uheap w" p "uheap w" as ns]) (auto simp: addUserToListSorted_def)
qed

lemma resolve_append: "resolve us (ms @ ns) = resolve us ms @ resolve us ns"
  by (simp add: resolve_def List.map_filter_def)

lemma nth_behind:
  assumes "drop pnt s = f @ c # r"
  shows "s ! (length f + pnt) = c"
proof -
  have "pnt \<le> length s"
    using assms by (cases "pnt \<le> length s") simp_all
  then have "s ! (length f + pnt) = drop pnt s ! length f"
    by (simp add: add.commute)
  then show ?thesis
    by (simp add: assms)
qed

text \<open>A world with other nodes on its heaps.\<close>

definition grown :: "accounts \<Rightarrow> user heap \<Rightarrow> group heap \<Rightarrow> nat \<Rightarrow> accounts" where
  "grown w h k b = w\<lparr>uheap := h, gheap := k, brk := b\<rparr>"

lemma grown_simps [simp]:
  "uheap (grown w h k b) = h" "gheap (grown w h k b) = k" "brk (grown w h k b) = b"
  "grown (grown w h k b) h' k' b' = grown w h' k' b'" "passwd_file (grown w h k b) = passwd_file w"
  "(grown w h k b)\<lparr>uheap := h'\<rparr> = grown w h' k b" "(grown w h k b)\<lparr>gheap := k'\<rparr> = grown w h k' b"
  "strtok2_sp (grown w h k b) = strtok2_sp w" "fds (grown w h k b) = fds w"
  "(grown w h k b)\<lparr>strtok2_sp := q\<rparr> = grown (w\<lparr>strtok2_sp := q\<rparr>) h k b"
  "fresh_group (grown w h k b) = fresh_group w" "(grown w h k b)\<lparr>brk := b'\<rparr> = grown w h k b'"
  "names (grown w h k b) = names w" "denied (grown w h k b) = denied w" "proc_uid (grown w h k b) = proc_uid w"
  "events (grown w h k b) = events w"
  by (simp_all add: grown_def)

lemma grown_fold: "w\<lparr>uheap := h, brk := b\<rparr> = grown w h (gheap w) b" "grown w (uheap w) (gheap w) (brk w) = w"
  "w\<lparr>gheap := k, brk := b\<rparr> = grown w (uheap w) k b"
  by (simp_all add: grown_def)

lemma heap_ok_grown [simp]: "heap_ok (grown w h k b) \<longleftrightarrow> dom h \<subseteq> {..<b} \<and> dom k \<subseteq> {..<b}"
  by (simp add: heap_ok_def)

text \<open>The list at \<open>p\<close> grew by the users that \<open>ms\<close> names, in nodes of its own.\<close>

definition joined :: "user list \<Rightarrow> string list \<Rightarrow> accounts \<Rightarrow> addr list \<Rightarrow> user list \<Rightarrow> ptr \<Rightarrow> user heap \<Rightarrow> nat \<Rightarrow> bool" where
  "joined us ms w as ns p h b \<longleftrightarrow> (\<exists>as' ns'. nseg u_next h p as' ns' None \<and> distinct as' \<and>
     set as' \<subseteq> set as \<union> {brk w..<b} \<and>
     map user_nodes.strip ns' = foldl (\<lambda>acc u. insert_by u_uid u acc) (map user_nodes.strip ns) (resolve us ms)) \<and>
     (\<forall>a < brk w. a \<notin> set as \<longrightarrow> h a = uheap w a) \<and> dom h \<subseteq> {..<b} \<and> brk w \<le> b"

lemma joined_step:
  assumes "nseg u_next h1 p1 as1 ns1 None" "set as1 \<subseteq> set as \<union> {brk w..<b1}" "brk w \<le> b1"
    and "map user_nodes.strip ns1 = foldl (\<lambda>acc u. insert_by u_uid u acc) (map user_nodes.strip ns) (resolve us [n])"
    and "\<forall>a < brk w. a \<notin> set as \<longrightarrow> h1 a = uheap w a"
    and "joined us ms (grown w h1 k b1) as1 ns1 p h b"
  shows "joined us (n # ms) w as ns p h b"
proof -
  obtain as' ns' where *: "nseg u_next h p as' ns' None" "distinct as'" "set as' \<subseteq> set as1 \<union> {b1..<b}"
    "map user_nodes.strip ns' = foldl (\<lambda>acc u. insert_by u_uid u acc) (map user_nodes.strip ns1) (resolve us ms)"
    "\<forall>a < b1. a \<notin> set as1 \<longrightarrow> h a = h1 a" "dom h \<subseteq> {..<b}" "b1 \<le> b"
    using assms(6) by (auto simp: joined_def)
  have "map user_nodes.strip ns' = foldl (\<lambda>acc u. insert_by u_uid u acc) (map user_nodes.strip ns) (resolve us (n # ms))"
    using *(4) assms(4) resolve_append [of us "[n]" ms] by simp
  moreover have "\<forall>a < brk w. a \<notin> set as \<longrightarrow> h a = uheap w a"
  proof (intro allI impI)
    fix a assume a: "a < brk w" "a \<notin> set as"
    then have "a \<notin> set as1"
      using assms(2) by force
    then show "h a = uheap w a"
      using *(5) assms(3,5) a by simp
  qed
  moreover have "set as' \<subseteq> set as \<union> {brk w..<b}"
    using *(3,7) assms(2,3) by fastforce
  ultimately show ?thesis
    using *(1,2,6,7) assms(3) unfolding joined_def by (metis le_trans)
qed

lemma members_loop_names:
  assumes "passwd_file w us" "heap_ok w" "drop pnt s = commas ms @ NUL # rest" "ms \<noteq> []" "\<forall>n \<in> set ms. member_name n"
    and "gheap w gp = Some g" "nseg u_next (uheap w) (userList g) as ns None" "distinct as" "set as \<subseteq> {..<brk w}"
  shows "\<exists>p h b. members_loop s pnt (Some gp) w = Some (grown w h ((gheap w)(gp \<mapsto> g\<lparr>userList := p\<rparr>)) b) \<and>
    joined us ms w as ns p h b"
  using assms
proof (induction ms arbitrary: pnt w g as ns)
  case (Cons n ms)
  define c where "c = (if ms = [] then NUL else CHR '','')"
  define r where "r = (if ms = [] then rest else commas ms @ NUL # rest)"
  have tx: "drop pnt s = n @ c # r"
    using Cons.prems(3) by (cases ms) (simp_all add: c_def r_def)
  have n: "length n < STRING_SIZE" "NUL \<notin> set n" "CHR '','' \<notin> set n"
    using Cons.prems(5) by (auto simp: member_name_def)
  have fld: "field (CHR '','') s pnt = Some n" "drop (pnt + length n + 1) s = r"
    using field_run [OF tx n(3,2) _ n(1)] by (auto simp: c_def)
  let ?b = "brk w + length us"
  obtain cu h0 p1 h1 as1 ns1 where add:
    "getUserFromUsername n w = Some (cu, w\<lparr>uheap := h0, brk := ?b\<rparr>)"
    "addUserToListSorted (userList g) cu (w\<lparr>uheap := h0, brk := ?b\<rparr>) = Some (p1, w\<lparr>uheap := h1, brk := ?b\<rparr>)"
    "nseg u_next h1 p1 as1 ns1 None" "distinct as1" "set as1 \<subseteq> set as \<union> {brk w..<?b}"
    "map user_nodes.strip ns1 = foldl (\<lambda>acc u. insert_by u_uid u acc) (map user_nodes.strip ns) (resolve us [n])"
    "\<forall>b < brk w. b \<notin> set as \<longrightarrow> h1 b = uheap w b" "dom h1 \<subseteq> {..<?b}"
    by (rule add_member [OF Cons.prems(1,2) n(2) Cons.prems(7-9)])
  let ?k = "(gheap w)(gp \<mapsto> g\<lparr>userList := p1\<rparr>)"
  let ?w1 = "grown w h1 ?k ?b"
  have step: "members_loop s pnt (Some gp) w =
      (if ms = [] then Some ?w1 else members_loop s (pnt + length n + 1) (Some gp) ?w1)"
    using Cons.prems(6) fld(1) nth_behind [OF tx] add(1,2)
    by (subst members_loop.simps) (auto simp: deref_def put_group_def store_def c_def NUL_def grown_fold)
  show ?case
  proof (cases "ms = []")
    case True
    moreover have "joined us [n] w as ns p1 h1 ?b"
      using add(3-8) by (auto simp: joined_def)
    ultimately show ?thesis
      using step by (metis (full_types))
  next
    case False
    have "heap_ok ?w1"
      using Cons.prems(2,6) add(8) by (auto simp: heap_ok_def)
    moreover have "drop (pnt + length n + 1) s = commas ms @ NUL # rest"
      using fld(2) False by (simp add: r_def)
    moreover have "set as1 \<subseteq> {..<brk ?w1}"
      using add(5) Cons.prems(9) by fastforce
    moreover have "passwd_file ?w1 us" "\<forall>n \<in> set ms. member_name n" "gheap ?w1 gp = Some (g\<lparr>userList := p1\<rparr>)"
      "nseg u_next (uheap ?w1) (userList (g\<lparr>userList := p1\<rparr>)) as1 ns1 None"
      using Cons.prems(1,5) add(3) by simp_all
    ultimately obtain p h b where IH: "members_loop s (pnt + length n + 1) (Some gp) ?w1 =
        Some (grown ?w1 h ((gheap ?w1)(gp \<mapsto> (g\<lparr>userList := p1\<rparr>)\<lparr>userList := p\<rparr>)) b)" "joined us ms ?w1 as1 ns1 p h b"
      using Cons.IH [OF _ _ _ False] add(4) by blast
    have "joined us (n # ms) w as ns p h b"
      using joined_step [OF add(3,5) _ add(6,7) IH(2)] by simp
    moreover have "members_loop s pnt (Some gp) w = Some (grown w h ((gheap w)(gp \<mapsto> g\<lparr>userList := p\<rparr>)) b)"
      using step False IH(1) by simp
    ultimately show ?thesis
      by blast
  qed
qed simp

text \<open>A group as a line of the file describes it: its name, its id, and the names of its members.\<close>

type_synonym group_desc = "string \<times> int \<times> string list"

fun group_line :: "group_desc \<Rightarrow> string" where
  "group_line (n, gid, ms) = n @ CHR '':'' # itoa gid [] 10 @ CHR '':'' # commas ms"

fun group_ok :: "group_desc \<Rightarrow> bool" where
  "group_ok (n, gid, ms) \<longleftrightarrow> plain n \<and> 0 \<le> gid \<and> gid < 2 ^ 31 \<and>
     (\<forall>m \<in> set ms. member_name m \<and> m \<noteq> [] \<and> CHR 0x0A \<notin> set m) \<and>
     length (group_line (n, gid, ms)) + 1 < STRING_SIZE * 16"

text \<open>What the parser makes of it: a node with the name and the id, and a list of the users that the names stand for.\<close>

fun reads_as :: "user list \<Rightarrow> user heap \<Rightarrow> nat \<Rightarrow> group \<Rightarrow> group_desc \<Rightarrow> bool" where
  "reads_as us h b g (n, gid, ms) \<longleftrightarrow> groupname g = n \<and> g_gid g = gid \<and>
     (\<exists>as ns. nseg u_next h (userList g) as ns None \<and> distinct as \<and> set as \<subseteq> {..<b} \<and>
        map user_nodes.strip ns = sort_key u_uid (resolve us ms))"

lemma reads_as_mono:
  assumes "reads_as us h b g d" "\<forall>a < b. h' a = h a" "b \<le> b'"
  shows "reads_as us h' b' g d"
proof -
  obtain n gid ms where d: "d = (n, gid, ms)"
    by (cases d)
  with assms(1) obtain as ns where *: "nseg u_next h (userList g) as ns None" "distinct as" "set as \<subseteq> {..<b}"
    "map user_nodes.strip ns = sort_key u_uid (resolve us ms)" "groupname g = n" "g_gid g = gid"
    by auto
  have "nseg u_next h' (userList g) as ns None"
    using *(3) assms(2) by (intro nseg_frame [OF *(1)]) auto
  then show ?thesis
    using * assms(3) d by fastforce
qed

lemma parse_head:
  assumes "plain n" "0 \<le> gid" "gid < 2 ^ 31" "s = n @ CHR '':'' # itoa gid [] 10 @ CHR '':'' # rest"
  obtains q where "parse_fields 2 s 0 = Some ([n, itoa gid [] 10], q)" "drop q s = rest"
proof -
  have "\<forall>f \<in> set [n]. plain f" "plain (itoa gid [] 10)"
    using assms(1) itoa_plain [OF assms(2,3)] by simp_all
  from parse_fields_run [OF this, of "CHR '':''" 0 s rest] that show ?thesis
    using assms(4) by (auto simp: eval_nat_numeral)
qed

lemma commas_empty: "commas (if ms = [] then [[]] else ms) = commas ms"
  by simp

lemma get_group:
  assumes "passwd_file w us" "heap_ok w" "group_ok (n, gid, ms)" "\<forall>u \<in> set us. username u \<noteq> []"
  shows "\<exists>p h b. getGroupFromString (group_line (n, gid, ms) @ NUL # rest) w = Some (Some (brk w), grown w h
      ((gheap w)(brk w \<mapsto> \<lparr>groupname = n, g_gid = gid, userList = p, g_next = None\<rparr>)) b) \<and>
    reads_as us h b \<lparr>groupname = n, g_gid = gid, userList = p, g_next = None\<rparr> (n, gid, ms) \<and>
    (\<forall>a < brk w. h a = uheap w a) \<and> dom h \<subseteq> {..<b} \<and> brk w < b"
proof -
  let ?ms = "if ms = [] then [[]] else ms"
  let ?s = "group_line (n, gid, ms) @ NUL # rest"
  have ok: "plain n" "0 \<le> gid" "gid < 2 ^ 31" "\<forall>m \<in> set ?ms. member_name m"
    using assms(3) by (auto simp: member_name_def STRING_SIZE_def)
  obtain q where q: "parse_fields 2 ?s 0 = Some ([n, itoa gid [] 10], q)" "drop q ?s = commas ms @ NUL # rest"
    by (rule parse_head [OF ok(1-3), of ?s "commas ms @ NUL # rest"]) simp_all
  let ?g = "(fresh_group w (brk w))\<lparr>groupname := n, g_gid := gid, userList := None\<rparr>"
  let ?w1 = "grown w (uheap w) ((gheap w)(brk w \<mapsto> ?g)) (Suc (brk w))"
  have "heap_ok ?w1" "passwd_file ?w1 us" "gheap ?w1 (brk w) = Some ?g"
    "nseg u_next (uheap ?w1) (userList ?g) [] [] None"
    using assms(1,2) by (auto simp: heap_ok_def)
  moreover have "drop q ?s = commas ?ms @ NUL # rest" "?ms \<noteq> []"
    using q(2) commas_empty by simp_all
  ultimately obtain p h b where loop:
    "members_loop ?s q (Some (brk w)) ?w1 = Some (grown ?w1 h ((gheap ?w1)(brk w \<mapsto> ?g\<lparr>userList := p\<rparr>)) b)"
    "joined us ?ms ?w1 [] [] p h b"
    using members_loop_names [of ?w1 us q ?s ?ms rest "brk w" ?g "[]" "[]"] ok(4) by auto
  have "lookup_user us [] = None"
    using assms(4) by (auto simp: lookup_user_def find_None_iff)
  then have "resolve us ?ms = resolve us ms"
    by (simp add: resolve_def map_filter_simps)
  then obtain as ns where list: "nseg u_next h p as ns None" "distinct as" "set as \<subseteq> {Suc (brk w)..<b}"
    "map user_nodes.strip ns = sort_key u_uid (resolve us ms)"
    "\<forall>a < Suc (brk w). h a = uheap w a" "dom h \<subseteq> {..<b}" "Suc (brk w) \<le> b"
    using loop(2) by (auto simp: joined_def foldl_insert_by)
  let ?k = "\<lparr>groupname = n, g_gid = gid, userList = p, g_next = None\<rparr>"
  have k: "(fresh_group w (brk w))\<lparr>groupname := n, g_gid := gid, userList := p, g_next := None\<rparr> = ?k"
    by simp
  have "getGroupFromString ?s w = Some (Some (brk w), grown w h ((gheap w)(brk w \<mapsto> ?k)) b)"
    using q(1) loop(1) ok(2,3)
    by (simp add: getGroupFromString_def malloc_group_def grown_fold deref_def put_group_def store_def atoi_itoa_decimal k)
  moreover have "reads_as us h b ?k (n, gid, ms)"
    using list(1-4) by fastforce
  ultimately show ?thesis
    using list(5-7) by (intro exI [of _ p] exI [of _ h] exI [of _ b]) simp
qed

section \<open>Reading the group file\<close>

fun desc_gid :: "group_desc \<Rightarrow> int" where
  "desc_gid (n, gid, ms) = gid"

lemma set_commas: "set (commas ms) \<subseteq> insert (CHR '','') (\<Union> (set ` set ms))"
  by (induction ms rule: commas.induct) auto

lemma group_line_chars: "group_ok d \<Longrightarrow> line (group_line d)"
proof (cases d)
  case (fields n gid ms)
  assume "group_ok d"
  moreover from this have "plain (itoa gid [] 10)"
    by (intro itoa_plain) (simp_all add: fields)
  ultimately show ?thesis
    using set_commas [of ms] by (auto simp: fields line_def plain_def member_name_def NUL_def)
qed

lemma list_all2_insert_by:
  assumes "list_all2 R xs ys" "R x y" "\<And>x y. R x y \<Longrightarrow> key x = key' y"
  shows "list_all2 R (insert_by key x xs) (insert_by key' y ys)"
  using assms by (induction rule: list_all2_induct) (auto simp: insert_by_Cons)

lemma reads_as_strip [simp]: "reads_as us h b (g\<lparr>g_next := q\<rparr>) d = reads_as us h b g d"
  by (cases d) simp

lemma reads_as_gid: "reads_as us h b g d \<Longrightarrow> g_gid g = desc_gid d"
  by (cases d) simp

lemma list_all2_strip: "list_all2 (reads_as us h b) (map group_nodes.strip ns) ds = list_all2 (reads_as us h b) ns ds"
  by (simp add: list_all2_map1)

text \<open>\<open>groups_at us w p ds\<close>: at \<open>p\<close> there is a list of groups that read as \<open>ds\<close>, with its nodes among \<open>A\<close>.\<close>

definition groups_at :: "user list \<Rightarrow> accounts \<Rightarrow> addr set \<Rightarrow> ptr \<Rightarrow> group_desc list \<Rightarrow> bool" where
  "groups_at us w A p ds \<longleftrightarrow> (\<exists>as ns. nseg g_next (gheap w) p as ns None \<and> distinct as \<and> set as = A \<and>
     list_all2 (reads_as us (uheap w) (brk w)) ns ds)"

lemma add_group:
  assumes "groups_at us w A p ds" "heap_ok w" "gheap w a = Some g" "g_next g = None" "a \<notin> A" "reads_as us (uheap w) (brk w) g d"
  shows "\<exists>p' k. addGroupToListSorted p (Some a) w = Some (p', w\<lparr>gheap := k\<rparr>) \<and> heap_ok (w\<lparr>gheap := k\<rparr>) \<and>
    groups_at us (w\<lparr>gheap := k\<rparr>) (insert a A) p' (insert_by desc_gid d ds) \<and>
    (\<forall>b. b \<notin> insert a A \<longrightarrow> k b = gheap w b)"
proof -
  obtain as ns where *: "nseg g_next (gheap w) p as ns None" "distinct as" "set as = A"
    "list_all2 (reads_as us (uheap w) (brk w)) ns ds"
    using assms(1) by (auto simp: groups_at_def)
  have "a \<notin> set as"
    using *(3) assms(5) by simp
  with *(1,2) assms(3,4) obtain p' k as' ns' where
    ins: "insert_node g_next set_g_next compareGroups p (Some a) (gheap w) = Some (p', k)"
    "nseg g_next k p' as' ns' None" "distinct as'" "set as' = insert a (set as)"
    "map group_nodes.strip ns' = insert_by g_gid (group_nodes.strip g) (map group_nodes.strip ns)"
    "\<forall>b. b \<notin> set as' \<longrightarrow> k b = gheap w b"
    using group_nodes.insert_node_list [of "gheap w" p as ns a g] by blast
  have "list_all2 (reads_as us (uheap w) (brk w)) (map group_nodes.strip ns') (insert_by desc_gid d ds)"
    unfolding ins(5) using *(4) assms(6) reads_as_gid by (intro list_all2_insert_by) (simp_all add: list_all2_strip)
  then have "groups_at us (w\<lparr>gheap := k\<rparr>) (insert a A) p' (insert_by desc_gid d ds)"
    using ins(2-4) *(3) by (auto simp: groups_at_def list_all2_strip)
  moreover have "dom k \<subseteq> {..<brk w}"
  proof
    fix b assume "b \<in> dom k"
    moreover have "set as' \<subseteq> dom (gheap w)"
      using nseg_dom [OF *(1)] ins(4) assms(3) by auto
    ultimately show "b \<in> {..<brk w}"
      using ins(6) assms(2) by (cases "b \<in> set as'") (fastforce simp: heap_ok_def dom_def)+
  qed
  ultimately show ?thesis
    using ins(1,4,6) *(3) assms(2)
    by (intro exI [of _ p'] exI [of _ k]) (simp add: addGroupToListSorted_def heap_ok_def)
qed

lemma groups_at_mono:
  assumes "groups_at us w A p ds" "A \<subseteq> {..<brk w}" "\<forall>a < brk w. h a = uheap w a" "\<forall>a < brk w. k a = gheap w a" "brk w \<le> b"
  shows "groups_at us (grown w h k b) A p ds"
proof -
  obtain as ns where *: "nseg g_next (gheap w) p as ns None" "distinct as" "set as = A"
    "list_all2 (reads_as us (uheap w) (brk w)) ns ds"
    using assms(1) by (auto simp: groups_at_def)
  have "nseg g_next k p as ns None"
    using *(3) assms(2,4) by (intro nseg_frame [OF *(1)]) auto
  moreover have "list_all2 (reads_as us h b) ns ds"
    using *(4) assms(3,5) by (elim list_all2_mono) (rule reads_as_mono)
  ultimately show ?thesis
    using *(2,3) by (auto simp: groups_at_def)
qed

text \<open>One round of the loop: parse a line, insert the group, go to the next line.\<close>

lemma groups_step:
  assumes "passwd_file w us" "heap_ok w" "\<forall>u \<in> set us. username u \<noteq> []" "group_ok d" "\<forall>d \<in> set gs. group_ok d"
    and "at_list token (strtok2_sp w) buf (map group_line (d # gs))"
    and "groups_at us w A p ds" "A \<subseteq> {..<brk w}"
  shows "\<exists>token' buf' sp p' h k b A'. groups_loop p token buf w = groups_loop p' token' buf' (grown (w\<lparr>strtok2_sp := sp\<rparr>) h k b) \<and>
    at_list token' sp buf' (map group_line gs) \<and> groups_at us (grown w h k b) A' p' (insert_by desc_gid d ds) \<and>
    A \<subseteq> A' \<and> A' \<subseteq> A \<union> {brk w..<b} \<and> (\<forall>a < brk w. h a = uheap w a) \<and>
    (\<forall>a. a \<notin> A' \<longrightarrow> k a = gheap w a) \<and> dom h \<subseteq> {..<b} \<and> dom k \<subseteq> {..<b} \<and> brk w \<le> b"
proof -
  obtain n gid ms where d: "d = (n, gid, ms)"
    by (cases d)
  obtain off q x t y where tok: "token = Some off" "strtok2_sp w = Some q" "drop off buf = group_line d @ NUL # x"
    "drop q buf = t @ NUL # y" "text_of t (map group_line gs)"
    using assms(6) by (auto simp: at_list_def)
  obtain pm h b where got: "getGroupFromString (drop off buf) w = Some (Some (brk w), grown w h
      ((gheap w)(brk w \<mapsto> \<lparr>groupname = n, g_gid = gid, userList = pm, g_next = None\<rparr>)) b)"
    "reads_as us h b \<lparr>groupname = n, g_gid = gid, userList = pm, g_next = None\<rparr> d"
    "\<forall>a < brk w. h a = uheap w a" "dom h \<subseteq> {..<b}" "brk w < b"
    using get_group [OF assms(1,2) assms(4) [unfolded d] assms(3), of x] unfolding tok(3) d by blast
  let ?g = "\<lparr>groupname = n, g_gid = gid, userList = pm, g_next = None\<rparr>"
  let ?w1 = "grown w h ((gheap w)(brk w \<mapsto> ?g)) b"
  have "groups_at us ?w1 A p ds"
    using assms(7,8) got(3,5) by (intro groups_at_mono) auto
  moreover have "heap_ok ?w1"
    using assms(2) got(4,5) by (auto simp: heap_ok_def)
  moreover have "brk w \<notin> A"
    using assms(8) by auto
  ultimately obtain p' k where add: "addGroupToListSorted p (Some (brk w)) ?w1 = Some (p', ?w1\<lparr>gheap := k\<rparr>)"
    "heap_ok (?w1\<lparr>gheap := k\<rparr>)" "groups_at us (?w1\<lparr>gheap := k\<rparr>) (insert (brk w) A) p' (insert_by desc_gid d ds)"
    "\<forall>a. a \<notin> insert (brk w) A \<longrightarrow> k a = (if a = brk w then Some ?g else gheap w a)"
    using add_group [of us ?w1 A p ds "brk w" ?g d] got(2) by auto
  obtain token' sp buf' where tk: "strtok None [CHR 0x0A] (strtok2_sp w, buf) = Some (token', (sp, buf'))"
    "at_list token' sp buf' (map group_line gs)"
    using strtok_list [OF tok(4,5), of None "strtok2_sp w"] tok(2) assms(5) group_line_chars by auto
  have "groups_loop p token buf w = groups_loop p' token' buf' (grown (w\<lparr>strtok2_sp := sp\<rparr>) h k b)"
    using got(1) add(1) tk(1) by (simp add: tok(1) groups_loop.simps [of p "Some off"] strtok2_def)
  moreover have "\<forall>a. a \<notin> insert (brk w) A \<longrightarrow> k a = gheap w a"
    using add(4) by auto
  ultimately show ?thesis
    using tk(2) add(2,3) got(3-5)
    by (intro exI [of _ token'] exI [of _ buf'] exI [of _ sp] exI [of _ p'] exI [of _ h] exI [of _ k] exI [of _ b]
        exI [of _ "insert (brk w) A"]) auto
qed

lemma groups_loop_lines:
  assumes "passwd_file w us" "heap_ok w" "\<forall>u \<in> set us. username u \<noteq> []" "\<forall>d \<in> set gs. group_ok d"
    and "at_list token (strtok2_sp w) buf (map group_line gs)" "groups_at us w A p ds" "A \<subseteq> {..<brk w}"
  shows "\<exists>p' h k b A'. groups_loop p token buf w = Some (p', grown (w\<lparr>strtok2_sp := None\<rparr>) h k b) \<and>
    groups_at us (grown w h k b) A' p' (foldl (\<lambda>acc d. insert_by desc_gid d acc) ds gs) \<and>
    A \<subseteq> A' \<and> A' \<subseteq> A \<union> {brk w..<b} \<and> (\<forall>a < brk w. h a = uheap w a) \<and>
    (\<forall>a. a \<notin> A' \<longrightarrow> k a = gheap w a) \<and> dom h \<subseteq> {..<b} \<and> dom k \<subseteq> {..<b} \<and> brk w \<le> b"
  using assms
proof (induction gs arbitrary: token buf w p ds A)
  case Nil
  then have "token = None" "strtok2_sp w = None"
    by (simp_all add: at_list_def)
  then have "groups_loop p token buf w = Some (p, grown (w\<lparr>strtok2_sp := None\<rparr>) (uheap w) (gheap w) (brk w))"
    by (simp add: groups_loop.simps [of p None] grown_def)
  with Nil.prems show ?case
    by (intro exI [of _ p] exI [of _ "uheap w"] exI [of _ "gheap w"] exI [of _ "brk w"] exI [of _ A])
      (auto simp: heap_ok_def grown_fold)
next
  case (Cons d gs)
  have oks: "group_ok d" "\<forall>d \<in> set gs. group_ok d"
    using Cons.prems(4) by simp_all
  from groups_step [OF Cons.prems(1-3) oks Cons.prems(5-7)] obtain token1 buf1 sp p1 h1 k1 b1 A1 where step:
    "groups_loop p token buf w = groups_loop p1 token1 buf1 (grown (w\<lparr>strtok2_sp := sp\<rparr>) h1 k1 b1)"
    "at_list token1 sp buf1 (map group_line gs)" "groups_at us (grown w h1 k1 b1) A1 p1 (insert_by desc_gid d ds)"
    "A \<subseteq> A1" "A1 \<subseteq> A \<union> {brk w..<b1}" "\<forall>a < brk w. h1 a = uheap w a" "\<forall>a. a \<notin> A1 \<longrightarrow> k1 a = gheap w a"
    "dom h1 \<subseteq> {..<b1}" "dom k1 \<subseteq> {..<b1}" "brk w \<le> b1"
    by (elim exE conjE) (rule that)
  let ?w1 = "grown (w\<lparr>strtok2_sp := sp\<rparr>) h1 k1 b1"
  have w1: "passwd_file ?w1 us" "heap_ok ?w1" "at_list token1 (strtok2_sp ?w1) buf1 (map group_line gs)"
    "groups_at us ?w1 A1 p1 (insert_by desc_gid d ds)"
    using Cons.prems(1) step(2,3,8,9) by (simp_all add: groups_at_def)
  have A1: "A1 \<subseteq> {..<brk ?w1}"
    using step(5,10) Cons.prems(7) by fastforce
  from Cons.IH [OF w1(1,2) Cons.prems(3) oks(2) w1(3,4) A1] obtain p' h k b A' where IH:
    "groups_loop p1 token1 buf1 ?w1 = Some (p', grown (?w1\<lparr>strtok2_sp := None\<rparr>) h k b)"
    "groups_at us (grown ?w1 h k b) A' p' (foldl (\<lambda>acc d. insert_by desc_gid d acc) (insert_by desc_gid d ds) gs)"
    "A1 \<subseteq> A'" "A' \<subseteq> A1 \<union> {brk ?w1..<b}" "\<forall>a < brk ?w1. h a = uheap ?w1 a"
    "\<forall>a. a \<notin> A' \<longrightarrow> k a = gheap ?w1 a" "dom h \<subseteq> {..<b}" "dom k \<subseteq> {..<b}" "brk ?w1 \<le> b"
    by (elim exE conjE) (rule that)
  have "groups_loop p token buf w = Some (p', grown (w\<lparr>strtok2_sp := None\<rparr>) h k b)"
    using step(1) IH(1) by (simp add: grown_def)
  moreover have "groups_at us (grown w h k b) A' p' (foldl (\<lambda>acc d. insert_by desc_gid d acc) ds (d # gs))"
    using IH(2) by (simp add: groups_at_def)
  moreover have "A' \<subseteq> A \<union> {brk w..<b}" "\<forall>a < brk w. h a = uheap w a"
    using IH(4,5,9) step(5,6,10) by fastforce+
  moreover have "\<forall>a. a \<notin> A' \<longrightarrow> k a = gheap w a"
    using IH(3,6) step(7) by auto
  ultimately show ?case
    using IH(3,7-9) step(4,10)
    by (intro exI [of _ p'] exI [of _ h] exI [of _ k] exI [of _ b] exI [of _ A']) auto
qed

text \<open>
  \<open>group_file w us gs\<close>: the group file holds the lines of \<open>gs\<close> and the password file those of \<open>us\<close>, and two file
  descriptors are free.
\<close>

definition group_file :: "accounts \<Rightarrow> user list \<Rightarrow> group_desc list \<Rightarrow> bool" where
  "group_file w us gs \<longleftrightarrow> (case file_text w ''/etc/group'' of None \<Rightarrow> False | Some t \<Rightarrow> text_of t (map group_line gs)) \<and>
     (\<forall>d \<in> set gs. group_ok d) \<and> strtok2_sp w = None \<and> passwd_file w us \<and> (\<forall>u \<in> set us. username u \<noteq> []) \<and>
     1 < free_fds w"

lemma passwd_file_fds:
  assumes "passwd_file w us" "1 < free_fds w" "fd < 16" "fds w fd = None"
  shows "passwd_file (w\<lparr>fds := (fds w)(fd \<mapsto> f)\<rparr>) us"
  using assms free_fds_upd [OF assms(3,4), of f] by (simp add: passwd_file_def file_text_def)

text \<open>What reading all groups gives: a list in nodes that did not exist before, and untouched old nodes.\<close>

definition selected :: "user list \<Rightarrow> accounts \<Rightarrow> user heap \<Rightarrow> group heap \<Rightarrow> nat \<Rightarrow> addr set \<Rightarrow> ptr \<Rightarrow> group_desc list \<Rightarrow> bool" where
  "selected us w h k b A p ds \<longleftrightarrow> groups_at us (grown w h k b) A p ds \<and> A \<subseteq> {brk w..<b} \<and>
     (\<forall>a < brk w. h a = uheap w a) \<and> (\<forall>a. a \<notin> A \<longrightarrow> k a = gheap w a) \<and> dom h \<subseteq> {..<b} \<and> dom k \<subseteq> {..<b} \<and> brk w \<le> b"

lemma select_groups:
  assumes "group_file w us gs" "heap_ok w"
  shows "\<exists>p h k b A. selectAllGroupsFromGroupFile w = Some (p, grown w h k b) \<and>
    selected us w h k b A p (sort_key desc_gid gs)"
proof -
  obtain t where gf: "file_text w ''/etc/group'' = Some t" "1 < free_fds w" "strtok2_sp w = None"
    "\<forall>d \<in> set gs. group_ok d" "text_of t (map group_line gs)" "passwd_file w us" "\<forall>u \<in> set us. username u \<noteq> []"
    using assms(1) by (auto simp: group_file_def split: option.splits)
  obtain rest where after: "stack_after w = NUL # rest"
    using gf(6) by (cases "stack_after w") (auto simp: passwd_file_def)
  have "0 < free_fds w"
    using gf(2) by simp
  then obtain fd f where slurp: "slurp ''/etc/group'' w =
      Some (int fd, t @ stack_after w, w\<lparr>fds := (fds w)(fd \<mapsto> f)\<rparr>)" and fd: "fd < 16" "fds w fd = None"
    by (rule slurp_file [OF gf(1)])
  let ?w1 = "w\<lparr>fds := (fds w)(fd \<mapsto> f)\<rparr>"
  obtain token sp buf where tok: "strtok (Some 0) [CHR 0x0A] (strtok2_sp w, t @ stack_after w) = Some (token, (sp, buf))"
    "at_list token sp buf (map group_line gs)"
    using strtok_list [of 0 "t @ stack_after w" t rest "map group_line gs" "Some 0" "strtok2_sp w"] gf after group_line_chars
    by auto
  let ?w2 = "?w1\<lparr>strtok2_sp := sp\<rparr>"
  have w2: "passwd_file ?w2 us" "heap_ok ?w2" "at_list token (strtok2_sp ?w2) buf (map group_line gs)" "groups_at us ?w2 {} None []"
    using passwd_file_fds [OF gf(6,2) fd] assms(2) tok(2) by (simp_all add: heap_ok_def groups_at_def)
  from groups_loop_lines [OF w2(1,2) gf(7,4) w2(3,4)] obtain p h k b A where loop:
    "groups_loop None token buf ?w2 = Some (p, grown (?w2\<lparr>strtok2_sp := None\<rparr>) h k b)"
    "groups_at us (grown ?w2 h k b) A p (foldl (\<lambda>acc d. insert_by desc_gid d acc) [] gs)"
    "A \<subseteq> {brk w..<b}" "\<forall>a < brk w. h a = uheap w a" "\<forall>a. a \<notin> A \<longrightarrow> k a = gheap w a"
    "dom h \<subseteq> {..<b}" "dom k \<subseteq> {..<b}" "brk w \<le> b"
    by auto
  have "u_close (int fd) (grown (?w2\<lparr>strtok2_sp := None\<rparr>) h k b) = (grown (?w2\<lparr>strtok2_sp := None\<rparr>) h k b)\<lparr>fds := fds w\<rparr>"
    using fd by (intro close_slurped [of fd w _ f]) simp_all
  also have "\<dots> = grown w h k b"
    unfolding grown_def using gf(3) by (intro accounts.equality) simp_all
  finally have "selectAllGroupsFromGroupFile w = Some (p, grown w h k b)"
    using slurp tok(1) loop(1) by (simp add: selectAllGroupsFromGroupFile_def strtok2_def)
  moreover have "selected us w h k b A p (sort_key desc_gid gs)"
    using loop(2-8) by (simp add: selected_def groups_at_def foldl_insert_by)
  ultimately show ?thesis
    by blast
qed

section \<open>Writing the group file\<close>

lemma commas_Cons: "commas (n # ns) = n @ (if ns = [] then [] else CHR '','' # commas ns)"
  by (cases ns) simp_all

lemma print_members_nseg:
  assumes "nseg u_next h p as ns None"
    and "length s + length (commas (map username ns)) + 1 < cap"
  shows "print_members cap h first p s =
    Some (s @ (if first \<or> ns = [] then [] else '','') @ commas (map username ns))"
  using assms
proof (induction ns arbitrary: p as s first)
  case Nil
  then show ?case
    by (cases as) (auto simp: print_members.simps [of _ _ _ None])
next
  case (Cons n ns)
  obtain a as' where p: "p = Some a" "h a = Some n" "nseg u_next h (u_next n) as' ns None"
    using Cons.prems(1) by (cases as) auto
  let ?s = "s @ (if first then [] else '','') @ username n"
  have len: "length ?s + length (commas (map username ns)) + 1 < cap \<or> ns = []" "length ?s < cap"
    using Cons.prems(2) by (auto simp: commas_Cons split: if_splits)
  have "print_members cap h first p s = print_members cap h False (u_next n) ?s"
    using len(2) by (auto simp: p(1,2) print_members.simps [of _ _ _ "Some a"] deref_def strcat_def)
  also have "\<dots> = Some (?s @ (if ns = [] then [] else '','') @ commas (map username ns))"
  proof (cases "ns = []")
    case True
    then have "u_next n = None"
      using p(3) by (cases as') auto
    then show ?thesis
      using True by (simp add: print_members.simps [of _ _ _ None])
  next
    case False
    then show ?thesis
      using Cons.IH [OF p(3), of ?s False] len(1) by simp
  qed
  finally show ?case
    by (simp add: commas_Cons)
qed

lemma print_group:
  assumes "nseg u_next h (userList g) as ns None" "group_ok (groupname g, g_gid g, map username ns)"
  shows "getStringFromGroup (STRING_SIZE * 16) h g = Some (group_line (groupname g, g_gid g, map username ns) @ [CHR 0x0A])"
proof -
  let ?gid = "itoa (g_gid g) [] 10"
  let ?s = "groupname g @ CHR '':'' # ?gid @ '':''"
  have "plain ?gid"
    using assms(2) by (intro itoa_plain) simp_all
  moreover have "length ?s + length (commas (map username ns)) + 1 < STRING_SIZE * 16"
    using assms(2) by simp
  moreover from this have "print_members (STRING_SIZE * 16) h True (userList g) ?s = Some (?s @ commas (map username ns))"
    using print_members_nseg [OF assms(1), of ?s] by simp
  ultimately show ?thesis
    by (simp add: getStringFromGroup_def strcpy_def strcat_def plain_def)
qed

abbreviation prints_as :: "user heap \<Rightarrow> group \<Rightarrow> group_desc \<Rightarrow> bool" where
  "prints_as h g d \<equiv> getStringFromGroup (STRING_SIZE * 16) h g = Some (group_line d @ [CHR 0x0A])"

definition group_text :: "group_desc list \<Rightarrow> string" where
  "group_text ds = concat (map (\<lambda>d. group_line d @ [CHR 0x0A]) ds)"

lemma write_groups_nseg:
  assumes "list_all2 (prints_as (uheap w)) ns ds" "nseg g_next (gheap w) p as ns None" "appends fd i w"
  shows "\<exists>f. write_groups (int fd) p w =
    Some (w\<lparr>contents := (contents w)(i := contents w i @ group_text ds), fds := (fds w)(fd := f)\<rparr>)"
  using assms
proof (induction ns arbitrary: p as w ds)
  case Nil
  then have "write_groups (int fd) p w = Some w" "ds = []"
    by (cases as; auto simp: write_groups.simps [of _ None])+
  then show ?case
    by (intro exI [of _ "fds w fd"]) (simp add: group_text_def)
next
  case (Cons n ns)
  obtain d ds' where ds: "ds = d # ds'" "prints_as (uheap w) n d" "list_all2 (prints_as (uheap w)) ns ds'"
    using Cons.prems(1) by (auto simp: list_all2_Cons1)
  obtain a as' where p: "p = Some a" "gheap w a = Some n" "nseg g_next (gheap w) (g_next n) as' ns None"
    using Cons.prems(2) by (cases as) auto
  let ?s = "group_line d @ [CHR 0x0A]"
  let ?w = "snd (u_write (int fd) ?s w)"
  obtain f where w': "?w = w\<lparr>contents := (contents w)(i := contents w i @ ?s), fds := (fds w)(fd \<mapsto> f)\<rparr>"
    "appends fd i ?w"
    by (rule write_appends [OF Cons.prems(3)])
  have "list_all2 (prints_as (uheap ?w)) ns ds'" "nseg g_next (gheap ?w) (g_next n) as' ns None"
    using ds(3) p(3) by (simp_all add: w'(1))
  then obtain g where "write_groups (int fd) (g_next n) ?w =
      Some (?w\<lparr>contents := (contents ?w)(i := contents ?w i @ group_text ds'), fds := (fds ?w)(fd := g)\<rparr>)"
    using Cons.IH [OF _ _ w'(2)] by blast
  then have "write_groups (int fd) p w =
      Some (w\<lparr>contents := (contents w)(i := contents w i @ group_text ds), fds := (fds w)(fd := g)\<rparr>)"
    by (simp add: write_groups.simps [of _ "Some a"] p(1,2) deref_def ds(1,2) w'(1) group_text_def)
  then show ?case
    by (rule exI)
qed

lemma update_group_file:
  assumes "list_all2 (prints_as (uheap w)) ns ds" "nseg g_next (gheap w) p as ns None" "world_ok w" "1 < free_fds w"
  shows "\<exists>w'. updateGroupFile p w = Some w' \<and> replaced w ''/etc/group'' (group_text ds) w'"
proof -
  obtain fd fd0 f f0 where re: "reopened ''/etc/group'' w =
      (int fd, w\<lparr>names := (names w)(''/etc/group'' \<mapsto> next_ino w), contents := (contents w)(next_ino w := []),
                next_ino := Suc (next_ino w), fds := (fds w)(fd0 \<mapsto> f0, fd \<mapsto> f)\<rparr>)"
    "fd0 < 16" "fd < 16" "fds w fd0 = None" "fds w fd = None" "fd \<noteq> fd0"
    "of_ino f = next_ino w" "of_off f = 0" "of_writable f" "of_ino f0 = next_ino w"
    by (rule reopened_world [OF assms(3,4)])
  let ?w = "w\<lparr>names := (names w)(''/etc/group'' \<mapsto> next_ino w), contents := (contents w)(next_ino w := []),
    next_ino := Suc (next_ino w), fds := (fds w)(fd0 \<mapsto> f0, fd \<mapsto> f)\<rparr>"
  have "appends fd (next_ino w) ?w" "nseg g_next (gheap ?w) p as ns None" "list_all2 (prints_as (uheap ?w)) ns ds"
    using re assms(1,2) by (simp_all add: appends_def)
  then obtain g where "write_groups (int fd) p ?w =
      Some (?w\<lparr>contents := (contents ?w)(next_ino w := contents ?w (next_ino w) @ group_text ds), fds := (fds ?w)(fd := g)\<rparr>)"
    using write_groups_nseg [of ?w ns ds p as fd "next_ino w"] by blast
  then have "updateGroupFile p w = Some (u_close (int fd)
      (w\<lparr>names := (names w)(''/etc/group'' \<mapsto> next_ino w), next_ino := Suc (next_ino w),
         contents := (contents w)(next_ino w := group_text ds), fds := (fds w)(fd0 \<mapsto> f0, fd := g)\<rparr>))"
    using re(1) by (simp add: updateGroupFile_def reopened_def case_prod_unfold)
  with replaced_by_writing [OF assms(3) re(2-6,10)] show ?thesis
    by blast
qed

section \<open>Groups and their members\<close>

type_synonym group_value = "string \<times> int \<times> user list"

fun describes :: "user heap \<Rightarrow> group \<Rightarrow> group_value \<Rightarrow> bool" where
  "describes h g (n, gid, us) \<longleftrightarrow> groupname g = n \<and> g_gid g = gid \<and>
     (\<exists>as ns. nseg u_next h (userList g) as ns None \<and> map user_nodes.strip ns = us)"

fun desc :: "group_value \<Rightarrow> group_desc" where
  "desc (n, gid, us) = (n, gid, map username us)"

fun by_uid :: "group_value \<Rightarrow> group_value" where
  "by_uid (n, gid, us) = (n, gid, sort_key u_uid us)"

definition value_gid :: "group_value \<Rightarrow> int" where
  "value_gid v = desc_gid (desc v)"

lemma sort_key_map: "sort_key f (map g xs) = map g (sort_key (f \<circ> g) xs)"
proof -
  have "insort_key f (g x) (map g xs) = map g (insort_key (f \<circ> g) x xs)" for x xs
    by (induction xs) simp_all
  then show ?thesis
    by (induction xs) simp_all
qed

lemma value_gid_comp: "desc_gid \<circ> desc = value_gid"
  by (simp add: fun_eq_iff value_gid_def)

lemma resolve_members:
  assumes "distinct (map username us)" "set m \<subseteq> set us"
  shows "resolve us (map username m) = m"
  using assms(2)
proof (induction m)
  case (Cons u m)
  have "find (\<lambda>v. username v = username u) xs = Some u" if "distinct (map username xs)" "u \<in> set xs" for xs
    using that by (induction xs) (auto simp: image_iff)
  moreover have "distinct (map username (sort_key u_uid us))"
    using assms(1) by (metis distinct_map distinct_sort set_sort)
  ultimately have "lookup_user us (username u) = Some u"
    using Cons.prems by (simp add: lookup_user_def)
  with Cons show ?case
    by (simp add: resolve_Cons)
qed (simp add: resolve_def map_filter_simps)

lemma describes_prints:
  assumes "describes h g v" "group_ok (desc v)"
  shows "prints_as h g (desc v)"
proof -
  obtain as ns where *: "nseg u_next h (userList g) as ns None" "map user_nodes.strip ns = snd (snd v)"
    "groupname g = fst v" "g_gid g = fst (snd v)"
    using assms(1) by (cases v) auto
  then have "map username ns = map username (snd (snd v))"
    by (metis (no_types, lifting) map_map comp_apply map_cong user.select_convs(1) user.surjective user.update_convs(7))
  then show ?thesis
    using print_group [OF *(1)] *(3,4) assms(2) by (cases v) simp
qed

lemma reads_describes:
  assumes "reads_as us h b g (desc v)" "distinct (map username us)" "set (snd (snd v)) \<subseteq> set us"
  shows "describes h g (by_uid v)"
  using assms resolve_members [OF assms(2,3)] by (cases v) auto

lemma text_of_group_text: "text_of (group_text ds) (map group_line ds)"
  by (simp add: text_of_def group_text_def comp_def)

lemma replaced_group_file:
  assumes "passwd_file w us" "replaced w ''/etc/group'' (group_text ds) w'" "\<forall>d \<in> set ds. group_ok d"
    and "\<forall>u \<in> set us. username u \<noteq> []" "2 < free_fds w" "strtok2_sp w = None"
  shows "group_file w' us ds"
proof -
  have "file_text w' ''/etc/passwd'' = file_text w ''/etc/passwd''"
    using assms(2) by (simp add: replaced_def)
  then have "passwd_file w' us"
    using assms(1,2,5) by (simp add: replaced_def passwd_file_def)
  then show ?thesis
    using assms(2-6) by (simp add: group_file_def replaced_def text_of_group_text)
qed

text \<open>
  C15: what \<^verbatim>\<open>updateGroupFile\<close> writes for a list of storable groups, \<^verbatim>\<open>selectAllGroupsFromGroupFile\<close> reads back beside a
  password file that lists their members under different names: the returned list holds exactly those groups, stably
  sorted by id, and each of them has exactly its members, sorted by id.
\<close>

theorem group_roundtrip:
  assumes "nseg g_next (gheap w) p as ns None" "list_all2 (describes (uheap w)) ns gs"
    and "\<forall>v \<in> set gs. group_ok (desc v) \<and> set (snd (snd v)) \<subseteq> set us"
    and "passwd_file w us" "distinct (map username us)" "\<forall>u \<in> set us. username u \<noteq> []"
    and "world_ok w" "heap_ok w" "2 < free_fds w" "strtok2_sp w = None"
  shows "\<exists>w1 q w2 bs ms. updateGroupFile p w = Some w1 \<and> selectAllGroupsFromGroupFile w1 = Some (q, w2) \<and>
    nseg g_next (gheap w2) q bs ms None \<and> distinct bs \<and>
    list_all2 (describes (uheap w2)) ms (map by_uid (sort_key value_gid gs))"
proof -
  have "list_all2 (prints_as (uheap w)) ns (map desc gs)"
    using assms(2,3) by (auto simp: list_all2_conv_all_nth describes_prints)
  then obtain w1 where w1: "updateGroupFile p w = Some w1" "replaced w ''/etc/group'' (group_text (map desc gs)) w1"
    using update_group_file [OF _ assms(1,7)] assms(9) by fastforce
  have "group_file w1 us (map desc gs)"
    using assms(3,6,9,10) by (intro replaced_group_file [OF assms(4) w1(2)]) auto
  moreover have "heap_ok w1"
    using w1(2) assms(8) by (simp add: replaced_def heap_ok_def)
  ultimately obtain q h k b A where sel: "selectAllGroupsFromGroupFile w1 = Some (q, grown w1 h k b)"
    "selected us w1 h k b A q (sort_key desc_gid (map desc gs))"
    using select_groups by blast
  then obtain bs ms where ms: "nseg g_next k q bs ms None" "distinct bs"
    "list_all2 (reads_as us h b) ms (map desc (sort_key value_gid gs))"
    unfolding sort_key_map value_gid_comp by (auto simp: selected_def groups_at_def)
  have "list_all2 (\<lambda>g v. describes h g (by_uid v)) ms (sort_key value_gid gs)"
    using ms(3) [unfolded list_all2_map2] assms(3) reads_describes [OF _ assms(5)]
    by (elim list.rel_mono_strong) simp
  then have "list_all2 (describes h) ms (map by_uid (sort_key value_gid gs))"
    by (simp add: list_all2_map2)
  then show ?thesis
    using w1(1) sel(1) ms(1,2) by (intro exI [of _ w1] exI [of _ q] exI [of _ "grown w1 h k b"]) auto
qed

definition image_groups :: accounts where
  "image_groups = (image_world [] [0 \<mapsto> dmr_user, 1 \<mapsto> bwk_user\<lparr>u_next := Some 2\<rparr>, 2 \<mapsto> root_user])
     \<lparr>gheap := [3 \<mapsto> \<lparr>groupname = ''admin'', g_gid = 60, userList = Some 1, g_next = Some 4\<rparr>,
                4 \<mapsto> \<lparr>groupname = ''staff'', g_gid = 50, userList = Some 0, g_next = None\<rparr>]\<rparr>"

lemma image_groups_ok:
  "passwd_file image_groups [root_user, ken_user, dmr_user, bwk_user]" "world_ok image_groups" "heap_ok image_groups"
  "free_fds image_groups = 16" "strtok2_sp image_groups = None"
  using image_world_ok(4) [of "[]"]
  by (simp_all add: image_groups_def) (auto simp: world_ok_def heap_ok_def free_fds_def image_world_def sample_world_def split: if_splits)

theorem group_roundtrip_witness:
  "\<exists>w1 q w2 bs ms. updateGroupFile (Some 3) image_groups = Some w1 \<and> selectAllGroupsFromGroupFile w1 = Some (q, w2) \<and>
     nseg g_next (gheap w2) q bs ms None \<and>
     list_all2 (describes (uheap w2)) ms [(''staff'', 50, [dmr_user]), (''admin'', 60, [root_user, bwk_user])]"
proof -
  let ?us = "[root_user, ken_user, dmr_user, bwk_user]"
  let ?gs = "[(''admin'', 60, [bwk_user, root_user]), (''staff'', 50, [dmr_user])]"
  let ?ns = "[\<lparr>groupname = ''admin'', g_gid = 60, userList = Some 1, g_next = Some 4\<rparr>,
    \<lparr>groupname = ''staff'', g_gid = 50, userList = Some 0, g_next = None\<rparr>]"
  note s = image_groups_def image_world_def sample_world_def
  have strips: "user_nodes.strip root_user = root_user" "user_nodes.strip bwk_user = bwk_user" "user_nodes.strip dmr_user = dmr_user"
    by (simp_all add: root_user_def bwk_user_def dmr_user_def)
  have nx: "u_next root_user = None" "u_next dmr_user = None"
    by (simp_all add: root_user_def dmr_user_def)
  have "nseg u_next (uheap image_groups) (Some 1) [1, 2] [bwk_user\<lparr>u_next := Some 2\<rparr>, root_user] None"
    "nseg u_next (uheap image_groups) (Some 0) [0] [dmr_user] None"
    by (simp_all add: s nx)
  then have "describes (uheap image_groups) (?ns ! 0) (?gs ! 0)" "describes (uheap image_groups) (?ns ! 1) (?gs ! 1)"
    by (simp_all del: nseg.simps) (metis list.simps(8,9) strips user_nodes.set_set)+
  then have "list_all2 (describes (uheap image_groups)) ?ns ?gs"
    by simp
  moreover have "nseg g_next (gheap image_groups) (Some 3) [3, 4] ?ns None"
    by (simp add: s)
  moreover have "\<forall>v \<in> set ?gs. group_ok (desc v) \<and> set (snd (snd v)) \<subseteq> set ?us"
    by (auto; code_simp)
  moreover have "distinct (map username ?us)" "\<forall>u \<in> set ?us. username u \<noteq> []"
    by (simp_all add: root_user_def ken_user_def bwk_user_def dmr_user_def)
  ultimately obtain w1 q w2 bs ms where "updateGroupFile (Some 3) image_groups = Some w1"
    "selectAllGroupsFromGroupFile w1 = Some (q, w2)" "nseg g_next (gheap w2) q bs ms None"
    "list_all2 (describes (uheap w2)) ms (map by_uid (sort_key value_gid ?gs))"
    using group_roundtrip [of image_groups "Some 3" "[3, 4]" ?ns ?gs ?us] image_groups_ok by auto
  moreover have "map by_uid (sort_key value_gid ?gs) = [(''staff'', 50, [dmr_user]), (''admin'', 60, [root_user, bwk_user])]"
    by (simp add: value_gid_def root_user_def bwk_user_def)
  ultimately show ?thesis
    by metis
qed

section \<open>New users\<close>

lemma uid_available:
  assumes "passwd_file w us" "heap_ok w"
  shows "isUidAvailable i w = Some (i \<notin> u_uid ` set us, w\<lparr>brk := brk w + length us\<rparr>)"
proof -
  let ?test = "\<lambda>u. u_uid u = i"
  obtain p h as ns where
    *: "selectAllUsersFromPasswdFile w = Some (p, w\<lparr>uheap := h, brk := brk w + length us\<rparr>)"
    "nseg u_next h p as ns None" "distinct as" "set as = {brk w..<brk w + length us}"
    "map user_nodes.strip ns = sort_key u_uid us" "\<forall>a. a \<notin> set as \<longrightarrow> h a = uheap w a"
    "find_node u_next ?test h p = Some None \<and> find ?test (sort_key u_uid us) = None \<or>
     (\<exists>a u. find_node u_next ?test h p = Some (Some a) \<and> a \<in> set as \<and> h a = Some u \<and>
       find ?test (sort_key u_uid us) = Some (user_nodes.strip u))"
    by (rule search_users [OF assms(1), of ?test]) simp_all
  have free: "freeUserList p (w\<lparr>uheap := h, brk := brk w + length us\<rparr>) = Some (w\<lparr>brk := brk w + length us\<rparr>)"
    using free_fresh_users [OF *(2-4,6)] assms(2) by (simp add: heap_ok_def)
  from *(7) show ?thesis
  proof (elim disjE conjE exE)
    assume "find_node u_next ?test h p = Some None" "find ?test (sort_key u_uid us) = None"
    then show ?thesis
      using free by (auto simp: isUidAvailable_def *(1) find_none_iff_matches)
  next
    fix a u
    assume "find_node u_next ?test h p = Some (Some a)" "find ?test (sort_key u_uid us) = Some (user_nodes.strip u)"
    moreover from this(2) have "i \<in> u_uid ` set us"
      using find_some_matches by fastforce
    ultimately show ?thesis
      using free by (simp add: isUidAvailable_def *(1))
  qed
qed

lemma next_gid_loop_nseg:
  "nseg g_next k p as ns None \<Longrightarrow> next_gid_loop k p gid = Some (next_uid gid (map g_gid ns))"
proof (induction ns arbitrary: p as gid)
  case Nil
  then show ?case
    by (cases as) (auto simp: next_gid_loop.simps [of k None])
next
  case (Cons n ns)
  then show ?case
    by (cases as) (auto simp: next_gid_loop.simps [of k "Some a" for a] deref_def)
qed

lemma group_file_grown [simp]: "group_file (grown w h k b) = group_file w"
  by (simp add: fun_eq_iff group_file_def passwd_file_def grown_def file_text_def free_fds_def)

text \<open>Reading and freeing the groups leaves the old nodes and the list of groups as they were; nodes of users stay behind.\<close>

lemma next_available_gid:
  assumes "group_file w us gs" "heap_ok w" "length gs < 2 ^ 31 - 1000"
  shows "\<exists>gid h b. getNextAvailableGid w = Some (gid, grown w h (gheap w) b) \<and> 1000 \<le> gid \<and> gid \<notin> desc_gid ` set gs \<and>
    (\<forall>k. 1000 \<le> k \<and> k < gid \<longrightarrow> k \<in> desc_gid ` set gs) \<and>
    (\<forall>a < brk w. h a = uheap w a) \<and> dom h \<subseteq> {..<b} \<and> brk w \<le> b"
proof -
  obtain p h k b A where sel: "selectAllGroupsFromGroupFile w = Some (p, grown w h k b)"
    "selected us w h k b A p (sort_key desc_gid gs)"
    using select_groups [OF assms(1,2)] by blast
  then obtain as ns where *: "nseg g_next k p as ns None" "distinct as" "set as \<subseteq> {brk w..<b}"
    "list_all2 (reads_as us h b) ns (sort_key desc_gid gs)" "\<forall>a < brk w. h a = uheap w a" "\<forall>a. a \<notin> set as \<longrightarrow> k a = gheap w a"
    "dom h \<subseteq> {..<b}" "dom k \<subseteq> {..<b}" "brk w \<le> b"
    by (auto simp: selected_def groups_at_def)
  let ?ks = "map desc_gid (sort_key desc_gid gs)"
  have "map g_gid ns = ?ks"
    using *(4) by (intro nth_equalityI) (auto simp: list_all2_conv_all_nth reads_as_gid)
  then have "next_gid_loop k p 1000 = Some (next_uid 1000 ?ks)"
    using next_gid_loop_nseg [OF *(1)] by simp
  moreover have "1000 \<le> next_uid 1000 ?ks \<and> next_uid 1000 ?ks \<notin> set ?ks \<and>
      (\<forall>k. 1000 \<le> k \<and> k < next_uid 1000 ?ks \<longrightarrow> k \<in> set ?ks)"
    using assms(3) by (intro next_uid_sorted) auto
  moreover have "freeGroupList p (grown w h k b) = Some (grown w h (k |` (- set as)) b)"
    using free_nodes_nseg [OF *(1,2)] by (simp add: freeGroupList_def)
  moreover have "k |` (- set as) = gheap w"
  proof
    fix a
    have "gheap w a = None" if "a \<in> set as"
      using that *(3) assms(2) by (force simp: heap_ok_def dom_def)
    then show "(k |` (- set as)) a = gheap w a"
      using *(6) by (auto simp: restrict_map_def)
  qed
  ultimately show ?thesis
    using sel(1) *(5,7,9)
    by (intro exI [of _ "next_uid 1000 ?ks"] exI [of _ h] exI [of _ b]) (simp add: getNextAvailableGid_def)
qed

text \<open>The user id that \<^verbatim>\<open>createUser\<close> chooses.\<close>

lemma choose_uid:
  assumes "passwd_file w us" "heap_ok w" "length us < 2 ^ 31 - 1000"
  shows "\<exists>i. choose_id isUidAvailable getNextAvailableUid s w =
      Some (i, if s \<noteq> [] \<and> atoi s = 0 then w else w\<lparr>brk := brk w + length us\<rparr>) \<and>
    (i = None \<longleftrightarrow> s \<noteq> [] \<and> (atoi s = 0 \<or> atoi s \<in> u_uid ` set us)) \<and>
    (\<forall>k. i = Some k \<longrightarrow> k \<notin> u_uid ` set us \<and>
      (if s \<noteq> [] then k = atoi s else 1000 \<le> k \<and> (\<forall>l. 1000 \<le> l \<and> l < k \<longrightarrow> l \<in> u_uid ` set us)))"
proof (cases "s = []")
  case True
  then show ?thesis
    using next_available_uid [OF assms] by (auto simp: choose_id_def isEmptyString_def)
next
  case False
  then show ?thesis
    using uid_available [OF assms(1,2)] by (auto simp: choose_id_def isEmptyString_def Let_def)
qed

text \<open>The two ids that \<^verbatim>\<open>createUser\<close> chooses after it has allocated the user.\<close>

lemma createUser_ids:
  assumes "group_file w us gs" "heap_ok w" "length us < 2 ^ 31 - 1000" "length gs < 2 ^ 31 - 1000"
    "malloc_user w = (p, w1)"
  obtains (bad) b where "uidString \<noteq> [] \<and> (atoi uidString = 0 \<or> atoi uidString \<in> u_uid ` set us)"
      "choose_id isUidAvailable getNextAvailableUid uidString w1 =
         Some (None, grown w ((uheap w)(brk w \<mapsto> fresh_user w (brk w))) (gheap w) b)"
    | (ids) uid gid h b b' where "\<not> (uidString \<noteq> [] \<and> (atoi uidString = 0 \<or> atoi uidString \<in> u_uid ` set us))"
      "choose_id isUidAvailable getNextAvailableUid uidString w1 =
         Some (Some uid, grown w ((uheap w)(brk w \<mapsto> fresh_user w (brk w))) (gheap w) b)"
      "getNextAvailableGid (grown w ((uheap w)(brk w \<mapsto> (fresh_user w (brk w))\<lparr>u_uid := uid\<rparr>)) (gheap w) b) =
         Some (gid, grown w h (gheap w) b')"
      "h (brk w) = Some ((fresh_user w (brk w))\<lparr>u_uid := uid\<rparr>)" "\<forall>a < brk w. h a = uheap w a"
      "uid \<notin> u_uid ` set us" "if uidString \<noteq> [] then uid = atoi uidString
         else 1000 \<le> uid \<and> (\<forall>l. 1000 \<le> l \<and> l < uid \<longrightarrow> l \<in> u_uid ` set us)"
      "1000 \<le> gid" "gid \<notin> desc_gid ` set gs" "\<forall>l. 1000 \<le> l \<and> l < gid \<longrightarrow> l \<in> desc_gid ` set gs"
proof -
  let ?f = "fresh_user w (brk w)"
  let ?w1 = "grown w ((uheap w)(brk w \<mapsto> ?f)) (gheap w) (Suc (brk w))"
  have w1: "passwd_file ?w1 us" "heap_ok ?w1"
    using assms(1,2) by (auto simp: group_file_def heap_ok_def)
  have w1_eq: "w1 = ?w1"
    using assms(5) by (simp add: malloc_user_def grown_fold)
  define b2 where "b2 = (if uidString \<noteq> [] \<and> atoi uidString = 0 then Suc (brk w) else Suc (brk w) + length us)"
  have b2: "Suc (brk w) \<le> b2"
    by (simp add: b2_def)
  from choose_uid [OF w1(1,2) assms(3), of uidString] obtain i where
    i0: "choose_id isUidAvailable getNextAvailableUid uidString ?w1 =
      Some (i, if uidString \<noteq> [] \<and> atoi uidString = 0 then ?w1 else ?w1\<lparr>brk := brk ?w1 + length us\<rparr>)"
    and none: "i = None \<longleftrightarrow> uidString \<noteq> [] \<and> (atoi uidString = 0 \<or> atoi uidString \<in> u_uid ` set us)"
    and some: "\<forall>k. i = Some k \<longrightarrow> k \<notin> u_uid ` set us \<and>
      (if uidString \<noteq> [] then k = atoi uidString else 1000 \<le> k \<and> (\<forall>l. 1000 \<le> l \<and> l < k \<longrightarrow> l \<in> u_uid ` set us))"
    by (elim exE conjE) (rule that)
  have i: "choose_id isUidAvailable getNextAvailableUid uidString w1 =
      Some (i, grown w ((uheap w)(brk w \<mapsto> ?f)) (gheap w) b2)"
    unfolding w1_eq i0 by (simp add: b2_def)
  show thesis
  proof (cases i)
    case None
    then show ?thesis
      using i none bad by blast
  next
    case (Some uid)
    let ?w3 = "grown w ((uheap w)(brk w \<mapsto> ?f\<lparr>u_uid := uid\<rparr>)) (gheap w) b2"
    have "heap_ok ?w3" "group_file ?w3 us gs"
      using assms(1,2) b2 by (auto simp: heap_ok_def)
    from next_available_gid [OF this(2,1) assms(4)] obtain gid h b where gid:
      "getNextAvailableGid ?w3 = Some (gid, grown w h (gheap w) b)" "1000 \<le> gid" "gid \<notin> desc_gid ` set gs"
      "\<forall>k. 1000 \<le> k \<and> k < gid \<longrightarrow> k \<in> desc_gid ` set gs" "\<forall>a < b2. h a = ((uheap w)(brk w \<mapsto> ?f\<lparr>u_uid := uid\<rparr>)) a"
      by auto
    have "h (brk w) = Some (?f\<lparr>u_uid := uid\<rparr>)" "\<forall>a < brk w. h a = uheap w a"
      using gid(5) b2 by simp_all
    with i none some gid Some show ?thesis
      by (intro ids [of uid b2 gid h b]) simp_all
  qed
qed

text \<open>
  C28: creating a user, for account files that are well formed and names that fit their fields.  When the id asked for is not a
  number or is taken, or when the home directory cannot be made, because its path exists or its directory may not be
  written, \<^verbatim>\<open>createUser\<close> returns \<^verbatim>\<open>NULL\<close>, and only memory that was free before has changed: every file, descriptor
  and old node is as it was, and no directory was made or handed over.  Otherwise it makes the home directory under
  \<^verbatim>\<open>/home\<close>, hands it to the new user when the caller is the superuser (for other callers the refused \<^verbatim>\<open>chown\<close> goes
  unnoticed), changes nothing else, and returns a user with the given names, a user id that is free (the one asked for, or the
  least free one from 1000 on) and the least free group id from 1000 on.  The password of the new user and its link are
  never set: they are what the memory held.
\<close>

theorem createUser_correct:
  assumes "group_file w us gs" "heap_ok w" "length us < 2 ^ 31 - 1000" "length gs < 2 ^ 31 - 1000"
    and "length uname < STRING_SIZE" "length rname < STRING_SIZE"
    and home: "home = ''/home/'' @ (if dir = [] then uname else dir)" "length home < STRING_SIZE"
  shows "if uidString \<noteq> [] \<and> (atoi uidString = 0 \<or> atoi uidString \<in> u_uid ` set us) \<or> names w home \<noteq> None \<or> denied w home
    then \<exists>h b. createUser dir uidString rname uname w = Some (None, w\<lparr>uheap := h, brk := b\<rparr>) \<and>
      (\<forall>a < brk w. h a = uheap w a)
    else \<exists>u h b. createUser dir uidString rname uname w = Some (Some (brk w), w\<lparr>uheap := h, brk := b,
        names := (names w)(home \<mapsto> next_ino w), next_ino := Suc (next_ino w),
        events := events w @ EvMkdir home # (if proc_uid w = 0 then [EvChown home (u_uid u) (u_gid u)] else [])\<rparr>) \<and>
      h (brk w) = Some u \<and> (\<forall>a < brk w. h a = uheap w a) \<and>
      username u = uname \<and> realname u = rname \<and> homedir u = home \<and>
      u_uid u \<notin> u_uid ` set us \<and> (if uidString \<noteq> [] then u_uid u = atoi uidString
        else 1000 \<le> u_uid u \<and> (\<forall>l. 1000 \<le> l \<and> l < u_uid u \<longrightarrow> l \<in> u_uid ` set us)) \<and>
      1000 \<le> u_gid u \<and> u_gid u \<notin> desc_gid ` set gs \<and> (\<forall>l. 1000 \<le> l \<and> l < u_gid u \<longrightarrow> l \<in> desc_gid ` set gs) \<and>
      password u = password (fresh_user w (brk w)) \<and> u_next u = u_next (fresh_user w (brk w))"
proof -
  have path: "home_path (if \<not> isEmptyString dir then dir else uname) = Some home"
    using home by (auto simp: home_path_def strcpy_def strcat_def isEmptyString_def STRING_SIZE_def)
  obtain w1 where new: "malloc_user w = (Some (brk w), w1)"
    by (simp add: malloc_user_def)
  show ?thesis
    using assms(1-4) new
  proof (cases rule: createUser_ids [where uidString = uidString])
    case (bad b)
    then have "createUser dir uidString rname uname w = Some (None, grown w ((uheap w)(brk w \<mapsto> fresh_user w (brk w))) (gheap w) b)"
      using new by (simp add: createUser_def)
    with bad(1) show ?thesis
      by (auto simp: grown_def)
  next
    case (ids uid gid h b b')
    let ?f = "fresh_user w (brk w)"
    let ?v = "?f\<lparr>u_uid := uid, u_gid := gid, homedir := home\<rparr>"
    note run = createUser_def new ids(2-4) path deref_def put_user_def store_def u_mkdir_def
    show ?thesis
    proof (cases "names w home \<noteq> None \<or> denied w home")
      case True
      then have "createUser dir uidString rname uname w = Some (None, grown w (h(brk w \<mapsto> ?v)) (gheap w) b')"
        by (simp add: run)
      with True ids(5) show ?thesis
        by (auto simp: grown_def)
    next
      case False
      let ?u = "?v\<lparr>realname := rname, username := uname\<rparr>"
      have "createUser dir uidString rname uname w = Some (Some (brk w), w\<lparr>uheap := h(brk w \<mapsto> ?u), brk := b',
          names := (names w)(home \<mapsto> next_ino w), next_ino := Suc (next_ino w),
          events := events w @ EvMkdir home # (if proc_uid w = 0 then [EvChown home uid gid] else [])\<rparr>)"
        using False assms(5,6) by (simp add: run u_chown_def strcpy_def) (simp add: grown_def)
      moreover have "\<not> (uidString \<noteq> [] \<and> (atoi uidString = 0 \<or> atoi uidString \<in> u_uid ` set us) \<or> names w home \<noteq> None \<or> denied w home)"
        using False ids(1) by blast
      ultimately show ?thesis
        using ids(5-10) by (simp only: if_False) (intro exI [of _ ?u] exI [of _ "h(brk w \<mapsto> ?u)"] exI [of _ b'], simp)
    qed
  qed
qed

lemma image_group_file:
  assumes "\<forall>d \<in> set gs. group_ok d"
  shows "group_file (image_world (group_text gs) h) [root_user, ken_user, dmr_user, bwk_user] gs"
proof -
  have "file_text (image_world (group_text gs) h) ''/etc/group'' = Some (group_text gs)"
    "strtok2_sp (image_world (group_text gs) h) = None"
    by (simp_all add: image_world_def sample_world_def file_text_def)
  moreover have "\<forall>u \<in> set [root_user, ken_user, dmr_user, bwk_user]. username u \<noteq> []"
    by (simp add: root_user_def ken_user_def dmr_user_def bwk_user_def)
  ultimately show ?thesis
    unfolding group_file_def using assms image_world_ok(2,4) text_of_group_text by simp
qed

theorem createUser_correct_witness:
  "\<exists>a u w'. createUser [] [] ''New'' ''new'' (image_world (group_text [(''root'', 0, [''root''])]) (\<lambda>_. None)) = Some (Some a, w') \<and>
     uheap w' a = Some u \<and> username u = ''new'' \<and> homedir u = ''/home/new'' \<and> u_uid u = 1003 \<and> u_gid u = 1000 \<and>
     password u = ''password''"
proof -
  let ?gs = "[(''root'', 0, [''root''])]"
  let ?w = "image_world (group_text ?gs) (\<lambda>_. None)"
  let ?us = "[root_user, ken_user, dmr_user, bwk_user]"
  have uids: "u_uid ` set ?us = {0, 1000, 1001, 1002}"
    by (simp add: root_user_def ken_user_def dmr_user_def bwk_user_def)
  have "\<forall>d \<in> set ?gs. group_ok d"
    by code_simp
  then have "group_file ?w ?us ?gs"
    by (rule image_group_file)
  moreover have "heap_ok ?w" "names ?w ''/home/new'' = None" "\<not> denied ?w ''/home/new''" "proc_uid ?w = 0"
    by (simp_all add: heap_ok_def image_world_def sample_world_def)
  ultimately obtain a u w' where *: "createUser [] [] ''New'' ''new'' ?w = Some (Some a, w')" "uheap w' a = Some u"
    "username u = ''new''" "homedir u = ''/home/new''" "u_uid u \<notin> u_uid ` set ?us" "1000 \<le> u_uid u"
    "\<forall>l. 1000 \<le> l \<and> l < u_uid u \<longrightarrow> l \<in> u_uid ` set ?us" "1000 \<le> u_gid u"
    "\<forall>l. 1000 \<le> l \<and> l < u_gid u \<longrightarrow> l \<in> desc_gid ` set ?gs" "password u = password (fresh_user ?w a)"
    using createUser_correct [of ?w ?us ?gs "''new''" "''New''" "''/home/new''" "[]" "[]"]
    by (auto simp: STRING_SIZE_def)
  have "u_uid u = 1003"
    using *(5-7) spec [OF *(7), of 1003] unfolding uids by simp
  moreover have "u_gid u = 1000"
    using *(8) spec [OF *(9), of 1000] by simp
  moreover have "password u = ''password''"
    using *(10) by (simp add: image_world_def sample_world_def root_user_def)
  ultimately show ?thesis
    using *(1-4) by blast
qed

end
