(* ===== verification/Permissions.thy ===== *)
theory Permissions
  imports ULib
begin

text \<open>
  \<^verbatim>\<open>src/user/permisionhandler.c\<close>: file modes as \<^verbatim>\<open>ls\<close> prints them and as \<^verbatim>\<open>chmod\<close> reads them.  A mode is an \<^verbatim>\<open>int\<close> whose
  lowest nine bits are three groups of the rights to read, write and execute, for the owner, the group and the others;
  bit 9 is the setuid bit.
\<close>

unbundle bit_operations_syntax

abbreviation (input) SETUID :: int where "SETUID \<equiv> 8"
abbreviation (input) READ_BIT :: int where "READ_BIT \<equiv> 4"
abbreviation (input) WRITE_BIT :: int where "WRITE_BIT \<equiv> 2"
abbreviation (input) EXECUTE_BIT :: int where "EXECUTE_BIT \<equiv> 1"

section \<open>Printing\<close>

text \<open>One round of the loop of \<^verbatim>\<open>getPermisionsString\<close>; the caller's buffer has \<open>cap\<close> characters.\<close>

definition print_bits :: "nat \<Rightarrow> int \<Rightarrow> nat \<Rightarrow> string \<Rightarrow> string option" where
  "print_bits cap permisions i s = do {
     let bitMask = push_bit (i * 3) 7;
     let bitGroup = bitMask AND permisions;
     let bitGroup = drop_bit (i * 3) bitGroup;
     s \<leftarrow> strcat cap s (if bitGroup AND READ_BIT \<noteq> 0 then ''r'' else ''-'');
     s \<leftarrow> strcat cap s (if bitGroup AND WRITE_BIT \<noteq> 0 then ''w'' else ''-'');
     strcat cap s (if bitGroup AND EXECUTE_BIT \<noteq> 0 then ''x'' else ''-'')
   }"

definition getPermisionsString :: "nat \<Rightarrow> int \<Rightarrow> int \<Rightarrow> string option" where
  "getPermisionsString cap permisions type = do {
     s \<leftarrow> strcpy cap (if type = 1 then ''d'' else ''-'');
     s \<leftarrow> print_bits cap permisions 2 s;
     s \<leftarrow> print_bits cap permisions 1 s;
     s \<leftarrow> print_bits cap permisions 0 s;
     if 10 < cap then Some (take 10 s) else undefined_behaviour ''write past the buffer''
   }"

section \<open>Reading\<close>

function octal_loop :: "int \<Rightarrow> int \<Rightarrow> nat \<Rightarrow> int" where
  "octal_loop octalNumber decimalNumber i =
     (if octalNumber = 0 then decimalNumber
      else octal_loop (octalNumber sdiv 10) (s32 (decimalNumber + (octalNumber smod 10) * pow 8 (int i))) (Suc i))"
  by pat_completeness auto
termination
proof (relation "measure (\<lambda>(n, _, _). nat \<bar>n\<bar>)")
  fix n d :: int and i :: nat
  assume "n \<noteq> 0"
  then have "\<bar>n sdiv 10\<bar> < \<bar>n\<bar>"
    by (simp add: signed_divide_int_def abs_mult sgn_if) linarith
  then show "((n sdiv 10, s32 (d + (n smod 10) * pow 8 (int i)), Suc i), (n, d, i)) \<in> measure (\<lambda>(n, _, _). nat \<bar>n\<bar>)"
    by simp
qed simp

declare octal_loop.simps [simp del]

definition convertOctalToDecimal :: "int \<Rightarrow> int" where
  "convertOctalToDecimal octalNumber = octal_loop octalNumber 0 0"

definition who_shift :: "char \<Rightarrow> nat option" where
  "who_shift who =
     (if who = CHR ''a'' then Some 3 else if who = CHR ''u'' then Some 2
      else if who = CHR ''g'' then Some 1 else if who = CHR ''o'' then Some 0 else None)"

definition perm_bit :: "char \<Rightarrow> int option" where
  "perm_bit permChar =
     (if permChar = CHR ''s'' then Some SETUID else if permChar = CHR ''r'' then Some READ_BIT
      else if permChar = CHR ''w'' then Some WRITE_BIT else if permChar = CHR ''x'' then Some EXECUTE_BIT else None)"

definition mode_mask :: "nat \<Rightarrow> int \<Rightarrow> int" where
  "mode_mask shift permBit =
     (if shift = 3 then ((\<lambda>bitMask. push_bit 3 bitMask OR permBit) ^^ shift) 0 else push_bit (shift * 3) permBit)"

definition convertStringToMode :: "string \<Rightarrow> int \<Rightarrow> int" where
  "convertStringToMode modeString oldMode =
     (if length modeString \<noteq> 3 then - 1
      else
        (case who_shift (modeString ! 0) of
           None \<Rightarrow> - 1
         | Some shift \<Rightarrow>
             (case perm_bit (modeString ! 2) of
                None \<Rightarrow> - 1
              | Some permBit \<Rightarrow>
                  if modeString ! 2 = CHR ''s'' \<and> modeString ! 0 \<noteq> CHR ''u'' then - 1
                  else
                    let bitMask = mode_mask shift permBit; oper = modeString ! 1 in
                    if oper = CHR ''+'' then oldMode OR bitMask
                    else if oper = CHR ''-'' then oldMode AND NOT bitMask
                    else - 1)))"

section \<open>The printed mode\<close>

text \<open>The letter that stands for bit \<open>j\<close> of a mode.\<close>

definition letter :: "int \<Rightarrow> nat \<Rightarrow> char" where
  "letter m j = (if bit m j then ''xwr'' ! (j mod 3) else CHR ''-'')"

lemma and_power_of_two: "x AND 2 ^ n \<noteq> 0 \<longleftrightarrow> bit x n" for x :: int
  by (simp add: and_exp_eq_0_iff_not_bit)

lemma group_bits:
  "drop_bit n (push_bit n 7 AND m) AND 4 \<noteq> 0 \<longleftrightarrow> bit m (n + 2)"
  "drop_bit n (push_bit n 7 AND m) AND 2 \<noteq> 0 \<longleftrightarrow> bit m (n + 1)"
  "drop_bit n (push_bit n 7 AND m) AND 1 \<noteq> 0 \<longleftrightarrow> bit m n" for m :: int
proof -
  have seven: "bit (7 :: int) j \<longleftrightarrow> j < 3" for j
    using bit_mask_iff [where 'a = int, of 3 j] by (simp add: mask_eq_exp_minus_1)
  have "bit (drop_bit n (push_bit n 7 AND m)) j \<longleftrightarrow> j < 3 \<and> bit m (n + j)" for j
    by (auto simp: bit_simps seven)
  then show "drop_bit n (push_bit n 7 AND m) AND 4 \<noteq> 0 \<longleftrightarrow> bit m (n + 2)"
    "drop_bit n (push_bit n 7 AND m) AND 2 \<noteq> 0 \<longleftrightarrow> bit m (n + 1)"
    "drop_bit n (push_bit n 7 AND m) AND 1 \<noteq> 0 \<longleftrightarrow> bit m n"
    using and_power_of_two [of _ 2] and_power_of_two [of _ 1] and_power_of_two [of _ 0] by simp_all
qed

lemma print_bits_letters:
  "length s + 3 < cap \<Longrightarrow> print_bits cap m i s = Some (s @ [letter m (i * 3 + 2), letter m (i * 3 + 1), letter m (i * 3)])"
proof -
  assume len: "length s + 3 < cap"
  have "(i * 3 + 2) mod 3 = 2" "(i * 3 + 1) mod 3 = 1" "i * 3 mod 3 = 0"
    by presburger+
  with len show ?thesis
    unfolding print_bits_def Let_def group_bits by (simp add: strcat_def letter_def)
qed

lemma print_mode:
  "10 < cap \<Longrightarrow> getPermisionsString cap m t =
     Some ((if t = 1 then CHR ''d'' else CHR ''-'') # map (letter m) [8, 7, 6, 5, 4, 3, 2, 1, 0])"
  by (simp add: getPermisionsString_def print_bits_letters strcpy_def numeral_2_eq_2)

text \<open>The bits that a mode string speaks about.\<close>

definition right_pos :: "char \<Rightarrow> nat" where
  "right_pos perm = (if perm = CHR ''r'' then 2 else if perm = CHR ''w'' then 1 else 0)"

definition named_bits :: "char \<Rightarrow> char \<Rightarrow> nat set" where
  "named_bits who perm = (\<lambda>g. 3 * g + right_pos perm) `
     (if who = CHR ''a'' then {0, 1, 2} else if who = CHR ''u'' then {2} else if who = CHR ''g'' then {1} else {0})"

lemma mode_mask_bits:
  "bit (mode_mask 3 (2 ^ k)) j \<longleftrightarrow> j \<in> {k, 3 + k, 6 + k}"
  "n < 3 \<Longrightarrow> bit (mode_mask n (2 ^ k)) j \<longleftrightarrow> j = 3 * n + k"
proof -
  have "mode_mask 3 (2 ^ k) = push_bit 3 (push_bit 3 (2 ^ k) OR 2 ^ k) OR 2 ^ k"
    unfolding mode_mask_def numeral_3_eq_3
    by (simp only: funpow.simps comp_apply id_apply if_True simp_thms push_bit_of_0 or.left_neutral)
  then show "bit (mode_mask 3 (2 ^ k)) j \<longleftrightarrow> j \<in> {k, 3 + k, 6 + k}"
    unfolding \<open>mode_mask 3 (2 ^ k) = _\<close> bit_or_iff bit_push_bit_iff bit_exp_iff by auto
  show "bit (mode_mask n (2 ^ k)) j \<longleftrightarrow> j = 3 * n + k" if "n < 3"
    using that by (auto simp: mode_mask_def bit_simps)
qed

lemma mode_string_mask:
  assumes "who \<in> set ''augo''" "perm \<in> set ''rwx''"
  obtains sh where "who_shift who = Some sh" "perm_bit perm = Some (2 ^ right_pos perm)"
    "\<forall>j. bit (mode_mask sh (2 ^ right_pos perm)) j \<longleftrightarrow> j \<in> named_bits who perm"
proof -
  have "perm_bit perm = Some (2 ^ right_pos perm)"
    using assms(2) by (auto simp: perm_bit_def right_pos_def)
  moreover obtain sh where "who_shift who = Some sh" "sh = 3 \<and> who = CHR ''a'' \<or> sh < 3 \<and> who \<noteq> CHR ''a''"
    "sh < 3 \<Longrightarrow> named_bits who perm = {3 * sh + right_pos perm}"
    using assms(1) by (auto simp: who_shift_def named_bits_def)
  ultimately show ?thesis
    using that [of sh] mode_mask_bits by (auto simp: named_bits_def)
qed

text \<open>Setting and clearing the named bits.\<close>

lemma convert_bits:
  assumes "who \<in> set ''augo''" "perm \<in> set ''rwx''" "oper \<in> set ''+-''"
  shows "bit (convertStringToMode [who, oper, perm] m) j \<longleftrightarrow>
    (if j \<in> named_bits who perm then oper = CHR ''+'' else bit m j)"
proof -
  obtain sh where *: "who_shift who = Some sh" "perm_bit perm = Some (2 ^ right_pos perm)"
    "\<forall>j. bit (mode_mask sh (2 ^ right_pos perm)) j \<longleftrightarrow> j \<in> named_bits who perm"
    by (rule mode_string_mask [OF assms(1,2)])
  have "perm \<noteq> CHR ''s''"
    using assms(2) by auto
  then show ?thesis
    using assms(3) by (auto simp: convertStringToMode_def * bit_simps Let_def)
qed

text \<open>
  C27: \<^verbatim>\<open>chmod\<close> and \<^verbatim>\<open>ls\<close> agree.  After a change by a mode string such as \<^verbatim>\<open>g+w\<close> or \<^verbatim>\<open>a-x\<close>, the printed mode shows, at
  each of its nine positions, the letter of the right or a dash where the string names the position, and what it showed
  before everywhere else.  The printed mode takes eleven characters with its NUL, so the array of ten that \<^verbatim>\<open>ls\<close> has for
  it overflows.
\<close>

theorem chmod_ls_agree:
  assumes "who \<in> set ''augo''" "perm \<in> set ''rwx''" "oper \<in> set ''+-''" "10 < cap"
  shows "(\<exists>old new. getPermisionsString cap m t = Some old \<and>
      getPermisionsString cap (convertStringToMode [who, oper, perm] m) t = Some new \<and>
      length old = 10 \<and> length new = 10 \<and> new ! 0 = old ! 0 \<and>
      (\<forall>j < 9. new ! (9 - j) = (if j \<in> named_bits who perm then if oper = CHR ''+'' then perm else CHR ''-'' else old ! (9 - j)))) \<and>
    getPermisionsString 10 m t = None"
proof -
  have named: "''xwr'' ! (j mod 3) = perm" if "j \<in> named_bits who perm" for j
    using that assms(2) by (auto simp: named_bits_def right_pos_def split: if_splits)
  have "(a # map (letter k) [8, 7, 6, 5, 4, 3, 2, 1, 0]) ! (9 - j) = letter k j" if "j < 9" for a k j
    using that by (auto simp: less_Suc_eq numeral_eq_Suc)
  then have "\<forall>j < 9. (a # map (letter (convertStringToMode [who, oper, perm] m)) [8, 7, 6, 5, 4, 3, 2, 1, 0]) ! (9 - j) =
      (if j \<in> named_bits who perm then if oper = CHR ''+'' then perm else CHR ''-''
       else (a # map (letter m) [8, 7, 6, 5, 4, 3, 2, 1, 0]) ! (9 - j))" for a
    using convert_bits [OF assms(1-3), of m] named by (simp only: letter_def) auto
  moreover have "length (a # map (letter k) [8, 7, 6, 5, 4, 3, 2, 1, 0]) = 10" "(a # xs) ! 0 = a" for a k and xs :: string
    by simp_all
  moreover have "getPermisionsString 10 m t = None"
    by (simp add: getPermisionsString_def print_bits_letters strcpy_def bind_eq_None_conv split: bind_split)
  ultimately show ?thesis
    unfolding print_mode [OF assms(4)] option.inject by metis
qed

theorem chmod_ls_agree_witness:
  "\<exists>new. getPermisionsString 11 (convertStringToMode ''g+w'' 0x1A4) 2 = Some new \<and> length new = 10 \<and> new ! 5 = CHR ''w''"
proof -
  have "CHR ''g'' \<in> set ''augo''" "CHR ''w'' \<in> set ''rwx''" "CHR ''+'' \<in> set ''+-''" "10 < (11 :: nat)"
    by simp_all
  from chmod_ls_agree [OF this, of "0x1A4" 2] obtain new where
    *: "getPermisionsString 11 (convertStringToMode ''g+w'' 0x1A4) 2 = Some new" "length new = 10"
    "\<forall>j < 9. j \<in> named_bits (CHR ''g'') (CHR ''w'') \<longrightarrow> new ! (9 - j) = CHR ''w''"
    by auto
  have "4 \<in> named_bits (CHR ''g'') (CHR ''w'')"
    by (simp add: named_bits_def right_pos_def)
  then have "new ! 5 = CHR ''w''"
    using *(3) [rule_format, of 4] by simp
  with *(1,2) show ?thesis
    by blast
qed

section \<open>Octal modes\<close>

text \<open>The value of a list of digits, the most significant one first.\<close>

definition digits_value :: "int \<Rightarrow> nat list \<Rightarrow> int" where
  "digits_value b ds = foldl (\<lambda>n d. b * n + int d) 0 ds"

lemma digits_value_simps [simp]:
  "digits_value b [] = 0" "digits_value b (ds @ [d]) = b * digits_value b ds + int d"
  by (simp_all add: digits_value_def)

lemma digits_value_nonneg: "0 \<le> b \<Longrightarrow> 0 \<le> digits_value b ds"
  by (induction ds rule: rev_induct) simp_all

lemma digits_value_bound: "\<forall>d \<in> set ds. int d < b \<Longrightarrow> digits_value b ds < b ^ length ds"
proof (induction ds rule: rev_induct)
  case (snoc d ds)
  then have "digits_value b ds + 1 \<le> b ^ length ds" "int d < b"
    by auto
  then have "b * (digits_value b ds + 1) \<le> b * b ^ length ds"
    by (intro mult_left_mono) auto
  with \<open>int d < b\<close> show ?case
    by (simp add: algebra_simps)
qed simp

lemma digits_value_0: "0 < b \<Longrightarrow> digits_value b ds = 0 \<longleftrightarrow> (\<forall>d \<in> set ds. d = 0)"
proof (induction ds rule: rev_induct)
  case (snoc d ds)
  have "b * digits_value b ds + int d = 0 \<longleftrightarrow> digits_value b ds = 0 \<and> d = 0"
    using digits_value_nonneg [of b ds] snoc.prems by (auto simp: add_nonneg_eq_0_iff)
  with snoc show ?case
    by auto
qed simp

lemma pow_8: "i \<le> 9 \<Longrightarrow> pow 8 (int i) = 8 ^ i"
proof -
  have "pow_loop 8 r k = r * 8 ^ k" if "0 \<le> r" "r * 8 ^ k < 2 ^ 31" for r k
    using that
  proof (induction k arbitrary: r)
    case (Suc k)
    have "r * 8 * 1 \<le> r * 8 * 8 ^ k"
      using Suc.prems(1) by (intro mult_left_mono) simp_all
    then have "s32 (r * 8) = r * 8"
      using Suc.prems by (intro s32_id) (simp_all add: algebra_simps)
    with Suc show ?case
      by (simp add: algebra_simps)
  qed simp
  moreover assume "i \<le> 9"
  then have "(8 :: int) ^ i \<le> 8 ^ 9"
    by (intro power_increasing) simp_all
  ultimately show ?thesis
    by (simp add: pow_def)
qed

lemma atoi_digits:
  "\<forall>d \<in> set ds. d < 10 \<Longrightarrow> digits_value 10 ds < 2 ^ 31 \<Longrightarrow>
   atoi (map (\<lambda>d. char_of (48 + int d)) ds) = digits_value 10 ds"
proof (induction ds rule: rev_induct)
  case (snoc d ds)
  let ?s = "map (\<lambda>d. char_of (48 + int d)) ds"
  have "list_all is_digit ?s"
    using snoc.prems(1) is_digit_char_of by (auto simp: list_all_iff)
  moreover have "is_digit (char_of (48 + int d))" "of_char (char_of (48 + int d) :: char) = 48 + int d"
    using snoc.prems(1) is_digit_char_of [of "int d"] by simp_all
  moreover have "atoi ?s = digits_value 10 ds" "s32 (10 * digits_value 10 ds + int d) = 10 * digits_value 10 ds + int d"
    using snoc digits_value_nonneg [of 10 ds] by simp_all
  ultimately show ?case
    by (simp add: atoi_def atoi_loop_append_digit algebra_simps)
qed (simp add: atoi_def)

lemma octal_loop_digits:
  assumes "\<forall>d \<in> set ds. d < 8" "i + length ds \<le> 9" "0 \<le> acc" "acc < 8 ^ i"
  shows "octal_loop (digits_value 10 ds) acc i = acc + 8 ^ i * digits_value 8 ds"
  using assms
proof (induction ds arbitrary: acc i rule: rev_induct)
  case Nil
  then show ?case
    by (simp add: octal_loop.simps)
next
  case (snoc d ds)
  let ?n = "10 * digits_value 10 ds + int d"
  have nn: "0 \<le> digits_value 10 ds" and d: "d < 8"
    using digits_value_nonneg [of 10 ds] snoc.prems(1) by simp_all
  show ?case
  proof (cases "?n = 0")
    case True
    then have "\<forall>e \<in> set (ds @ [d]). e = 0"
      using digits_value_0 [of 10 "ds @ [d]"] by simp
    then have "digits_value 8 (ds @ [d]) = 0"
      using digits_value_0 [of 8 "ds @ [d]"] by simp
    with True show ?thesis
      by (simp add: octal_loop.simps [of 0])
  next
    case False
    have parts: "?n sdiv 10 = digits_value 10 ds" "?n smod 10 = int d"
      using nn d by (simp_all add: signed_divide_int_def signed_modulo_int_def sgn_if)
    have "int d * 8 ^ i \<le> 7 * 8 ^ i"
      using d by (intro mult_right_mono) simp_all
    then have acc: "acc + int d * 8 ^ i < 8 ^ Suc i"
      using snoc.prems(4) unfolding power_Suc by linarith
    also have "(8 :: int) ^ Suc i \<le> 8 ^ 9"
      using snoc.prems(2) by (intro power_increasing) simp_all
    finally have s: "s32 (acc + int d * 8 ^ i) = acc + int d * 8 ^ i"
    proof (intro s32_id)
      have "0 \<le> acc + int d * 8 ^ i"
        using snoc.prems(3) by simp
      then show "- (2 ^ 31) \<le> acc + int d * 8 ^ i"
        by simp
    qed simp
    have "octal_loop (digits_value 10 (ds @ [d])) acc i = octal_loop (digits_value 10 ds) (acc + int d * 8 ^ i) (Suc i)"
      using False parts s snoc.prems(2) by (simp add: octal_loop.simps [of ?n] pow_8)
    also have "\<dots> = acc + int d * 8 ^ i + 8 ^ Suc i * digits_value 8 ds"
      using snoc.prems acc by (intro snoc.IH) simp_all
    finally show ?thesis
      by (simp add: algebra_simps)
  qed
qed

text \<open>
  C33: \<^verbatim>\<open>chmod\<close> reads a mode that is written in octal, as in \<^verbatim>\<open>chmod 0755\<close>: for every string of at most nine octal digits,
  \<^verbatim>\<open>atoi\<close> followed by \<^verbatim>\<open>convertOctalToDecimal\<close> ends and gives the number that the string denotes in base eight.
\<close>

theorem chmod_octal:
  assumes "\<forall>d \<in> set ds. d < 8" "length ds \<le> 9"
  shows "convertOctalToDecimal (atoi (map (\<lambda>d. char_of (48 + int d)) ds)) = digits_value 8 ds"
proof -
  have "\<forall>d \<in> set ds. int d < 10"
    using assms(1) by auto
  then have "digits_value 10 ds < 10 ^ length ds"
    by (rule digits_value_bound)
  also have "(10 :: int) ^ length ds \<le> 10 ^ 9"
    using assms(2) by (intro power_increasing) simp_all
  finally have "digits_value 10 ds < 2 ^ 31"
    by simp
  moreover have "\<forall>d \<in> set ds. d < 10"
    using assms(1) by auto
  ultimately show ?thesis
    using octal_loop_digits [OF assms(1), of 0 0] assms(2) by (simp add: convertOctalToDecimal_def atoi_digits)
qed

theorem chmod_octal_witness: "convertOctalToDecimal (atoi ''0755'') = 0x1ED"
proof -
  have "map (\<lambda>d. char_of (48 + int d)) [0, 7, 5, 5] = ''0755''"
    by code_simp
  then show ?thesis
    using chmod_octal [of "[0, 7, 5, 5]"] by (simp add: digits_value_def)
qed

end
