(* ===== verification/Grep.thy ===== *)
theory Grep
  imports ULib
begin

text \<open>
  \<^verbatim>\<open>src/user/grep.c\<close>: the pattern matcher and the loop that reads a file through a buffer of 1024 bytes.  The matcher is
  compared with patterns as lists of items and their languages, and the loop with a filter on the lines of the file.
\<close>

section \<open>The matcher\<close>

text \<open>
  Patterns and texts are strings without their NUL.  \<^verbatim>\<open>matchstar\<close> is a loop over the positions of the text: its test of
  \<^verbatim>\<open>matchhere\<close> comes first, and it goes on while the character is \<open>c\<close> or \<open>c\<close> is a dot.
\<close>

function (sequential) matchhere :: "string \<Rightarrow> string \<Rightarrow> bool" and matchstar :: "char \<Rightarrow> string \<Rightarrow> string \<Rightarrow> bool" where
  "matchhere re str =
     (case re of
        [] \<Rightarrow> True
      | c # re' \<Rightarrow>
          if re' \<noteq> [] \<and> hd re' = CHR ''*'' then matchstar c (tl re') str
          else if c = CHR ''$'' \<and> re' = [] then str = []
          else (case str of [] \<Rightarrow> False | t # str' \<Rightarrow> (c = CHR ''.'' \<or> c = t) \<and> matchhere re' str'))"
| "matchstar c re str =
     (matchhere re str \<or>
      (case str of [] \<Rightarrow> False | t # str' \<Rightarrow> (t = c \<or> c = CHR ''.'') \<and> matchstar c re str'))"
  by pat_completeness auto
termination
  by (relation "measures [\<lambda>x. case x of Inl (re, str) \<Rightarrow> length re | Inr (c, re, str) \<Rightarrow> Suc (length re),
       \<lambda>x. case x of Inl (re, str) \<Rightarrow> length str | Inr (c, re, str) \<Rightarrow> length str]")
    (auto split: list.splits)

declare matchhere.simps [simp del] matchstar.simps [simp del]

text \<open>The loop of \<^verbatim>\<open>match\<close> over the positions of the text, the empty one at its end included.\<close>

fun match_loop :: "string \<Rightarrow> string \<Rightarrow> bool" where
  "match_loop re [] = matchhere re []"
| "match_loop re (t # str) = (matchhere re (t # str) \<or> match_loop re str)"

definition match :: "string \<Rightarrow> string \<Rightarrow> bool" where
  "match re str =
     (case re of c # re' \<Rightarrow> if c = CHR ''^'' then matchhere re' str else match_loop re str | [] \<Rightarrow> match_loop re str)"

section \<open>The loop over the file\<close>

text \<open>
  One pass over the buffer: \<^verbatim>\<open>strchr\<close> finds the newlines.  The result is what is written and the rest behind the last
  newline.
\<close>

definition cstr :: "string \<Rightarrow> string" where
  "cstr s = takeWhile (\<lambda>c. c \<noteq> NUL) s"

function grep_lines :: "string \<Rightarrow> string \<Rightarrow> string \<times> string" where
  "grep_lines pattern p =
     (case strchr (cstr p) (CHR 0x0A) of
        None \<Rightarrow> ([], p)
      | Some q \<Rightarrow>
          let k = length (cstr p) - length q;
              l = take k p;
              (out, rest) = grep_lines pattern (drop (Suc k) p)
          in ((if match pattern l then l @ [CHR 0x0A] else []) @ out, rest))"
  by pat_completeness auto
termination
proof (relation "measure (\<lambda>(_, p). length p)")
  fix p q :: string and pattern k
  assume "strchr (cstr p) (CHR 0x0A) = Some q"
  then have "p \<noteq> []"
    by (auto simp: cstr_def)
  then show "((pattern, drop (Suc k) p), (pattern, p)) \<in> measure (\<lambda>(_, p). length p)"
    by simp
qed simp

declare grep_lines.simps [simp del]

text \<open>
  The outer loop, with \<open>m\<close> the bytes kept in the buffer.  \<open>read n s\<close> is what the system call returns when it is asked for at
  most \<open>n\<close> bytes, with the state of the file behind them.
\<close>

partial_function (option) grep :: "(nat \<Rightarrow> 's \<Rightarrow> string \<times> 's) \<Rightarrow> string \<Rightarrow> string \<Rightarrow> 's \<Rightarrow> string option" where
  "grep read pattern m s =
     (case read (1024 - length m - 1) s of (chunk, s) \<Rightarrow>
        if chunk = [] then Some []
        else
          (case grep_lines pattern (m @ chunk) of (written, rest) \<Rightarrow> do {
             more \<leftarrow> grep read pattern (if length rest = length (m @ chunk) then [] else rest) s;
             Some (written @ more)
           }))"

section \<open>Patterns and their languages\<close>

datatype item = One char | Star char | End

fun items :: "string \<Rightarrow> item list" where
  "items [] = []"
| "items [c] = [if c = CHR ''$'' then End else One c]"
| "items (c # d # re) = (if d = CHR ''*'' then Star c # items re else One c # items (d # re))"

definition hits :: "char \<Rightarrow> char \<Rightarrow> bool" where
  "hits c t \<longleftrightarrow> c = CHR ''.'' \<or> c = t"

fun lang :: "item list \<Rightarrow> string set" where
  "lang [] = {[]}"
| "lang (One c # its) = {t # u | t u. hits c t \<and> u \<in> lang its}"
| "lang (Star c # its) = {v @ u | v u. list_all (hits c) v \<and> u \<in> lang its}"
| "lang (End # its) = lang its"

definition to_end :: "item list \<Rightarrow> bool" where
  "to_end its \<longleftrightarrow> its \<noteq> [] \<and> last its = End"

text \<open>A prefix of the text is in the language, and all of it if the pattern asks for that.\<close>

definition begins :: "item list \<Rightarrow> string \<Rightarrow> bool" where
  "begins its str \<longleftrightarrow> (\<exists>u post. str = u @ post \<and> u \<in> lang its \<and> (to_end its \<longrightarrow> post = []))"

lemma to_end_simps [simp]:
  "\<not> to_end []" "to_end [End]" "to_end (One c # its) = to_end its" "to_end (Star c # its) = to_end its"
  by (simp_all add: to_end_def)

lemma begins_One:
  "begins (One c # its) (t # str) \<longleftrightarrow> hits c t \<and> begins its str"
proof
  assume "begins (One c # its) (t # str)"
  then obtain u post where "t # str = u @ post" "u \<in> lang (One c # its)" "to_end its \<longrightarrow> post = []"
    unfolding begins_def to_end_simps by blast
  then obtain u' where "str = u' @ post" "u' \<in> lang its" "to_end its \<longrightarrow> post = []" "hits c t"
    by auto
  then show "hits c t \<and> begins its str"
    unfolding begins_def by blast
next
  assume "hits c t \<and> begins its str"
  then obtain u post where "str = u @ post" "u \<in> lang its" "to_end its \<longrightarrow> post = []" "hits c t"
    unfolding begins_def by blast
  then have "t # str = (t # u) @ post \<and> t # u \<in> lang (One c # its) \<and> (to_end (One c # its) \<longrightarrow> post = [])"
    by simp
  then show "begins (One c # its) (t # str)"
    unfolding begins_def by blast
qed

lemma begins_Star:
  "begins (Star c # its) str \<longleftrightarrow> (\<exists>v str'. str = v @ str' \<and> list_all (hits c) v \<and> begins its str')"
proof
  assume "begins (Star c # its) str"
  then obtain u0 post where *: "str = u0 @ post" "u0 \<in> lang (Star c # its)" "to_end its \<longrightarrow> post = []"
    unfolding begins_def to_end_simps by blast
  then obtain v u where "str = v @ (u @ post)" "list_all (hits c) v" "u \<in> lang its"
    by auto
  with *(3) show "\<exists>v str'. str = v @ str' \<and> list_all (hits c) v \<and> begins its str'"
    unfolding begins_def by blast
next
  assume "\<exists>v str'. str = v @ str' \<and> list_all (hits c) v \<and> begins its str'"
  then obtain v str' where v: "str = v @ str'" "list_all (hits c) v" "begins its str'"
    by blast
  then obtain u post where "str' = u @ post" "u \<in> lang its" "to_end its \<longrightarrow> post = []"
    unfolding begins_def by blast
  with v have "str = (v @ u) @ post \<and> v @ u \<in> lang (Star c # its) \<and> (to_end (Star c # its) \<longrightarrow> post = [])"
    by auto
  then show "begins (Star c # its) str"
    unfolding begins_def by blast
qed

lemma begins_simps:
  "begins [] str" "begins [End] str \<longleftrightarrow> str = []"
  "begins (One c # its) str \<longleftrightarrow> (case str of [] \<Rightarrow> False | t # str' \<Rightarrow> hits c t \<and> begins its str')"
proof -
  show "begins (One c # its) str \<longleftrightarrow> (case str of [] \<Rightarrow> False | t # str' \<Rightarrow> hits c t \<and> begins its str')"
  proof (cases str)
    case Nil
    then show ?thesis
      by (simp add: begins_def)
  next
    case (Cons t str')
    then show ?thesis
      by (simp add: begins_One)
  qed
qed (simp_all add: begins_def)

lemma begins_Star_Cons:
  "begins (Star c # its) (t # str) \<longleftrightarrow> begins its (t # str) \<or> hits c t \<and> begins (Star c # its) str"
proof
  assume "begins (Star c # its) (t # str)"
  then obtain v str' where "t # str = v @ str'" "list_all (hits c) v" "begins its str'"
    unfolding begins_Star by blast
  then show "begins its (t # str) \<or> hits c t \<and> begins (Star c # its) str"
    by (cases v) (auto simp: begins_Star)
next
  assume "begins its (t # str) \<or> hits c t \<and> begins (Star c # its) str"
  then show "begins (Star c # its) (t # str)"
  proof
    assume "begins its (t # str)"
    then have "t # str = [] @ t # str \<and> list_all (hits c) [] \<and> begins its (t # str)"
      by simp
    then show ?thesis
      unfolding begins_Star by blast
  next
    assume *: "hits c t \<and> begins (Star c # its) str"
    then obtain v str' where "str = v @ str'" "list_all (hits c) v" "begins its str'"
      unfolding begins_Star by blast
    with * have "t # str = (t # v) @ str' \<and> list_all (hits c) (t # v) \<and> begins its str'"
      by simp
    then show ?thesis
      unfolding begins_Star by blast
  qed
qed

lemma matchhere_begins:
  "matchhere re str \<longleftrightarrow> begins (items re) str"
  "matchstar c re str \<longleftrightarrow> begins (Star c # items re) str"
proof (induction re str and c re str rule: matchhere_matchstar.induct)
  case (1 re str)
  show ?case
  proof (cases re rule: items.cases)
    case 1
    then show ?thesis
      by (simp add: matchhere.simps begins_simps)
  next
    case (2 c)
    have "matchhere [] s" for s
      by (simp add: matchhere.simps)
    with 2 show ?thesis
      by (subst matchhere.simps) (simp add: begins_simps hits_def split: list.splits)
  next
    case (3 c d re')
    show ?thesis
    proof (cases "d = CHR ''*''")
      case True
      then have "matchhere re str = matchstar c re' str"
        by (subst matchhere.simps) (simp add: 3)
      with True show ?thesis
        using "1.IH"(1) [OF 3] by (simp add: 3)
    next
      case False
      then have "matchhere re str = (case str of [] \<Rightarrow> False | t # str' \<Rightarrow> hits c t \<and> matchhere (d # re') str')"
        by (subst matchhere.simps) (simp add: 3 hits_def split: list.splits)
      with False show ?thesis
        using "1.IH"(2) [OF 3] by (simp add: 3 begins_simps hits_def split: list.splits)
    qed
  qed
next
  case (2 c re str)
  show ?case
  proof (cases str)
    case Nil
    with 2 show ?thesis
      by (simp add: matchstar.simps begins_Star)
  next
    case (Cons t str')
    have "matchstar c re str \<longleftrightarrow> matchhere re str \<or> hits c t \<and> matchstar c re str'"
      by (subst matchstar.simps) (auto simp: Cons hits_def)
    then show ?thesis
      using 2 Cons begins_Star_Cons [of c "items re" t str'] by (auto simp: hits_def)
  qed
qed

lemma match_loop_begins: "match_loop re str \<longleftrightarrow> (\<exists>pre str'. str = pre @ str' \<and> begins (items re) str')"
  by (induction re str rule: match_loop.induct) (auto simp: matchhere_begins Cons_eq_append_conv)

text \<open>
  C25: the matcher of \<^verbatim>\<open>grep\<close> ends on every pattern and text and decides whether the text has a part in the language of the
  pattern: characters and dots stand for one character, a star for any number of its character, a leading caret ties the
  part to the start of the text and a final dollar sign to its end.
\<close>

theorem match_correct:
  "match re str \<longleftrightarrow>
     (let caret = (re \<noteq> [] \<and> hd re = CHR ''^''); its = items (if caret then tl re else re) in
      \<exists>pre u post. str = pre @ u @ post \<and> u \<in> lang its \<and> (caret \<longrightarrow> pre = []) \<and> (to_end its \<longrightarrow> post = []))"
proof (cases "re \<noteq> [] \<and> hd re = CHR ''^''")
  case True
  then have "match re str = matchhere (tl re) str"
    by (cases re) (auto simp: match_def)
  then show ?thesis
    using True by (simp add: matchhere_begins begins_def Let_def)
next
  case False
  then have "match re str = match_loop re str"
    by (cases re) (auto simp: match_def)
  then show ?thesis
    unfolding match_loop_begins begins_def Let_def if_not_P [OF False] using False by blast
qed

theorem match_correct_witness: "match ''^b*.c$'' ''bbac'' \<and> \<not> match ''^c'' ''bbac''"
proof -
  let ?its = "[Star (CHR ''b''), One (CHR ''.''), One (CHR ''c''), End]"
  have "\<exists>v u. ''bbac'' = v @ u \<and> list_all (hits (CHR ''b'')) v \<and> u \<in> lang (tl ?its)"
    by (intro exI [of _ "''bb''"] exI [of _ "''ac''"]) (simp add: hits_def)
  then have "''bbac'' \<in> lang ?its"
    by simp
  then have "''bbac'' = [] @ ''bbac'' @ [] \<and> ''bbac'' \<in> lang ?its"
    by simp
  then have "match ''^b*.c$'' ''bbac''"
    unfolding match_correct by (simp add: Let_def del: lang.simps)
  moreover have "\<not> match ''^c'' ''bbac''"
    unfolding match_correct by (auto simp: hits_def)
  ultimately show ?thesis ..
qed

section \<open>Lines of a file\<close>

definition lines_text :: "string list \<Rightarrow> string" where
  "lines_text ls = concat (map (\<lambda>l. l @ [CHR 0x0A]) ls)"

definition is_line :: "string \<Rightarrow> bool" where
  "is_line l \<longleftrightarrow> CHR 0x0A \<notin> set l \<and> NUL \<notin> set l"

lemma lines_text_simps [simp]:
  "lines_text [] = []" "lines_text (l # ls) = l @ CHR 0x0A # lines_text ls"
  "lines_text (ls @ ls') = lines_text ls @ lines_text ls'"
  by (simp_all add: lines_text_def)

lemma cstr_id: "NUL \<notin> set s \<Longrightarrow> cstr s = s"
  unfolding cstr_def by (rule takeWhile_eq_all_conv [THEN iffD2]) auto

lemma strchr_first: "c \<notin> set l \<Longrightarrow> strchr (l @ c # r) c = Some (c # r)"
  by (induction l) auto

lemma strchr_none: "strchr l c = None \<longleftrightarrow> c \<notin> set l"
  by (induction l) auto

lemma grep_lines_text:
  assumes "\<forall>l \<in> set ls. is_line l" "is_line r"
  shows "grep_lines pattern (lines_text ls @ r) = (lines_text (filter (match pattern) ls), r)"
  using assms(1)
proof (induction ls)
  case Nil
  then show ?case
    using assms(2) by (subst grep_lines.simps) (simp add: is_line_def cstr_id strchr_none [THEN iffD2])
next
  case (Cons l ls)
  have l: "CHR 0x0A \<notin> set l" "NUL \<notin> set l"
    using Cons.prems by (simp_all add: is_line_def)
  have "NUL \<notin> set (lines_text (l # ls) @ r)"
    using Cons.prems assms(2) by (auto simp: is_line_def lines_text_def NUL_def)
  then have "cstr (lines_text (l # ls) @ r) = l @ CHR 0x0A # lines_text ls @ r"
    by (subst cstr_id) simp_all
  with Cons l show ?case
    by (subst grep_lines.simps) (simp add: strchr_first Let_def)
qed

text \<open>A piece at the start of a text ends in the middle of a line.\<close>

lemma cut_lines:
  assumes "p @ s = lines_text ls @ r" "\<forall>l \<in> set ls. is_line l" "is_line r"
  shows "\<exists>ls1 ls2 q. ls = ls1 @ ls2 \<and> p = lines_text ls1 @ q \<and> is_line q \<and> q @ s = lines_text ls2 @ r"
  using assms
proof (induction ls arbitrary: p)
  case Nil
  then have "set p \<subseteq> set r"
    by (metis append_Nil lines_text_simps(1) set_append Un_upper1)
  with Nil show ?case
    by (intro exI [of _ "[]"] exI [of _ p]) (auto simp: is_line_def)
next
  case (Cons l ls)
  show ?case
  proof (cases "length p \<le> length l")
    case True
    then have "p = take (length p) l"
      using arg_cong [OF Cons.prems(1), of "take (length p)"] by simp
    then have "is_line p"
      using Cons.prems(2) set_take_subset [of "length p" l] by (auto simp: is_line_def)
    with Cons.prems(1) show ?thesis
      by (intro exI [of _ "[]"] exI [of _ "l # ls"] exI [of _ p]) simp
  next
    case False
    then have "take (length l + 1) p = l @ [CHR 0x0A]"
      using arg_cong [OF Cons.prems(1), of "take (length l + 1)"] by simp
    then obtain p' where p: "p = l @ CHR 0x0A # p'"
      by (metis append.assoc append_Cons append_Nil append_take_drop_id)
    with Cons.prems have "p' @ s = lines_text ls @ r"
      by simp
    with Cons obtain ls1 ls2 q where "ls = ls1 @ ls2" "p' = lines_text ls1 @ q" "is_line q" "q @ s = lines_text ls2 @ r"
      by (metis list.set_intros(2))
    then show ?thesis
      by (intro exI [of _ "l # ls1"] exI [of _ ls2] exI [of _ q]) (simp add: p)
  qed
qed

text \<open>Reading a file: as much as is asked for, and the rest later.\<close>

definition file_read :: "nat \<Rightarrow> string \<Rightarrow> string \<times> string" where
  "file_read n s = (take n s, drop n s)"

lemma grep_step:
  assumes "m @ s = lines_text ls @ r" "\<forall>l \<in> set ls. is_line l \<and> length l < 1023" "is_line r" "length m < 1023" "s \<noteq> []"
  obtains ls1 ls2 m' where "ls = ls1 @ ls2"
    "grep file_read pattern m s =
       map_option (\<lambda>more. lines_text (filter (match pattern) ls1) @ more) (grep file_read pattern m' (drop (1023 - length m) s))"
    "\<exists>r'. is_line r' \<and> m' @ drop (1023 - length m) s = lines_text ls2 @ r'" "length m' < 1023" "is_line m'"
proof -
  let ?c = "take (1023 - length m) s" and ?s = "drop (1023 - length m) s"
  have "?c \<noteq> []"
    using assms(4,5) by simp
  have "(m @ ?c) @ ?s = lines_text ls @ r" "\<forall>l \<in> set ls. is_line l"
    using assms(1,2) by simp_all
  from cut_lines [OF this assms(3)] obtain ls1 ls2 q where
    cut: "ls = ls1 @ ls2" "m @ ?c = lines_text ls1 @ q" "is_line q" "q @ ?s = lines_text ls2 @ r"
    by blast
  let ?m = "if length q = length (m @ ?c) then [] else q"
  have "grep_lines pattern (m @ ?c) = (lines_text (filter (match pattern) ls1), q)"
    unfolding cut(2) using assms(2) cut(1,3) by (intro grep_lines_text) auto
  then have "grep file_read pattern m s =
      map_option (\<lambda>more. lines_text (filter (match pattern) ls1) @ more) (grep file_read pattern ?m ?s)"
    using \<open>?c \<noteq> []\<close> by (subst grep.simps) (simp add: file_read_def map_option_bind map_option_case split: option.splits)
  moreover have "length ?m < 1023" "is_line ?m"
    using arg_cong [OF cut(2), of length] assms(4) cut(3)
    by (auto simp: is_line_def simp flip: length_greater_0_conv)
  moreover have "\<exists>r'. is_line r' \<and> ?m @ ?s = lines_text ls2 @ r'"
  proof (cases "length q = length (m @ ?c)")
    case False
    with cut(4) assms(3) show ?thesis
      by auto
  next
    case True
    have "ls2 = []"
    proof (rule ccontr)
      assume "ls2 \<noteq> []"
      then obtain l ls' where l: "ls2 = l # ls'"
        by (cases ls2) auto
      then have len: "length l < 1023" and eq: "q @ ?s = l @ CHR 0x0A # lines_text ls' @ r"
        using assms(2) cut(1,4) by auto
      show False
      proof (cases "length l < length q")
        case True
        then have "q ! length l = CHR 0x0A"
          using arg_cong [OF eq, of "\<lambda>x. x ! length l"] by (simp add: nth_append)
        then show False
          using True cut(3) by (metis is_line_def nth_mem)
      next
        case longer: False
        then have "length (m @ ?c) < 1023"
          using True len by simp
        then have "?s = []"
          by auto
        then show False
          using eq longer arg_cong [OF eq, of length] by simp
      qed
    qed
    then have "is_line ?s"
      using cut(4) assms(3) by (metis UnCI append_Nil is_line_def lines_text_simps(1) set_append)
    with True \<open>ls2 = []\<close> show ?thesis
      by simp
  qed
  ultimately show ?thesis
    using that [OF cut(1), of ?m] by blast
qed

lemma grep_file_lines:
  "m @ s = lines_text ls @ r \<Longrightarrow> \<forall>l \<in> set ls. is_line l \<and> length l < 1023 \<Longrightarrow> is_line r \<Longrightarrow> length m < 1023 \<Longrightarrow> is_line m \<Longrightarrow>
   grep file_read pattern m s = Some (lines_text (filter (match pattern) ls))"
proof (induction "length s" arbitrary: m s ls r rule: less_induct)
  case less
  show ?case
  proof (cases "s = []")
    case True
    then have "ls = []"
      using less.prems(1,5) by (cases ls) (auto simp: is_line_def)
    then show ?thesis
      using True by (subst grep.simps) (simp add: file_read_def)
  next
    case False
    obtain ls1 ls2 m' r' where step: "ls = ls1 @ ls2"
      "grep file_read pattern m s = map_option (\<lambda>more. lines_text (filter (match pattern) ls1) @ more)
         (grep file_read pattern m' (drop (1023 - length m) s))"
      "is_line r'" "m' @ drop (1023 - length m) s = lines_text ls2 @ r'" "length m' < 1023" "is_line m'"
      using grep_step [OF less.prems(1-4) False] by metis
    have "length (drop (1023 - length m) s) < length s"
      using less.prems(4) False by (cases s) auto
    then have "grep file_read pattern m' (drop (1023 - length m) s) = Some (lines_text (filter (match pattern) ls2))"
      using less.prems(2) step(1,3,5,6) by (intro less.hyps [OF _ step(4)]) auto
    with step(1,2) show ?thesis
      by simp
  qed
qed

text \<open>What a pipe delivers: the pieces that were written, one for each call.\<close>

fun piece_read :: "nat \<Rightarrow> string list \<Rightarrow> string \<times> string list" where
  "piece_read n [] = ([], [])"
| "piece_read n (c # cs) = (if length c \<le> n then (c, cs) else (take n c, drop n c # cs))"

text \<open>
  C26: \<^verbatim>\<open>grep\<close> on a file whose lines are shorter than 1023 characters ends and writes exactly the lines that match, each with
  its newline and in their order; a last line without a newline is not looked at.  On a pipe that delivers the beginning of
  a line as a piece of its own, that piece is lost: the result is that of the rest of the input.
\<close>

theorem grep_correct:
  assumes "\<forall>l \<in> set ls. is_line l \<and> length l < 1023" "is_line r"
    and "is_line piece" "piece \<noteq> []" "length piece \<le> 1023"
  shows "grep file_read pattern [] (lines_text ls @ r) = Some (lines_text (filter (match pattern) ls)) \<and>
    grep piece_read pattern [] (piece # pieces) = grep piece_read pattern [] pieces"
proof
  show "grep file_read pattern [] (lines_text ls @ r) = Some (lines_text (filter (match pattern) ls))"
    using assms(1,2) by (intro grep_file_lines) (auto simp: is_line_def)
  have "grep_lines pattern piece = ([], piece)"
    using grep_lines_text [of "[]" piece pattern] assms(3) by simp
  then show "grep piece_read pattern [] (piece # pieces) = grep piece_read pattern [] pieces"
    using assms(4,5) by (subst grep.simps) simp
qed

theorem grep_correct_witness:
  "grep file_read ''b.'' [] ([CHR ''a'', CHR 0x0A] @ [CHR ''b'', CHR ''c'', CHR 0x0A] @ ''z'') = Some [CHR ''b'', CHR ''c'', CHR 0x0A] \<and>
   grep piece_read ''b.'' [] [''b'', [CHR ''c'', CHR 0x0A]] = grep piece_read ''b.'' [] [[CHR ''c'', CHR 0x0A]]"
proof -
  have "\<forall>l \<in> set [''a'', ''bc'']. is_line l \<and> length l < 1023" "is_line ''z''" "is_line ''b''" "''b'' \<noteq> []" "length ''b'' \<le> 1023"
    by (auto simp: is_line_def NUL_def)
  from grep_correct [OF this, of "''b.''" "[[CHR ''c'', CHR 0x0A]]"] have
    "grep file_read ''b.'' [] (lines_text [''a'', ''bc''] @ ''z'') = Some (lines_text (filter (match ''b.'') [''a'', ''bc'']))"
    "grep piece_read ''b.'' [] [''b'', [CHR ''c'', CHR 0x0A]] = grep piece_read ''b.'' [] [[CHR ''c'', CHR 0x0A]]"
    by blast+
  moreover have "filter (match ''b.'') [''a'', ''bc''] = [''bc'']"
    by code_simp
  ultimately show ?thesis
    by simp
qed

end
