(* ===== verification/Disk.thy ===== *)
theory Disk
  imports Prelude
begin

text \<open>
  Disk blocks and the C structures stored in them: a block maps byte offsets to bytes, and 16- and
  32-bit fields are read and written in little-endian order, as the i386 does when \<^verbatim>\<open>fs.c\<close> and
  \<^verbatim>\<open>log.c\<close> cast a buffer's data to a structure.  The sizes are those of \<^verbatim>\<open>src/kernel/fs.h\<close> and
  \<^verbatim>\<open>src/kernel/param.h\<close>.
\<close>

type_synonym block = "nat \<Rightarrow> uchar"

definition BSIZE :: nat where "BSIZE = 2048"
definition LOGSIZE :: nat where "LOGSIZE = 30"
definition MAXOPBLOCKS :: nat where "MAXOPBLOCKS = 10"
definition NBUF :: nat where "NBUF = 30"

definition zero_block :: block where
  "zero_block = (\<lambda>_. 0)"

definition get16 :: "block \<Rightarrow> nat \<Rightarrow> ushort" where
  "get16 d off = ucast (d off) OR push_bit 8 (ucast (d (off + 1)))"

definition put16 :: "block \<Rightarrow> nat \<Rightarrow> ushort \<Rightarrow> block" where
  "put16 d off v = d(off := ucast v, off + 1 := ucast (drop_bit 8 v))"

definition get32 :: "block \<Rightarrow> nat \<Rightarrow> uint" where
  "get32 d off = ucast (d off) OR push_bit 8 (ucast (d (off + 1))) OR
     push_bit 16 (ucast (d (off + 2))) OR push_bit 24 (ucast (d (off + 3)))"

definition put32 :: "block \<Rightarrow> nat \<Rightarrow> uint \<Rightarrow> block" where
  "put32 d off v = d(off := ucast v, off + 1 := ucast (drop_bit 8 v),
     off + 2 := ucast (drop_bit 16 v), off + 3 := ucast (drop_bit 24 v))"

lemma get32_put32 [simp]: "get32 (put32 d off v) off = v"
proof (rule bit_word_eqI)
  fix n
  assume "n < LENGTH(32)"
  then have "n < 32" by simp
  then show "bit (get32 (put32 d off v) off) n = bit v n"
    unfolding get32_def put32_def by (cases "24 \<le> n"; cases "16 \<le> n") (auto simp: bit_simps)
qed

lemma get16_put16 [simp]: "get16 (put16 d off v) off = v"
  unfolding get16_def put16_def
  by (rule bit_word_eqI) (auto simp: bit_simps)

lemma put32_other: "x < off \<or> off + 4 \<le> x \<Longrightarrow> put32 d off v x = d x"
  by (auto simp: put32_def)

lemma put16_other: "x < off \<or> off + 2 \<le> x \<Longrightarrow> put16 d off v x = d x"
  by (auto simp: put16_def)

lemma get32_put32_other [simp]: "off' + 4 \<le> off \<or> off + 4 \<le> off' \<Longrightarrow> get32 (put32 d off v) off' = get32 d off'"
  by (auto simp: get32_def put32_other)

lemma get32_put16_other [simp]: "off' + 4 \<le> off \<or> off + 2 \<le> off' \<Longrightarrow> get32 (put16 d off v) off' = get32 d off'"
  by (auto simp: get32_def put16_other)

lemma get16_put32_other [simp]: "off' + 2 \<le> off \<or> off + 4 \<le> off' \<Longrightarrow> get16 (put32 d off v) off' = get16 d off'"
  by (auto simp: get16_def put32_other)

lemma get16_put16_other [simp]: "off' + 2 \<le> off \<or> off + 2 \<le> off' \<Longrightarrow> get16 (put16 d off v) off' = get16 d off'"
  by (auto simp: get16_def put16_other)

lemma get32_cong:
  assumes "\<And>x. off \<le> x \<Longrightarrow> x < off + 4 \<Longrightarrow> d x = d' x"
  shows "get32 d off = get32 d' off"
  using assms [of off] assms [of "off + 1"] assms [of "off + 2"] assms [of "off + 3"]
  by (simp add: get32_def)

end
