(* ===== verification/Bio.thy ===== *)
theory Bio
  imports Disk
begin

text \<open>
  \<^verbatim>\<open>src/kernel/sleeplock.c\<close> and \<^verbatim>\<open>src/kernel/bio.c\<close> over the synchronous disk of
  \<^verbatim>\<open>src/kernel/memide.c\<close>.  The buffers are numbered in the order of the array \<^verbatim>\<open>bcache.buf\<close>; the
  doubly linked list through \<^verbatim>\<open>prev\<close> and \<^verbatim>\<open>next\<close> is the list \<open>lru\<close> of these numbers in the order that
  starts at \<^verbatim>\<open>head.next\<close>.  Critical sections under the spinlock \<^verbatim>\<open>bcache.lock\<close> are atomic.
  \<open>writes\<close> records the blocks written to the disk, oldest first; no operation reads it.
\<close>

section \<open>Sleep locks\<close>

record sleeplock =
  locked :: bool
  lk_pid :: int

definition initsleeplock :: sleeplock where
  "initsleeplock = \<lparr>locked = False, lk_pid = 0\<rparr>"

definition acquiresleep :: "int \<Rightarrow> sleeplock \<Rightarrow> sleeplock option" where
  "acquiresleep mypid lk =
     (if locked lk then blocked ''sleep'' else Some \<lparr>locked = True, lk_pid = mypid\<rparr>)"

definition releasesleep :: "sleeplock \<Rightarrow> sleeplock" where
  "releasesleep lk = lk\<lparr>locked := False, lk_pid := 0\<rparr>"

definition holdingsleep :: "int \<Rightarrow> sleeplock \<Rightarrow> bool" where
  "holdingsleep mypid lk \<longleftrightarrow> locked lk \<and> lk_pid lk = mypid"

section \<open>The buffer cache\<close>

record buf =
  B_VALID :: bool
  B_DIRTY :: bool
  dev :: nat
  blockno :: nat
  lock :: sleeplock
  refcnt :: nat
  data :: block

record bstate =
  mypid :: int
  bufs :: "nat \<Rightarrow> buf"
  lru :: "nat list"
  disk :: "nat \<Rightarrow> block"
  disksize :: nat
  writes :: "(nat \<times> block) list"

definition set_buf :: "nat \<Rightarrow> buf \<Rightarrow> 'a bstate_scheme \<Rightarrow> 'a bstate_scheme" where
  "set_buf i b s = s\<lparr>bufs := (bufs s)(i := b)\<rparr>"

definition binit :: "'a bstate_scheme \<Rightarrow> 'a bstate_scheme" where
  "binit s = fold (\<lambda>i s. set_buf i ((bufs s i)\<lparr>lock := initsleeplock\<rparr>) (s\<lparr>lru := i # lru s\<rparr>))
     [0..<NBUF] (s\<lparr>lru := []\<rparr>)"

definition iderw :: "nat \<Rightarrow> 'a bstate_scheme \<Rightarrow> 'a bstate_scheme option" where
  "iderw i s =
     (let b = bufs s i in
      if \<not> holdingsleep (mypid s) (lock b) then panic ''iderw: buf not locked''
      else if B_VALID b \<and> \<not> B_DIRTY b then panic ''iderw: nothing to do''
      else if dev b \<noteq> 1 then panic ''iderw: request not for disk 1''
      else if blockno b \<ge> disksize s then panic ''iderw: block out of range''
      else if B_DIRTY b then
        Some (set_buf i (b\<lparr>B_DIRTY := False, B_VALID := True\<rparr>)
          (s\<lparr>disk := (disk s)(blockno b := data b), writes := writes s @ [(blockno b, data b)]\<rparr>))
      else Some (set_buf i (b\<lparr>data := disk s (blockno b), B_VALID := True\<rparr>) s))"

definition bget :: "nat \<Rightarrow> nat \<Rightarrow> 'a bstate_scheme \<Rightarrow> (nat \<times> 'a bstate_scheme) option" where
  "bget d n s =
     (case find (\<lambda>i. dev (bufs s i) = d \<and> blockno (bufs s i) = n) (lru s) of
        Some i \<Rightarrow> do {
          let b = (bufs s i)\<lparr>refcnt := refcnt (bufs s i) + 1\<rparr>;
          lk \<leftarrow> acquiresleep (mypid s) (lock b);
          Some (i, set_buf i (b\<lparr>lock := lk\<rparr>) s)
        }
      | None \<Rightarrow>
          (case find (\<lambda>i. refcnt (bufs s i) = 0 \<and> \<not> B_DIRTY (bufs s i)) (rev (lru s)) of
             Some i \<Rightarrow> do {
               let b = (bufs s i)\<lparr>dev := d, blockno := n, B_VALID := False, B_DIRTY := False, refcnt := 1\<rparr>;
               lk \<leftarrow> acquiresleep (mypid s) (lock b);
               Some (i, set_buf i (b\<lparr>lock := lk\<rparr>) s)
             }
           | None \<Rightarrow> panic ''bget: no buffers''))"

definition bread :: "nat \<Rightarrow> nat \<Rightarrow> 'a bstate_scheme \<Rightarrow> (nat \<times> 'a bstate_scheme) option" where
  "bread d n s = do {
     (b, s) \<leftarrow> bget d n s;
     if \<not> B_VALID (bufs s b) then do { s \<leftarrow> iderw b s; Some (b, s) } else Some (b, s)
   }"

definition bwrite :: "nat \<Rightarrow> 'a bstate_scheme \<Rightarrow> 'a bstate_scheme option" where
  "bwrite i s =
     (if \<not> holdingsleep (mypid s) (lock (bufs s i)) then panic ''bwrite''
      else iderw i (set_buf i ((bufs s i)\<lparr>B_DIRTY := True\<rparr>) s))"

definition brelse :: "nat \<Rightarrow> 'a bstate_scheme \<Rightarrow> 'a bstate_scheme option" where
  "brelse i s =
     (let b = bufs s i in
      if \<not> holdingsleep (mypid s) (lock b) then panic ''brelse''
      else
        let s = set_buf i (b\<lparr>lock := releasesleep (lock b), refcnt := (refcnt b + 2 ^ 32 - 1) mod 2 ^ 32\<rparr>) s
        in Some (if refcnt (bufs s i) = 0 then s\<lparr>lru := i # remove1 i (lru s)\<rparr> else s))"

text \<open>Assigning to the data of a buffer that the caller holds.\<close>

definition set_data :: "nat \<Rightarrow> block \<Rightarrow> 'a bstate_scheme \<Rightarrow> 'a bstate_scheme" where
  "set_data i d s = set_buf i ((bufs s i)\<lparr>data := d\<rparr>) s"

section \<open>What the cache promises\<close>

text \<open>
  The invariant, for a process that holds the buffers \<open>H\<close>: the list has every buffer once, no two
  buffers cache the same block, the valid buffers are those of disk 1 and cache existing blocks, a dirty
  buffer is valid, a valid clean buffer agrees with the disk unless its holder is changing it, and
  exactly the held buffers are locked and referenced.
\<close>

definition buf_ok :: "nat set \<Rightarrow> 'a bstate_scheme \<Rightarrow> nat \<Rightarrow> bool" where
  "buf_ok H s i \<longleftrightarrow>
     (let b = bufs s i in
      (B_VALID b \<longleftrightarrow> dev b = 1) \<and> (B_VALID b \<longrightarrow> blockno b < disksize s) \<and> (B_DIRTY b \<longrightarrow> B_VALID b) \<and>
      (i \<notin> H \<and> B_VALID b \<and> \<not> B_DIRTY b \<longrightarrow> data b = disk s (blockno b)) \<and>
      (if i \<in> H then holdingsleep (mypid s) (lock b) \<and> refcnt b = 1 \<and> B_VALID b
       else \<not> locked (lock b) \<and> refcnt b = 0))"

definition cache_ok :: "nat set \<Rightarrow> 'a bstate_scheme \<Rightarrow> bool" where
  "cache_ok H s \<longleftrightarrow> distinct (lru s) \<and> set (lru s) = {..<NBUF} \<and> H \<subseteq> {..<NBUF} \<and>
     (\<forall>i < NBUF. buf_ok H s i) \<and>
     (\<forall>i < NBUF. \<forall>j < NBUF. B_VALID (bufs s i) \<and> B_VALID (bufs s j) \<and>
        blockno (bufs s i) = blockno (bufs s j) \<longrightarrow> i = j)"

text \<open>The contents of block \<open>n\<close> as the kernel sees it: the cached copy if there is one.\<close>

definition blk :: "'a bstate_scheme \<Rightarrow> nat \<Rightarrow> block" where
  "blk s n =
     (case find (\<lambda>i. B_VALID (bufs s i) \<and> blockno (bufs s i) = n) [0..<NBUF] of
        Some i \<Rightarrow> data (bufs s i) | None \<Rightarrow> disk s n)"

text \<open>The buffers that \<^verbatim>\<open>bget\<close> may not recycle.\<close>

definition pinned :: "'a bstate_scheme \<Rightarrow> nat set" where
  "pinned s = {i. i < NBUF \<and> (0 < refcnt (bufs s i) \<or> B_DIRTY (bufs s i))}"

definition dirty_blocks :: "'a bstate_scheme \<Rightarrow> nat set" where
  "dirty_blocks s = {blockno (bufs s i) | i. i < NBUF \<and> B_DIRTY (bufs s i)}"

text \<open>What the cache operations never touch.\<close>

definition same_rest :: "'a bstate_scheme \<Rightarrow> 'a bstate_scheme \<Rightarrow> bool" where
  "same_rest s s' \<longleftrightarrow> mypid s' = mypid s \<and> disksize s' = disksize s \<and> bstate.more s' = bstate.more s"

lemma same_rest_refl [simp]: "same_rest s s"
  by (simp add: same_rest_def)

lemma same_rest_trans: "same_rest s t \<Longrightarrow> same_rest t u \<Longrightarrow> same_rest s u"
  by (simp add: same_rest_def)

lemma bufs_set_buf [simp]: "bufs (set_buf i b s) = (bufs s)(i := b)"
  by (simp add: set_buf_def)

lemma set_buf_sel [simp]:
  "mypid (set_buf i b s) = mypid s" "lru (set_buf i b s) = lru s" "disk (set_buf i b s) = disk s"
  "disksize (set_buf i b s) = disksize s" "writes (set_buf i b s) = writes s"
  "bstate.more (set_buf i b s) = bstate.more s"
  by (simp_all add: set_buf_def)

lemma set_buf_twice [simp]: "set_buf i b (set_buf i c s) = set_buf i b s"
  by (simp add: set_buf_def)

text \<open>\<open>blk\<close> of a cached block is the buffer's data, and of any other block the disk's.\<close>

lemma cache_okD:
  assumes "cache_ok H s"
  shows "distinct (lru s)" "set (lru s) = {..<NBUF}" "H \<subseteq> {..<NBUF}"
    "\<And>i. i < NBUF \<Longrightarrow> buf_ok H s i"
    "\<And>i j. i < NBUF \<Longrightarrow> j < NBUF \<Longrightarrow> B_VALID (bufs s i) \<Longrightarrow> B_VALID (bufs s j) \<Longrightarrow>
      blockno (bufs s i) = blockno (bufs s j) \<Longrightarrow> i = j"
  using assms by (auto simp: cache_ok_def)

lemma cache_okI:
  assumes "distinct (lru s)" "set (lru s) = {..<NBUF}" "H \<subseteq> {..<NBUF}"
    and "\<And>i. i < NBUF \<Longrightarrow> buf_ok H s i"
    and "\<And>i j. i < NBUF \<Longrightarrow> j < NBUF \<Longrightarrow> B_VALID (bufs s i) \<Longrightarrow> B_VALID (bufs s j) \<Longrightarrow>
      blockno (bufs s i) = blockno (bufs s j) \<Longrightarrow> i = j"
  shows "cache_ok H s"
  using assms unfolding cache_ok_def by blast

lemma blk_cached:
  assumes "cache_ok H s" "i < NBUF" "B_VALID (bufs s i)"
  shows "blk s (blockno (bufs s i)) = data (bufs s i)"
proof -
  let ?P = "\<lambda>j. B_VALID (bufs s j) \<and> blockno (bufs s j) = blockno (bufs s i)"
  have "find ?P [0..<NBUF] \<noteq> None"
    using assms(2,3) by (auto simp: find_None_iff)
  then obtain j where j: "find ?P [0..<NBUF] = Some j"
    by blast
  then have "?P j" "j < NBUF"
    by (auto simp: find_Some_iff)
  then have "j = i"
    using cache_okD(5) [OF assms(1)] assms(2,3) by blast
  with j show ?thesis
    by (simp add: blk_def)
qed

lemma blk_uncached:
  assumes "\<And>i. i < NBUF \<Longrightarrow> B_VALID (bufs s i) \<Longrightarrow> blockno (bufs s i) \<noteq> n"
  shows "blk s n = disk s n"
proof -
  have "find (\<lambda>i. B_VALID (bufs s i) \<and> blockno (bufs s i) = n) [0..<NBUF] = None"
    using assms by (auto simp: find_None_iff)
  then show ?thesis
    by (simp add: blk_def)
qed

lemma blk_cases:
  assumes "cache_ok H s"
  shows "(\<exists>i < NBUF. B_VALID (bufs s i) \<and> blockno (bufs s i) = n \<and> blk s n = data (bufs s i)) \<or>
    (\<forall>i < NBUF. B_VALID (bufs s i) \<longrightarrow> blockno (bufs s i) \<noteq> n) \<and> blk s n = disk s n"
  using blk_cached [OF assms] blk_uncached [of s n] by metis

lemma blk_cong:
  assumes "\<And>i. i < NBUF \<Longrightarrow> B_VALID (bufs s' i) = B_VALID (bufs s i) \<and>
      blockno (bufs s' i) = blockno (bufs s i) \<and> data (bufs s' i) = data (bufs s i)"
    and "disk s' = disk s"
  shows "blk s' = blk s"
proof
  fix n
  let ?P = "\<lambda>s i. B_VALID (bufs s i) \<and> blockno (bufs s i) = n"
  have "find (?P s') [0..<NBUF] = find (?P s) [0..<NBUF]"
    using assms(1) by (intro find_cong) auto
  moreover have "data (bufs s' i) = data (bufs s i)" if "find (?P s) [0..<NBUF] = Some i" for i
    using that assms(1) by (auto simp: find_Some_iff)
  ultimately show "blk s' n = blk s n"
    using assms(2) by (simp add: blk_def split: option.splits)
qed

section \<open>The operations keep the promise\<close>

text \<open>
  \<open>got H s i n s'\<close>: the caller, who held the buffers \<open>H\<close> in \<open>s\<close>, holds buffer \<open>i\<close> with block \<open>n\<close> too in \<open>s'\<close>.
\<close>

definition got :: "nat set \<Rightarrow> 'a bstate_scheme \<Rightarrow> nat \<Rightarrow> nat \<Rightarrow> 'a bstate_scheme \<Rightarrow> bool" where
  "got H s i n s' \<longleftrightarrow> i < NBUF \<and> i \<notin> H \<and> cache_ok (insert i H) s' \<and> dev (bufs s' i) = 1 \<and> blockno (bufs s' i) = n \<and>
     data (bufs s' i) = blk s n \<and> blk s' = blk s \<and> (\<forall>j \<in> H. bufs s' j = bufs s j) \<and>
     pinned s' = insert i (pinned s) \<and> dirty_blocks s' = dirty_blocks s \<and> disk s' = disk s \<and> writes s' = writes s \<and>
     same_rest s s'"

lemma find_cached:
  assumes "cache_ok H s" "find (\<lambda>i. dev (bufs s i) = 1 \<and> blockno (bufs s i) = n) (lru s) = Some i"
  shows "i < NBUF" "B_VALID (bufs s i)" "dev (bufs s i) = 1" "blockno (bufs s i) = n"
proof -
  from assms(2) have "i \<in> set (lru s)" and *: "dev (bufs s i) = 1" "blockno (bufs s i) = n"
    by (auto simp: find_Some_iff)
  with cache_okD(2) [OF assms(1)] show i: "i < NBUF"
    by auto
  show "B_VALID (bufs s i)"
    using cache_okD(4) [OF assms(1) i] * by (simp add: buf_ok_def Let_def)
qed (use assms(2) in \<open>auto simp: find_Some_iff\<close>)

lemma find_not_cached:
  assumes "cache_ok H s" "find (\<lambda>i. dev (bufs s i) = 1 \<and> blockno (bufs s i) = n) (lru s) = None"
    and "i < NBUF" "B_VALID (bufs s i)"
  shows "blockno (bufs s i) \<noteq> n"
  using assms cache_okD(2,4) [OF assms(1)] by (auto simp: find_None_iff buf_ok_def Let_def)

text \<open>Taking a cached buffer changes only its lock and its reference count.\<close>

lemma got_cached:
  assumes "cache_ok H s" "i < NBUF" "i \<notin> H" "B_VALID (bufs s i)"
    and b: "b = (bufs s i)\<lparr>refcnt := 1, lock := \<lparr>locked = True, lk_pid = mypid s\<rparr>\<rparr>"
  shows "got H s i (blockno (bufs s i)) (set_buf i b s)"
proof -
  have i: "buf_ok H s i"
    by (rule cache_okD(4) [OF assms(1,2)])
  have "cache_ok (insert i H) (set_buf i b s)"
  proof (rule cache_okI)
    fix j
    assume "j < NBUF"
    then show "buf_ok (insert i H) (set_buf i b s) j"
      using cache_okD(4) [OF assms(1), of j] i assms(3,4)
      by (cases "j = i") (auto simp: buf_ok_def Let_def b holdingsleep_def)
  next
    fix j k
    assume "j < NBUF" "k < NBUF" "B_VALID (bufs (set_buf i b s) j)" "B_VALID (bufs (set_buf i b s) k)"
      "blockno (bufs (set_buf i b s) j) = blockno (bufs (set_buf i b s) k)"
    then show "j = k"
      using cache_okD(5) [OF assms(1), of j k] by (auto simp: b split: if_splits)
  qed (use cache_okD(1-3) [OF assms(1)] assms(2) in simp_all)
  moreover have "blk (set_buf i b s) = blk s"
    by (rule blk_cong) (auto simp: b)
  moreover have "pinned (set_buf i b s) = insert i (pinned s)"
    using assms(2) by (auto simp: pinned_def b)
  moreover have "dirty_blocks (set_buf i b s) = dirty_blocks s"
    unfolding dirty_blocks_def by (rule Collect_cong) (auto simp: b)
  moreover have "dev (bufs s i) = 1"
    using i assms(4) by (simp add: buf_ok_def Let_def)
  ultimately show ?thesis
    using assms(2-4) blk_cached [OF assms(1,2,4)] by (auto simp: got_def b same_rest_def)
qed

text \<open>Recycling a clean, unreferenced buffer and reading the block into it.\<close>

lemma got_recycled:
  assumes "cache_ok H s" "i < NBUF" "i \<notin> H" "\<not> B_DIRTY (bufs s i)" "n < disksize s"
    and absent: "\<And>j. j < NBUF \<Longrightarrow> B_VALID (bufs s j) \<Longrightarrow> blockno (bufs s j) \<noteq> n"
    and b: "b = (bufs s i)\<lparr>dev := 1, blockno := n, B_VALID := True, refcnt := 1,
      lock := \<lparr>locked = True, lk_pid = mypid s\<rparr>, data := disk s n\<rparr>"
  shows "got H s i n (set_buf i b s)"
proof -
  let ?s = "set_buf i b s"
  have i: "buf_ok H s i"
    by (rule cache_okD(4) [OF assms(1,2)])
  have ok: "cache_ok (insert i H) ?s"
  proof (rule cache_okI)
    fix j
    assume "j < NBUF"
    then show "buf_ok (insert i H) ?s j"
      using cache_okD(4) [OF assms(1), of j] assms(3-5)
      by (cases "j = i") (auto simp: buf_ok_def Let_def b holdingsleep_def)
  next
    fix j k
    assume "j < NBUF" "k < NBUF" "B_VALID (bufs ?s j)" "B_VALID (bufs ?s k)"
      "blockno (bufs ?s j) = blockno (bufs ?s k)"
    then show "j = k"
      using cache_okD(5) [OF assms(1), of j k] absent [of j] absent [of k] by (auto simp: b split: if_splits)
  qed (use cache_okD(1-3) [OF assms(1)] assms(2) in simp_all)
  moreover have "blk ?s = blk s"
  proof
    fix m
    from blk_cases [OF ok, of m] show "blk ?s m = blk s m"
    proof (elim disjE exE conjE)
      fix j
      assume j: "j < NBUF" "B_VALID (bufs ?s j)" "blockno (bufs ?s j) = m" "blk ?s m = data (bufs ?s j)"
      show ?thesis
      proof (cases "j = i")
        case True
        with j absent show ?thesis
          by (simp add: b blk_uncached)
      next
        case False
        with j blk_cached [OF assms(1), of j] show ?thesis
          by simp
      qed
    next
      assume none: "\<forall>j < NBUF. B_VALID (bufs ?s j) \<longrightarrow> blockno (bufs ?s j) \<noteq> m" "blk ?s m = disk ?s m"
      show ?thesis
      proof (cases "B_VALID (bufs s i) \<and> blockno (bufs s i) = m")
        case True
        with blk_cached [OF assms(1,2)] i assms(3,4) none(2) show ?thesis
          by (auto simp: buf_ok_def Let_def)
      next
        case False
        with none(1) have "blk s m = disk s m"
          by (intro blk_uncached) (metis bufs_set_buf fun_upd_other)
        with none(2) show ?thesis
          by simp
      qed
    qed
  qed
  moreover have "pinned ?s = insert i (pinned s)"
    using assms(2) by (auto simp: pinned_def b)
  moreover have "dirty_blocks ?s = dirty_blocks s"
    unfolding dirty_blocks_def by (rule Collect_cong) (use assms(4) in \<open>auto simp: b\<close>)
  moreover have "blk s n = disk s n"
    using absent by (intro blk_uncached) blast
  ultimately show ?thesis
    using assms(2,3) by (auto simp: got_def b same_rest_def)
qed

lemma bread_got:
  assumes "cache_ok H s" "n < disksize s" "\<And>i. i \<in> H \<Longrightarrow> blockno (bufs s i) \<noteq> n"
    and room: "\<exists>i < NBUF. B_VALID (bufs s i) \<and> blockno (bufs s i) = n \<or> i \<notin> pinned s"
  shows "ok (bread 1 n s) (\<lambda>(i, s'). got H s i n s')"
proof (cases "find (\<lambda>i. dev (bufs s i) = 1 \<and> blockno (bufs s i) = n) (lru s)")
  case (Some i)
  note i = find_cached [OF assms(1) Some]
  have "i \<notin> H"
    using assms(3) i(4) by blast
  moreover have "\<not> locked (lock (bufs s i))" "refcnt (bufs s i) = 0"
    using cache_okD(4) [OF assms(1) i(1)] \<open>i \<notin> H\<close> by (auto simp: buf_ok_def Let_def)
  ultimately show ?thesis
    using got_cached [OF assms(1) i(1) _ i(2) refl] i Some
    by (simp add: bread_def bget_def acquiresleep_def)
next
  case None
  note absent = find_not_cached [OF assms(1) None]
  let ?P = "\<lambda>i. refcnt (bufs s i) = 0 \<and> \<not> B_DIRTY (bufs s i)"
  obtain k where "k < NBUF" "?P k"
    using room absent by (auto simp: pinned_def)
  then have "find ?P (rev (lru s)) \<noteq> None"
    using cache_okD(2) [OF assms(1)] by (auto simp: find_None_iff)
  then obtain i where i: "find ?P (rev (lru s)) = Some i"
    by blast
  then have "i \<in> set (rev (lru s))" "?P i"
    unfolding find_Some_iff by (metis nth_mem)+
  then have "i < NBUF"
    using cache_okD(2) [OF assms(1)] by auto
  moreover have "i \<notin> H" "\<not> locked (lock (bufs s i))"
    using cache_okD(4) [OF assms(1) \<open>i < NBUF\<close>] \<open>?P i\<close> by (auto simp: buf_ok_def Let_def split: if_splits)
  ultimately have "got H s i n (set_buf i ((bufs s i)\<lparr>dev := 1, blockno := n, B_VALID := True, refcnt := 1,
      lock := \<lparr>locked = True, lk_pid = mypid s\<rparr>, data := disk s n\<rparr>) s)"
    using \<open>?P i\<close> assms(2) absent by (intro got_recycled [OF assms(1)]) simp_all
  moreover have "(bufs s i)\<lparr>dev := 1, blockno := n, B_VALID := True, refcnt := 1,
      lock := \<lparr>locked = True, lk_pid = mypid s\<rparr>, data := disk s n\<rparr> =
    (bufs s i)\<lparr>dev := 1, blockno := n, B_DIRTY := False, refcnt := 1,
      lock := \<lparr>locked = True, lk_pid = mypid s\<rparr>, data := disk s n, B_VALID := True\<rparr>"
    using \<open>?P i\<close> by (intro buf.equality) simp_all
  ultimately show ?thesis
    using None i \<open>\<not> locked (lock (bufs s i))\<close> assms(2)
    by (simp add: bread_def bget_def acquiresleep_def iderw_def Let_def holdingsleep_def)
qed

lemma held_buf:
  assumes "cache_ok H s" "i \<in> H"
  shows "i < NBUF" "B_VALID (bufs s i)" "dev (bufs s i) = 1" "blockno (bufs s i) < disksize s"
    "holdingsleep (mypid s) (lock (bufs s i))" "refcnt (bufs s i) = 1"
proof -
  show i: "i < NBUF"
    using cache_okD(3) [OF assms(1)] assms(2) by auto
  show "B_VALID (bufs s i)" "dev (bufs s i) = 1" "blockno (bufs s i) < disksize s"
    "holdingsleep (mypid s) (lock (bufs s i))" "refcnt (bufs s i) = 1"
    using cache_okD(4) [OF assms(1) i] assms(2) by (auto simp: buf_ok_def Let_def)
qed

text \<open>Enough buffers: those held and those the log keeps dirty do not fill the cache.\<close>

lemma card_pinned:
  assumes "cache_ok H s"
  shows "card (pinned s) \<le> card H + card (dirty_blocks s)"
proof -
  let ?D = "{i. i < NBUF \<and> B_DIRTY (bufs s i)}"
  have "pinned s \<subseteq> H \<union> ?D"
    using cache_okD(4) [OF assms] by (auto simp: pinned_def buf_ok_def Let_def split: if_splits)
  moreover have "finite (H \<union> ?D)"
    using cache_okD(3) [OF assms] by (auto intro: finite_subset)
  ultimately have "card (pinned s) \<le> card H + card ?D"
    by (meson card_Un_le card_mono order_trans)
  moreover have "dirty_blocks s = (\<lambda>i. blockno (bufs s i)) ` ?D"
    by (auto simp: dirty_blocks_def)
  moreover have "inj_on (\<lambda>i. blockno (bufs s i)) ?D"
  proof (rule inj_onI)
    fix i j
    assume ij: "i \<in> ?D" "j \<in> ?D" "blockno (bufs s i) = blockno (bufs s j)"
    then have "B_VALID (bufs s i)" "B_VALID (bufs s j)"
      using cache_okD(4) [OF assms, of i] cache_okD(4) [OF assms, of j] unfolding buf_ok_def Let_def by blast+
    with ij show "i = j"
      using cache_okD(5) [OF assms, of i j] by simp
  qed
  ultimately show ?thesis
    by (simp add: card_image)
qed

lemma bread_room:
  assumes "cache_ok H s" "n < disksize s" "\<And>i. i \<in> H \<Longrightarrow> blockno (bufs s i) \<noteq> n"
    and "card H + card (dirty_blocks s) < NBUF \<or> n \<in> dirty_blocks s"
  shows "ok (bread 1 n s) (\<lambda>(i, s'). got H s i n s')"
proof (rule bread_got [OF assms(1-3)])
  show "\<exists>i < NBUF. B_VALID (bufs s i) \<and> blockno (bufs s i) = n \<or> i \<notin> pinned s"
  proof (cases "n \<in> dirty_blocks s")
    case True
    then obtain i where "i < NBUF" "B_DIRTY (bufs s i)" "blockno (bufs s i) = n"
      by (auto simp: dirty_blocks_def)
    then show ?thesis
      using cache_okD(4) [OF assms(1), of i] unfolding buf_ok_def Let_def by blast
  next
    case False
    then have "card (pinned s) < card {..<NBUF}"
      using card_pinned [OF assms(1)] assms(4) by simp
    moreover have "pinned s \<subseteq> {..<NBUF}" "finite (pinned s)"
      by (auto simp: pinned_def)
    ultimately have "\<not> {..<NBUF} \<subseteq> pinned s"
      by (metis card_mono not_le)
    then show ?thesis
      by auto
  qed
qed

text \<open>The holder may change the data of its buffer.\<close>

lemma set_data_held:
  assumes "cache_ok H s" "i \<in> H"
  shows "cache_ok H (set_data i d s)" "blk (set_data i d s) = (blk s)(blockno (bufs s i) := d)"
proof -
  have i: "i < NBUF" "buf_ok H s i" "B_VALID (bufs s i)"
    using held_buf [OF assms] cache_okD(4) [OF assms(1)] by auto
  show ok: "cache_ok H (set_data i d s)"
  proof (rule cache_okI)
    fix j
    assume "j < NBUF"
    then show "buf_ok H (set_data i d s) j"
      using cache_okD(4) [OF assms(1), of j] assms(2) by (auto simp: buf_ok_def Let_def set_data_def)
  next
    fix j k
    assume "j < NBUF" "k < NBUF" "B_VALID (bufs (set_data i d s) j)" "B_VALID (bufs (set_data i d s) k)"
      "blockno (bufs (set_data i d s) j) = blockno (bufs (set_data i d s) k)"
    then show "j = k"
      using cache_okD(5) [OF assms(1), of j k] by (auto simp: set_data_def split: if_splits)
  qed (use cache_okD(1-3) [OF assms(1)] in \<open>simp_all add: set_data_def\<close>)
  show "blk (set_data i d s) = (blk s)(blockno (bufs s i) := d)"
  proof
    fix m
    from blk_cases [OF ok, of m] show "blk (set_data i d s) m = ((blk s)(blockno (bufs s i) := d)) m"
    proof (elim disjE exE conjE)
      fix j
      assume j: "j < NBUF" "B_VALID (bufs (set_data i d s) j)" "blockno (bufs (set_data i d s) j) = m"
        "blk (set_data i d s) m = data (bufs (set_data i d s) j)"
      show ?thesis
      proof (cases "j = i")
        case False
        with j have "m \<noteq> blockno (bufs s i)"
          using cache_okD(5) [OF assms(1) j(1) i(1)] i(3) by (auto simp: set_data_def)
        with j False blk_cached [OF assms(1) j(1)] show ?thesis
          by (simp add: set_data_def)
      qed (use j in \<open>simp add: set_data_def\<close>)
    next
      assume none: "\<forall>j < NBUF. B_VALID (bufs (set_data i d s) j) \<longrightarrow> blockno (bufs (set_data i d s) j) \<noteq> m"
        "blk (set_data i d s) m = disk (set_data i d s) m"
      have "blk s m = disk s m"
        using none(1) by (intro blk_uncached) (auto simp: set_data_def split: if_splits)
      moreover have "m \<noteq> blockno (bufs s i)"
        using none(1) i by (auto simp: set_data_def)
      ultimately show ?thesis
        using none(2) by (simp add: set_data_def)
    qed
  qed
qed

lemma set_data_sel [simp]:
  "bufs (set_data i d s) j = (if j = i then (bufs s i)\<lparr>data := d\<rparr> else bufs s j)"
  "mypid (set_data i d s) = mypid s" "lru (set_data i d s) = lru s" "disk (set_data i d s) = disk s"
  "disksize (set_data i d s) = disksize s" "writes (set_data i d s) = writes s"
  "bstate.more (set_data i d s) = bstate.more s" "pinned (set_data i d s) = pinned s"
  by (auto simp: set_data_def pinned_def)

lemma dirty_blocks_set_data [simp]: "dirty_blocks (set_data i d s) = dirty_blocks s"
  unfolding dirty_blocks_def by (rule Collect_cong) auto

lemma same_rest_set_data [simp]: "same_rest s (set_data i d t) \<longleftrightarrow> same_rest s t"
  by (simp add: same_rest_def)

text \<open>Writing through: the disk takes the buffer's data, and the buffer is clean.\<close>

lemma bwrite_held:
  assumes "cache_ok H s" "i \<in> H"
  shows "ok (bwrite i s) (\<lambda>s'. cache_ok H s' \<and> blk s' = blk s \<and>
    bufs s' = (bufs s)(i := (bufs s i)\<lparr>B_DIRTY := False\<rparr>) \<and>
    disk s' = (disk s)(blockno (bufs s i) := data (bufs s i)) \<and>
    writes s' = writes s @ [(blockno (bufs s i), data (bufs s i))] \<and> pinned s' = pinned s \<and>
    dirty_blocks s' = dirty_blocks s - {blockno (bufs s i)} \<and> same_rest s s')"
proof -
  note i = held_buf [OF assms]
  let ?n = "blockno (bufs s i)"
  let ?s = "set_buf i ((bufs s i)\<lparr>B_DIRTY := False\<rparr>)
     (s\<lparr>disk := (disk s)(?n := data (bufs s i)), writes := writes s @ [(?n, data (bufs s i))]\<rparr>)"
  have uniq: "blockno (bufs s j) \<noteq> ?n" if "j < NBUF" "B_VALID (bufs s j)" "j \<noteq> i" for j
    using cache_okD(5) [OF assms(1) that(1) i(1)] that i(2) by blast
  have b: "(bufs s i)\<lparr>B_DIRTY := False, B_VALID := True\<rparr> = (bufs s i)\<lparr>B_DIRTY := False\<rparr>"
    using i(2) by (intro buf.equality) simp_all
  have "bwrite i s = Some ?s"
    using i by (simp add: bwrite_def iderw_def Let_def set_buf_def b)
  moreover have ok: "cache_ok H ?s"
  proof (rule cache_okI)
    fix j
    assume "j < NBUF"
    then show "buf_ok H ?s j"
      using cache_okD(4) [OF assms(1), of j] uniq [of j] assms(2)
      by (cases "j = i") (auto simp: buf_ok_def Let_def)
  next
    fix j k
    assume "j < NBUF" "k < NBUF" "B_VALID (bufs ?s j)" "B_VALID (bufs ?s k)"
      "blockno (bufs ?s j) = blockno (bufs ?s k)"
    then show "j = k"
      using cache_okD(5) [OF assms(1), of j k] by (auto split: if_splits)
  qed (use cache_okD(1-3) [OF assms(1)] in simp_all)
  moreover have "blk ?s = blk s"
  proof
    fix m
    from blk_cases [OF assms(1), of m] show "blk ?s m = blk s m"
    proof (elim disjE exE conjE)
      fix j
      assume "j < NBUF" "B_VALID (bufs s j)" "blockno (bufs s j) = m" "blk s m = data (bufs s j)"
      then show ?thesis
        using blk_cached [OF ok, of j] by (cases "j = i") auto
    next
      assume none: "\<forall>j < NBUF. B_VALID (bufs s j) \<longrightarrow> blockno (bufs s j) \<noteq> m" "blk s m = disk s m"
      then have "blk ?s m = disk ?s m"
        by (intro blk_uncached) (auto split: if_splits)
      with none i(1,2) show ?thesis
        by auto
    qed
  qed
  moreover have "pinned ?s = pinned s"
    using i(1,6) by (auto simp: pinned_def)
  moreover have "dirty_blocks ?s = dirty_blocks s - {?n}"
  proof -
    have dv: "B_VALID (bufs s j)" if "j < NBUF" "B_DIRTY (bufs s j)" for j
      using cache_okD(4) [OF assms(1) that(1)] that(2) unfolding buf_ok_def Let_def by blast
    have "dirty_blocks ?s = {blockno (bufs s j) | j. j < NBUF \<and> j \<noteq> i \<and> B_DIRTY (bufs s j)}"
      unfolding dirty_blocks_def by (rule Collect_cong, rule ex_cong1) auto
    moreover have "x \<in> {blockno (bufs s j) | j. j < NBUF \<and> j \<noteq> i \<and> B_DIRTY (bufs s j)} \<longleftrightarrow>
        x \<in> dirty_blocks s \<and> x \<noteq> ?n" for x
    proof
      assume "x \<in> {blockno (bufs s j) | j. j < NBUF \<and> j \<noteq> i \<and> B_DIRTY (bufs s j)}"
      then obtain j where "x = blockno (bufs s j)" "j < NBUF" "j \<noteq> i" "B_DIRTY (bufs s j)"
        by blast
      with uniq [of j] dv [of j] show "x \<in> dirty_blocks s \<and> x \<noteq> ?n"
        by (auto simp: dirty_blocks_def)
    qed (auto simp: dirty_blocks_def)
    ultimately show ?thesis
      by (simp add: set_eq_iff)
  qed
  ultimately show ?thesis
    by (simp add: same_rest_def)
qed

text \<open>Giving a buffer back: its data must be on the disk or marked dirty.\<close>

lemma brelse_held:
  assumes "cache_ok (insert i H) s" "i \<notin> H"
    and saved: "B_DIRTY (bufs s i) \<or> data (bufs s i) = disk s (blockno (bufs s i))"
  shows "ok (brelse i s) (\<lambda>s'. cache_ok H s' \<and> blk s' = blk s \<and> (\<forall>j. j \<noteq> i \<longrightarrow> bufs s' j = bufs s j) \<and>
    (\<forall>j. B_VALID (bufs s' j) = B_VALID (bufs s j) \<and> B_DIRTY (bufs s' j) = B_DIRTY (bufs s j) \<and>
       blockno (bufs s' j) = blockno (bufs s j)) \<and>
    pinned s' = (if B_DIRTY (bufs s i) then pinned s else pinned s - {i}) \<and>
    dirty_blocks s' = dirty_blocks s \<and> disk s' = disk s \<and> writes s' = writes s \<and> same_rest s s')"
proof -
  note i = held_buf [OF assms(1) insertI1]
  let ?b = "(bufs s i)\<lparr>lock := releasesleep (lock (bufs s i)), refcnt := 0\<rparr>"
  let ?s = "(set_buf i ?b s)\<lparr>lru := i # remove1 i (lru s)\<rparr>"
  have "brelse i s = Some ?s"
    using i(5,6) by (simp add: brelse_def Let_def)
  moreover have "cache_ok H ?s"
  proof (rule cache_okI)
    fix j
    assume "j < NBUF"
    then show "buf_ok H ?s j"
      using cache_okD(4) [OF assms(1), of j] saved assms(2)
      by (cases "j = i") (auto simp: buf_ok_def Let_def releasesleep_def)
  next
    fix j k
    assume "j < NBUF" "k < NBUF" "B_VALID (bufs ?s j)" "B_VALID (bufs ?s k)"
      "blockno (bufs ?s j) = blockno (bufs ?s k)"
    then show "j = k"
      using cache_okD(5) [OF assms(1), of j k] by (auto split: if_splits)
  qed (use cache_okD(1-3) [OF assms(1)] i(1) in \<open>auto simp: set_remove1_eq\<close>)
  moreover have "blk ?s = blk s"
    by (rule blk_cong) auto
  moreover have "pinned ?s = (if B_DIRTY (bufs s i) then pinned s else pinned s - {i})"
    using i(1,6) by (auto simp: pinned_def)
  moreover have "dirty_blocks ?s = dirty_blocks s"
    unfolding dirty_blocks_def by (rule Collect_cong) auto
  ultimately show ?thesis
    by (simp add: same_rest_def)
qed

section \<open>Consequences for the holder\<close>

lemma dirty_iff:
  assumes "cache_ok H s" "i < NBUF" "B_VALID (bufs s i)"
  shows "B_DIRTY (bufs s i) \<longleftrightarrow> blockno (bufs s i) \<in> dirty_blocks s"
proof
  assume "blockno (bufs s i) \<in> dirty_blocks s"
  then obtain j where j: "j < NBUF" "B_DIRTY (bufs s j)" "blockno (bufs s j) = blockno (bufs s i)"
    by (auto simp: dirty_blocks_def)
  then have "B_VALID (bufs s j)"
    using cache_okD(4) [OF assms(1) j(1)] unfolding buf_ok_def Let_def by blast
  then have "j = i"
    using cache_okD(5) [OF assms(1) j(1) assms(2)] assms(3) j(3) by blast
  with j(2) show "B_DIRTY (bufs s i)"
    by simp
qed (use assms(2) in \<open>auto simp: dirty_blocks_def\<close>)

lemma blk_clean:
  assumes "cache_ok H s" "n \<notin> dirty_blocks s" "\<And>i. i \<in> H \<Longrightarrow> blockno (bufs s i) \<noteq> n"
  shows "blk s n = disk s n"
  using blk_cases [OF assms(1), of n]
proof (elim disjE exE conjE)
  fix i
  assume i: "i < NBUF" "B_VALID (bufs s i)" "blockno (bufs s i) = n" "blk s n = data (bufs s i)"
  then have "\<not> B_DIRTY (bufs s i)" "i \<notin> H"
    using dirty_iff [OF assms(1) i(1,2)] assms(2,3) by auto
  with i show ?thesis
    using cache_okD(4) [OF assms(1) i(1)] unfolding buf_ok_def Let_def by metis
qed

lemma gotD:
  assumes "got H s i n s'"
  shows "i < NBUF" "i \<notin> H" "cache_ok (insert i H) s'" "dev (bufs s' i) = 1" "blockno (bufs s' i) = n"
    "data (bufs s' i) = blk s n" "blk s' = blk s" "\<And>j. j \<in> H \<Longrightarrow> bufs s' j = bufs s j"
    "pinned s' = insert i (pinned s)" "dirty_blocks s' = dirty_blocks s" "disk s' = disk s"
    "writes s' = writes s" "same_rest s s'" "B_DIRTY (bufs s' i) \<longleftrightarrow> n \<in> dirty_blocks s"
proof -
  show ok: "cache_ok (insert i H) s'"
    using assms by (simp add: got_def)
  show "B_DIRTY (bufs s' i) \<longleftrightarrow> n \<in> dirty_blocks s"
    using dirty_iff [OF ok, of i] held_buf [OF ok insertI1] assms by (simp add: got_def)
qed (use assms in \<open>auto simp: got_def\<close>)

text \<open>Only the fields of the cache matter to its predicates.\<close>

lemma cache_cong:
  assumes "bufs s' = bufs s" "disk s' = disk s"
  shows "blk s' = blk s" "pinned s' = pinned s" "dirty_blocks s' = dirty_blocks s"
    "lru s' = lru s \<Longrightarrow> mypid s' = mypid s \<Longrightarrow> disksize s' = disksize s \<Longrightarrow> cache_ok H s' = cache_ok H s"
proof -
  show "blk s' = blk s"
    by (rule blk_cong) (simp_all add: assms)
qed (simp_all add: assms pinned_def dirty_blocks_def cache_ok_def buf_ok_def)

section \<open>Initialisation\<close>

lemma binit_fold:
  "fold (\<lambda>i s. set_buf i ((bufs s i)\<lparr>lock := initsleeplock\<rparr>) (s\<lparr>lru := i # lru s\<rparr>)) [0..<n] s =
   s\<lparr>bufs := (\<lambda>i. if i < n then (bufs s i)\<lparr>lock := initsleeplock\<rparr> else bufs s i), lru := rev [0..<n] @ lru s\<rparr>"
proof (induction n)
  case (Suc n)
  have "(\<lambda>i. if i < n then (bufs s i)\<lparr>lock := initsleeplock\<rparr> else bufs s i)(n := (bufs s n)\<lparr>lock := initsleeplock\<rparr>) =
      (\<lambda>i. if i < Suc n then (bufs s i)\<lparr>lock := initsleeplock\<rparr> else bufs s i)"
    by (auto simp: fun_eq_iff less_Suc_eq)
  with Suc show ?case
    by (simp add: set_buf_def)
qed simp

lemma binit_eq:
  "binit s = s\<lparr>bufs := (\<lambda>i. if i < NBUF then (bufs s i)\<lparr>lock := initsleeplock\<rparr> else bufs s i), lru := rev [0..<NBUF]\<rparr>"
  using binit_fold [of NBUF "s\<lparr>lru := []\<rparr>"] by (simp add: binit_def cong: if_cong)

text \<open>The zero-initialised buffers of a booting kernel.\<close>

definition zero_buf :: buf where
  "zero_buf = \<lparr>B_VALID = False, B_DIRTY = False, dev = 0, blockno = 0, lock = initsleeplock, refcnt = 0,
     data = zero_block\<rparr>"

lemma binit_cache_ok:
  assumes "\<And>i. i < NBUF \<Longrightarrow> bufs s i = zero_buf"
  shows "cache_ok {} (binit s)" "dirty_blocks (binit s) = {}" "blk (binit s) = disk s"
proof -
  show ok: "cache_ok {} (binit s)"
    using assms by (intro cache_okI) (auto simp: binit_eq buf_ok_def zero_buf_def initsleeplock_def)
  show "dirty_blocks (binit s) = {}"
    using assms by (auto simp: dirty_blocks_def binit_eq zero_buf_def)
  show "blk (binit s) = disk s"
    using assms by (auto simp: fun_eq_iff binit_eq zero_buf_def intro!: blk_uncached [THEN trans, THEN fun_cong])
qed

end
