(* ===== verification/Log.thy ===== *)
theory Log
  imports Bio
begin

text \<open>
  \<^verbatim>\<open>src/kernel/log.c\<close>: the physical redo log.  The state extends the buffer cache by \<^verbatim>\<open>struct log\<close>;
  the log header is an array of \<open>LOGSIZE\<close> block numbers with a count.  On the disk the header is the
  block \<open>lg_start\<close>, with the count as its first 32-bit word and the block numbers behind it.
\<close>

record lstate = bstate +
  lg_start :: nat
  lg_size :: nat
  outstanding :: int
  committing :: bool
  lg_dev :: nat
  lh_n :: int
  lh_block :: "nat \<Rightarrow> nat"

definition install_step :: "nat \<Rightarrow> 'a lstate_scheme \<Rightarrow> 'a lstate_scheme option" where
  "install_step tail s = do {
     (lbuf, s) \<leftarrow> bread (lg_dev s) (lg_start s + tail + 1) s;
     (dbuf, s) \<leftarrow> bread (lg_dev s) (lh_block s tail) s;
     let s = set_data dbuf (data (bufs s lbuf)) s;
     s \<leftarrow> bwrite dbuf s;
     s \<leftarrow> brelse lbuf s;
     brelse dbuf s
   }"

definition install_trans :: "'a lstate_scheme \<Rightarrow> 'a lstate_scheme option" where
  "install_trans s = mfold install_step [0..<nat (lh_n s)] s"

definition read_head :: "'a lstate_scheme \<Rightarrow> 'a lstate_scheme option" where
  "read_head s = do {
     (b, s) \<leftarrow> bread (lg_dev s) (lg_start s) s;
     let d = data (bufs s b);
     let n = sint (get32 d 0);
     if n > int LOGSIZE then undefined_behaviour ''read_head: lh.block overflow''
     else
       brelse b (s\<lparr>lh_n := n,
         lh_block := (\<lambda>i. if i < nat n then unat (get32 d (4 + 4 * i)) else lh_block s i)\<rparr>)
   }"

fun put_blocks :: "(nat \<Rightarrow> nat) \<Rightarrow> nat \<Rightarrow> block \<Rightarrow> block" where
  "put_blocks f 0 d = d"
| "put_blocks f (Suc n) d = put32 (put_blocks f n d) (4 + 4 * n) (of_nat (f n))"

definition write_head :: "'a lstate_scheme \<Rightarrow> 'a lstate_scheme option" where
  "write_head s = do {
     (b, s) \<leftarrow> bread (lg_dev s) (lg_start s) s;
     let s = set_data b (put_blocks (lh_block s) (nat (lh_n s)) (put32 (data (bufs s b)) 0 (of_int (lh_n s)))) s;
     s \<leftarrow> bwrite b s;
     brelse b s
   }"

definition recover_from_log :: "'a lstate_scheme \<Rightarrow> 'a lstate_scheme option" where
  "recover_from_log s = do {
     s \<leftarrow> read_head s;
     s \<leftarrow> install_trans s;
     write_head (s\<lparr>lh_n := 0\<rparr>)
   }"

definition begin_op :: "'a lstate_scheme \<Rightarrow> 'a lstate_scheme option" where
  "begin_op s =
     (if committing s then blocked ''begin_op''
      else if lh_n s + (outstanding s + 1) * int MAXOPBLOCKS > int LOGSIZE then blocked ''begin_op''
      else Some (s\<lparr>outstanding := outstanding s + 1\<rparr>))"

definition write_log_step :: "nat \<Rightarrow> 'a lstate_scheme \<Rightarrow> 'a lstate_scheme option" where
  "write_log_step tail s = do {
     (to, s) \<leftarrow> bread (lg_dev s) (lg_start s + tail + 1) s;
     (from, s) \<leftarrow> bread (lg_dev s) (lh_block s tail) s;
     let s = set_data to (data (bufs s from)) s;
     s \<leftarrow> bwrite to s;
     s \<leftarrow> brelse from s;
     brelse to s
   }"

definition write_log :: "'a lstate_scheme \<Rightarrow> 'a lstate_scheme option" where
  "write_log s = mfold write_log_step [0..<nat (lh_n s)] s"

definition commit :: "'a lstate_scheme \<Rightarrow> 'a lstate_scheme option" where
  "commit s =
     (if lh_n s > 0 then do {
        s \<leftarrow> write_log s;
        s \<leftarrow> write_head s;
        s \<leftarrow> install_trans s;
        write_head (s\<lparr>lh_n := 0\<rparr>)
      } else Some s)"

definition end_op :: "'a lstate_scheme \<Rightarrow> 'a lstate_scheme option" where
  "end_op s =
     (let s = s\<lparr>outstanding := outstanding s - 1\<rparr> in
      if committing s then panic ''log.committing''
      else if outstanding s = 0 then do {
        s \<leftarrow> commit (s\<lparr>committing := True\<rparr>);
        Some (s\<lparr>committing := False\<rparr>)
      } else Some s)"

definition log_write :: "nat \<Rightarrow> 'a lstate_scheme \<Rightarrow> 'a lstate_scheme option" where
  "log_write b s =
     (if lh_n s \<ge> int LOGSIZE \<or> lh_n s \<ge> int (lg_size s) - 1 then panic ''too big a transaction''
      else if outstanding s < 1 then panic ''log_write outside of trans''
      else
        let i = (case find (\<lambda>i. lh_block s i = blockno (bufs s b)) [0..<nat (lh_n s)] of
                   Some i \<Rightarrow> i | None \<Rightarrow> nat (lh_n s));
            s = s\<lparr>lh_block := (lh_block s)(i := blockno (bufs s b)),
                  lh_n := (if int i = lh_n s then lh_n s + 1 else lh_n s)\<rparr>
        in Some (set_buf b ((bufs s b)\<lparr>B_DIRTY := True\<rparr>) s))"

section \<open>The header block\<close>

lemma get32_put_blocks:
  "get32 (put_blocks f n d) 0 = get32 d 0"
  "i < n \<Longrightarrow> get32 (put_blocks f n d) (4 + 4 * i) = of_nat (f i)"
proof -
  show "get32 (put_blocks f n d) 0 = get32 d 0"
    by (induction n) simp_all
  show "i < n \<Longrightarrow> get32 (put_blocks f n d) (4 + 4 * i) = of_nat (f i)"
    by (induction n) (auto simp: less_Suc_eq)
qed

definition header_n :: "block \<Rightarrow> nat" where
  "header_n d = nat (sint (get32 d 0))"

definition header_block :: "block \<Rightarrow> nat \<Rightarrow> nat" where
  "header_block d i = unat (get32 d (4 + 4 * i))"

lemma header_written:
  assumes "n \<le> LOGSIZE" "\<And>i. i < n \<Longrightarrow> f i < 2 ^ 32"
  shows "header_n (put_blocks f n (put32 d 0 (of_int (int n)))) = n"
    and "i < n \<Longrightarrow> header_block (put_blocks f n (put32 d 0 (of_int (int n)))) i = f i"
proof -
  have "sint (of_nat n :: uint) = int n"
    using assms(1) by (simp add: LOGSIZE_def signed_of_nat signed_take_bit_int_eq_self)
  then show "header_n (put_blocks f n (put32 d 0 (of_int (int n)))) = n"
    by (simp add: header_n_def get32_put_blocks)
  show "i < n \<Longrightarrow> header_block (put_blocks f n (put32 d 0 (of_int (int n)))) i = f i"
    using assms(2) by (simp add: header_block_def get32_put_blocks del: unat_of_nat)
qed

section \<open>One round of the copying loops\<close>

text \<open>The fields of the log are untouched by the cache operations.\<close>

lemma same_rest_log:
  assumes "same_rest s (s' :: 'a lstate_scheme)"
  shows "lg_start s' = lg_start s" "lg_size s' = lg_size s" "outstanding s' = outstanding s"
    "committing s' = committing s" "lg_dev s' = lg_dev s" "lh_n s' = lh_n s" "lh_block s' = lh_block s"
    "lstate.more s' = lstate.more s" "disksize s' = disksize s" "mypid s' = mypid s"
  using assms by (cases s; cases s'; simp add: same_rest_def)+

text \<open>Reading two different blocks.\<close>

lemma bread_both:
  assumes "cache_ok {} s" "x \<noteq> y" "x < disksize s" "y < disksize s"
    and "card (dirty_blocks s) < NBUF" "Suc (card (dirty_blocks s)) < NBUF \<or> y \<in> dirty_blocks s"
  obtains p q s1 s2 where "bread 1 x s = Some (p, s1)" "bread 1 y s1 = Some (q, s2)" "p \<noteq> q"
    "cache_ok {p, q} s2" "blockno (bufs s2 p) = x" "blockno (bufs s2 q) = y"
    "data (bufs s2 p) = blk s x" "data (bufs s2 q) = blk s y"
    "B_DIRTY (bufs s2 p) \<longleftrightarrow> x \<in> dirty_blocks s" "B_DIRTY (bufs s2 q) \<longleftrightarrow> y \<in> dirty_blocks s"
    "blk s2 = blk s" "dirty_blocks s2 = dirty_blocks s" "disk s2 = disk s" "writes s2 = writes s"
    "same_rest s s1" "same_rest s s2"
proof -
  have "ok (bread 1 x s) (\<lambda>(i, s1). got {} s i x s1)"
    using assms by (intro bread_room) auto
  then obtain p s1 where r1: "bread 1 x s = Some (p, s1)" "got {} s p x s1"
    by (auto simp: ok_iff)
  note g1 = gotD [OF r1(2)]
  have "y < disksize s1"
    using g1(13) assms(4) by (simp add: same_rest_def)
  then have "ok (bread 1 y s1) (\<lambda>(i, s2). got {p} s1 i y s2)"
    using assms g1(3,5,10) by (intro bread_room) auto
  then obtain q s2 where r2: "bread 1 y s1 = Some (q, s2)" "got {p} s1 q y s2"
    by (auto simp: ok_iff)
  note g2 = gotD [OF r2(2)]
  show thesis
    using that [OF r1(1) r2(1)] g1 g2 same_rest_trans [OF g1(13) g2(13)] by (simp add: insert_commute)
qed

text \<open>Copying one held buffer into another, writing it through and releasing both.\<close>

lemma copy_release:
  assumes "cache_ok {p, q} s" "p \<noteq> q"
    and "B_DIRTY (bufs s q) \<or> data (bufs s q) = disk s (blockno (bufs s q))"
  shows "ok (do { s \<leftarrow> bwrite p (set_data p (data (bufs s q)) s); s \<leftarrow> brelse q s; brelse p s })
    (\<lambda>s'. cache_ok {} s' \<and> blk s' = (blk s)(blockno (bufs s p) := data (bufs s q)) \<and>
       disk s' = (disk s)(blockno (bufs s p) := data (bufs s q)) \<and>
       writes s' = writes s @ [(blockno (bufs s p), data (bufs s q))] \<and>
       dirty_blocks s' = dirty_blocks s - {blockno (bufs s p)} \<and> same_rest s s')"
proof -
  let ?s3 = "set_data p (data (bufs s q)) s"
  have c3: "cache_ok {p, q} ?s3" "blk ?s3 = (blk s)(blockno (bufs s p) := data (bufs s q))"
    using set_data_held [OF assms(1), of p] by auto
  obtain s4 where r4: "bwrite p ?s3 = Some s4" and g4: "cache_ok {p, q} s4" "blk s4 = blk ?s3"
    "bufs s4 = (bufs ?s3)(p := (bufs ?s3 p)\<lparr>B_DIRTY := False\<rparr>)"
    "disk s4 = (disk s)(blockno (bufs s p) := data (bufs s q))"
    "writes s4 = writes s @ [(blockno (bufs s p), data (bufs s q))]"
    "dirty_blocks s4 = dirty_blocks s - {blockno (bufs s p)}" "same_rest s s4"
    using bwrite_held [OF c3(1), of p] by (auto simp: ok_iff same_rest_def)
  have "blockno (bufs s q) \<noteq> blockno (bufs s p)"
    using cache_okD(5) [OF assms(1), of p q] held_buf [OF assms(1), of p] held_buf [OF assms(1), of q]
      assms(2) by auto
  then have saved: "B_DIRTY (bufs s4 q) \<or> data (bufs s4 q) = disk s4 (blockno (bufs s4 q))"
    using assms(2,3) g4(3,4) by auto
  have held: "cache_ok (insert q {p}) s4" "q \<notin> {p}"
    using g4(1) assms(2) by (auto simp: insert_commute)
  obtain s5 where r5: "brelse q s4 = Some s5" and g5: "cache_ok {p} s5" "blk s5 = blk s4"
    "bufs s5 p = bufs s4 p" "dirty_blocks s5 = dirty_blocks s4" "disk s5 = disk s4" "writes s5 = writes s4"
    "same_rest s4 s5"
    using brelse_held [OF held saved] assms(2) by (auto simp: ok_iff)
  have "data (bufs s5 p) = disk s5 (blockno (bufs s5 p))"
    using g5(3,5) g4(3,4) by simp
  then show ?thesis
    using brelse_held [of p "{}" s5] r4 r5 g5 g4 c3
    by (auto simp: ok_iff same_rest_def)
qed

definition apply_writes :: "(nat \<times> block) list \<Rightarrow> (nat \<Rightarrow> block) \<Rightarrow> nat \<Rightarrow> block" where
  "apply_writes ws d = foldl (\<lambda>d (b, x). d(b := x)) d ws"

lemma apply_writes_simps [simp]:
  "apply_writes [] d = d"
  "apply_writes ((b, x) # ws) d = apply_writes ws (d(b := x))"
  "apply_writes (ws @ vs) d = apply_writes vs (apply_writes ws d)"
  by (simp_all add: apply_writes_def)

lemma apply_writes_other: "b \<notin> fst ` set ws \<Longrightarrow> apply_writes ws d b = d b"
  by (induction ws rule: rev_induct) auto

lemma apply_writes_map:
  "distinct (map f xs) \<Longrightarrow> x \<in> set xs \<Longrightarrow> apply_writes (map (\<lambda>u. (f u, g u)) xs) d (f x) = g x"
proof (induction xs rule: rev_induct)
  case (snoc y xs)
  have "f x \<noteq> f y" if "x \<in> set xs"
    using that snoc.prems(1) by simp (metis image_eqI)
  with snoc show ?case
    by (cases "x \<in> set xs") auto
qed simp

text \<open>
  \<open>moved s ws s'\<close>: the cache is consistent again, and disk and logical blocks have both taken the writes
  \<open>ws\<close>; the log's own fields are as they were.
\<close>

definition moved :: "'a lstate_scheme \<Rightarrow> (nat \<times> block) list \<Rightarrow> 'a lstate_scheme \<Rightarrow> bool" where
  "moved s ws s' \<longleftrightarrow> cache_ok {} s' \<and> blk s' = apply_writes ws (blk s) \<and> disk s' = apply_writes ws (disk s) \<and>
     writes s' = writes s @ ws \<and> same_rest s s'"

lemma moved_trans: "moved s ws s' \<Longrightarrow> moved s' vs s'' \<Longrightarrow> moved s (ws @ vs) s''"
  by (simp add: moved_def same_rest_def)

lemma moved_snoc: "moved s ws s' \<Longrightarrow> moved s' [x] s'' \<Longrightarrow> moved s (ws @ [x]) s''"
  by (rule moved_trans)

lemma write_log_step_ok:
  fixes s :: "'a lstate_scheme"
  assumes "cache_ok {} s" "lg_dev s = 1" and a: "a = lg_start s + t + 1" and b: "b = lh_block s t"
    and "a \<noteq> b" "a < disksize s" "b < disksize s" "a \<notin> dirty_blocks s" "b \<in> dirty_blocks s"
    and "card (dirty_blocks s) < NBUF"
  shows "ok (write_log_step t s) (\<lambda>s'. dirty_blocks s' = dirty_blocks s \<and> moved s [(a, blk s b)] s')"
proof -
  obtain p q s1 s2 where r: "bread 1 a s = Some (p, s1)" "bread 1 b s1 = Some (q, s2)" "p \<noteq> q"
    "cache_ok {p, q} s2" "blockno (bufs s2 p) = a" "blockno (bufs s2 q) = b"
    "data (bufs s2 p) = blk s a" "data (bufs s2 q) = blk s b"
    "B_DIRTY (bufs s2 p) \<longleftrightarrow> a \<in> dirty_blocks s" "B_DIRTY (bufs s2 q) \<longleftrightarrow> b \<in> dirty_blocks s"
    "blk s2 = blk s" "dirty_blocks s2 = dirty_blocks s" "disk s2 = disk s" "writes s2 = writes s"
    "same_rest s s1" "same_rest s s2"
    by (rule bread_both [OF assms(1,5-7,10) disjI2 [OF assms(9)]])
  have "write_log_step t s = do { s \<leftarrow> bwrite p (set_data p (data (bufs s2 q)) s2); s \<leftarrow> brelse q s; brelse p s }"
    using r(1,2) same_rest_log [OF r(15)] a b assms(2) by (simp add: write_log_step_def)
  moreover have "B_DIRTY (bufs s2 q) \<or> data (bufs s2 q) = disk s2 (blockno (bufs s2 q))"
    using r(10) assms(9) by simp
  ultimately show ?thesis
    using copy_release [OF r(4,3)] r assms(8) by (auto elim!: ok_mono simp: same_rest_def moved_def)
qed

lemma install_step_ok:
  fixes s :: "'a lstate_scheme"
  assumes "cache_ok {} s" "lg_dev s = 1" and a: "a = lg_start s + t + 1" and b: "b = lh_block s t"
    and "a \<noteq> b" "a < disksize s" "b < disksize s" "a \<notin> dirty_blocks s"
    and "card (dirty_blocks s) < NBUF" "dirty_blocks s = {} \<or> b \<in> dirty_blocks s"
  shows "ok (install_step t s) (\<lambda>s'. dirty_blocks s' = dirty_blocks s - {b} \<and> moved s [(b, blk s a)] s')"
proof -
  have room: "Suc (card (dirty_blocks s)) < NBUF \<or> b \<in> dirty_blocks s"
    using assms(10) by (auto simp: NBUF_def)
  obtain p q s1 s2 where r: "bread 1 a s = Some (p, s1)" "bread 1 b s1 = Some (q, s2)" "p \<noteq> q"
    "cache_ok {p, q} s2" "blockno (bufs s2 p) = a" "blockno (bufs s2 q) = b"
    "data (bufs s2 p) = blk s a" "data (bufs s2 q) = blk s b"
    "B_DIRTY (bufs s2 p) \<longleftrightarrow> a \<in> dirty_blocks s" "B_DIRTY (bufs s2 q) \<longleftrightarrow> b \<in> dirty_blocks s"
    "blk s2 = blk s" "dirty_blocks s2 = dirty_blocks s" "disk s2 = disk s" "writes s2 = writes s"
    "same_rest s s1" "same_rest s s2"
    by (rule bread_both [OF assms(1,5-7,9) room])
  have "install_step t s = do { s \<leftarrow> bwrite q (set_data q (data (bufs s2 p)) s2); s \<leftarrow> brelse p s; brelse q s }"
    using r(1,2) same_rest_log [OF r(15)] a b assms(2) by (simp add: install_step_def)
  moreover have "data (bufs s2 p) = disk s2 (blockno (bufs s2 p))"
    using blk_clean [OF assms(1,8)] r(5,7,13) by simp
  moreover have "cache_ok {q, p} s2"
    using r(4) by (simp add: insert_commute)
  ultimately show ?thesis
    using copy_release [of q p s2] r by (auto elim!: ok_mono simp: same_rest_def moved_def)
qed

section \<open>The loops as sequences of disk writes\<close>

text \<open>The log area, and a log header that describes a transaction in the cache.\<close>

definition log_area :: "'a lstate_scheme \<Rightarrow> nat set" where
  "log_area s = {lg_start s..<lg_start s + lg_size s}"

definition header_ok :: "'a lstate_scheme \<Rightarrow> bool" where
  "header_ok s \<longleftrightarrow> lg_dev s = 1 \<and> 0 \<le> lh_n s \<and> lh_n s < int (lg_size s) \<and> lh_n s < int NBUF \<and>
     lg_start s + lg_size s \<le> disksize s \<and> disksize s \<le> 2 ^ 32 \<and>
     (\<forall>i < nat (lh_n s). lh_block s i < disksize s \<and> lh_block s i \<notin> log_area s)"

definition tx_blocks :: "'a lstate_scheme \<Rightarrow> nat list" where
  "tx_blocks s = map (lh_block s) [0..<nat (lh_n s)]"

lemma header_okD:
  assumes "header_ok s" "t < nat (lh_n s)"
  shows "lg_start s + t + 1 < disksize s" "lh_block s t < disksize s" "lh_block s t \<notin> log_area s"
    "lg_start s + t + 1 \<in> log_area s"
  using assms by (auto simp: header_ok_def log_area_def)

lemma tx_card: "header_ok s \<Longrightarrow> card (set (tx_blocks s)) < NBUF"
  using card_length [of "tx_blocks s"] by (simp add: tx_blocks_def header_ok_def) linarith

lemma write_log_ok:
  assumes "cache_ok {} s" "header_ok s" "dirty_blocks s = set (tx_blocks s)"
  shows "ok (write_log s) (\<lambda>s'. dirty_blocks s' = dirty_blocks s \<and>
    moved s (map (\<lambda>u. (lg_start s + u + 1, blk s (lh_block s u))) [0..<nat (lh_n s)]) s')"
  unfolding write_log_def
proof (rule ok_mfold [where I = "\<lambda>t s'. dirty_blocks s' = dirty_blocks s \<and>
    moved s (map (\<lambda>u. (lg_start s + u + 1, blk s (lh_block s u))) [0..<t]) s'"])
  show "dirty_blocks s = dirty_blocks s \<and> moved s (map (\<lambda>u. (lg_start s + u + 1, blk s (lh_block s u))) [0..<0]) s"
    using assms(1) by (simp add: moved_def)
next
  fix t s'
  let ?W = "map (\<lambda>u. (lg_start s + u + 1, blk s (lh_block s u))) [0..<t]"
  assume t: "t < nat (lh_n s)" and I: "dirty_blocks s' = dirty_blocks s \<and> moved s ?W s'"
  then have l: "same_rest s s'" "cache_ok {} s'" "blk s' = apply_writes ?W (blk s)"
    by (auto simp: moved_def)
  note rest = same_rest_log [OF l(1)]
  note h = header_okD [OF assms(2) t]
  have dirty: "lh_block s t \<in> dirty_blocks s'" "lg_start s + t + 1 \<notin> dirty_blocks s'"
    "card (dirty_blocks s') < NBUF"
  proof -
    show "lh_block s t \<in> dirty_blocks s'"
      using t I assms(3) by (auto simp: tx_blocks_def)
    show "lg_start s + t + 1 \<notin> dirty_blocks s'"
      using I assms(3) h(4) header_okD(3) [OF assms(2)] by (auto simp: tx_blocks_def)
    show "card (dirty_blocks s') < NBUF"
      using I assms(3) tx_card [OF assms(2)] by simp
  qed
  have "blk s' (lh_block s t) = blk s (lh_block s t)"
    unfolding l(3) using h(3) t assms(2)
    by (intro apply_writes_other) (auto simp: log_area_def header_ok_def)
  moreover have "ok (write_log_step t s') (\<lambda>s''. dirty_blocks s'' = dirty_blocks s' \<and>
      moved s' [(lg_start s + t + 1, blk s' (lh_block s t))] s'')"
    using l(2) dirty h rest assms(2) by (intro write_log_step_ok) (auto simp: header_ok_def)
  ultimately show "ok (write_log_step t s') (\<lambda>s''. dirty_blocks s'' = dirty_blocks s \<and>
      moved s (map (\<lambda>u. (lg_start s + u + 1, blk s (lh_block s u))) [0..<Suc t]) s'')"
    using I by (auto elim!: ok_mono dest: moved_snoc)
qed

lemma install_trans_ok:
  assumes "cache_ok {} s" "header_ok s" "distinct (tx_blocks s)"
    and "dirty_blocks s = {} \<or> dirty_blocks s = set (tx_blocks s)"
  shows "ok (install_trans s) (\<lambda>s'. dirty_blocks s' = {} \<and>
    moved s (map (\<lambda>u. (lh_block s u, blk s (lg_start s + u + 1))) [0..<nat (lh_n s)]) s')"
proof -
  define I where "I = (\<lambda>t s'. dirty_blocks s' = dirty_blocks s - lh_block s ` {0..<t} \<and>
    moved s (map (\<lambda>u. (lh_block s u, blk s (lg_start s + u + 1))) [0..<t]) s')"
  have "ok (mfold install_step [0..<nat (lh_n s)] s) (I (nat (lh_n s)))"
  proof (rule ok_mfold)
    show "I 0 s"
      using assms(1) by (simp add: I_def moved_def)
  next
    fix t s'
    let ?W = "map (\<lambda>u. (lh_block s u, blk s (lg_start s + u + 1))) [0..<t]"
    assume t: "t < nat (lh_n s)" and "I t s'"
    then have l: "same_rest s s'" "cache_ok {} s'" "blk s' = apply_writes ?W (blk s)"
      "dirty_blocks s' = dirty_blocks s - lh_block s ` {0..<t}"
      by (auto simp: moved_def I_def)
    note rest = same_rest_log [OF l(1)]
    note h = header_okD [OF assms(2) t]
    have "lh_block s t \<notin> lh_block s ` {0..<t}"
      using assms(3) t unfolding tx_blocks_def distinct_map inj_on_def by force
    then have d1: "dirty_blocks s' = {} \<or> lh_block s t \<in> dirty_blocks s'"
      using assms(4) t l(4) by (auto simp: tx_blocks_def)
    have d2: "lg_start s + t + 1 \<notin> dirty_blocks s'"
      using l(4) assms(4) h(4) header_okD(3) [OF assms(2)] by (auto simp: tx_blocks_def)
    have "card (dirty_blocks s') \<le> card (set (tx_blocks s))"
      using l(4) assms(4) by (intro card_mono) auto
    then have d3: "card (dirty_blocks s') < NBUF"
      using tx_card [OF assms(2)] by simp
    have "blk s' (lg_start s + t + 1) = blk s (lg_start s + t + 1)"
      unfolding l(3) using h(4) t header_okD(3) [OF assms(2)]
      by (intro apply_writes_other) fastforce
    moreover have "ok (install_step t s') (\<lambda>s''. dirty_blocks s'' = dirty_blocks s' - {lh_block s t} \<and>
        moved s' [(lh_block s t, blk s' (lg_start s + t + 1))] s'')"
      using l(2) d1 d2 d3 h rest assms(2) by (intro install_step_ok) (auto simp: header_ok_def)
    ultimately show "ok (install_step t s') (I (Suc t))"
      using \<open>I t s'\<close> by (auto elim!: ok_mono dest: moved_snoc simp: I_def atLeast0_lessThan_Suc)
  qed
  then show ?thesis
    unfolding install_trans_def
    by (rule ok_mono) (use assms(4) in \<open>auto simp: I_def tx_blocks_def\<close>)
qed

lemma write_head_ok:
  assumes "cache_ok {} s" "header_ok s" "dirty_blocks s = {} \<or> dirty_blocks s = set (tx_blocks s)"
  shows "\<exists>h. header_n h = nat (lh_n s) \<and> (\<forall>i < nat (lh_n s). header_block h i = lh_block s i) \<and>
    ok (write_head s) (\<lambda>s'. dirty_blocks s' = dirty_blocks s \<and> moved s [(lg_start s, h)] s')"
proof -
  let ?h = "put_blocks (lh_block s) (nat (lh_n s)) (put32 (blk s (lg_start s)) 0 (of_int (lh_n s)))"
  have n: "0 \<le> lh_n s" "nat (lh_n s) \<le> LOGSIZE" "lg_dev s = 1" "lg_start s < disksize s" "lg_start s \<in> log_area s"
    "of_int (lh_n s) = (of_int (int (nat (lh_n s))) :: uint)"
    using assms(2) by (auto simp: header_ok_def NBUF_def LOGSIZE_def log_area_def)
  have small: "lh_block s i < 2 ^ 32" if "i < nat (lh_n s)" for i
    using header_okD(2) [OF assms(2) that] assms(2) by (auto simp: header_ok_def)
  have "header_n ?h = nat (lh_n s)"
    unfolding n(6) using n(2) small by (rule header_written(1))
  moreover have "\<forall>i < nat (lh_n s). header_block ?h i = lh_block s i"
    unfolding n(6) by (intro allI impI header_written(2) [OF n(2)] small)
  moreover have clean: "lg_start s \<notin> dirty_blocks s" "card (dirty_blocks s) < NBUF"
    using assms(3) n(5) header_okD(3) [OF assms(2)] tx_card [OF assms(2)] by (auto simp: tx_blocks_def NBUF_def)
  have "ok (bread 1 (lg_start s) s) (\<lambda>(i, s1). got {} s i (lg_start s) s1)"
    using assms(1) n(4) clean(2) by (intro bread_room) auto
  then obtain b s1 where r: "bread 1 (lg_start s) s = Some (b, s1)" "got {} s b (lg_start s) s1"
    by (auto simp: ok_iff)
  note g = gotD [OF r(2)]
  let ?s2 = "set_data b ?h s1"
  have c: "cache_ok {b} ?s2" "blk ?s2 = (blk s)(lg_start s := ?h)"
    using set_data_held [OF g(3), of b] g(5,7) by auto
  obtain s3 where w: "bwrite b ?s2 = Some s3" "cache_ok {b} s3" "blk s3 = blk ?s2"
    "bufs s3 = (bufs ?s2)(b := (bufs ?s2 b)\<lparr>B_DIRTY := False\<rparr>)" "disk s3 = (disk s)(lg_start s := ?h)"
    "writes s3 = writes s @ [(lg_start s, ?h)]" "dirty_blocks s3 = dirty_blocks s" "same_rest s s3"
    using bwrite_held [OF c(1), of b] g clean(1) by (auto simp: ok_iff same_rest_def)
  have "ok (brelse b s3) (\<lambda>s'. dirty_blocks s' = dirty_blocks s \<and> moved s [(lg_start s, ?h)] s')"
    using brelse_held [of b "{}" s3] w c(2) g(5) by (auto elim!: ok_mono simp: moved_def same_rest_def)
  moreover have "write_head s = brelse b s3"
    using r(1) w(1) n(3) same_rest_log [OF g(13)] g(6) by (simp add: write_head_def)
  ultimately show ?thesis
    by (intro exI [of _ ?h]) simp
qed

section \<open>Commit and recovery\<close>

text \<open>
  The disk writes of a commit: the copies into the log, the header that makes them count, the copies to
  their home locations, and the header that retires them.
\<close>

definition commit_writes :: "'a lstate_scheme \<Rightarrow> block \<Rightarrow> block \<Rightarrow> (nat \<times> block) list" where
  "commit_writes s h h' =
     map (\<lambda>u. (lg_start s + u + 1, blk s (lh_block s u))) [0..<nat (lh_n s)] @ [(lg_start s, h)] @
     map (\<lambda>u. (lh_block s u, blk s (lh_block s u))) [0..<nat (lh_n s)] @ [(lg_start s, h')]"

text \<open>A transaction as the file system leaves it for \<^verbatim>\<open>commit\<close>: the dirty buffers are the logged blocks.\<close>

definition tx_ok :: "'a lstate_scheme \<Rightarrow> bool" where
  "tx_ok s \<longleftrightarrow> cache_ok {} s \<and> header_ok s \<and> distinct (tx_blocks s) \<and> dirty_blocks s = set (tx_blocks s)"

lemma moved_log:
  assumes "moved s ws s'"
  shows "lg_start s' = lg_start s" "lg_dev s' = lg_dev s" "lh_n s' = lh_n s" "lh_block s' = lh_block s"
    "tx_blocks s' = tx_blocks s" "header_ok s' = header_ok s" "cache_ok {} s'" "lg_size s' = lg_size s"
  using assms same_rest_log [of s s']
  by (auto simp: moved_def tx_blocks_def header_ok_def log_area_def)

lemma lh_n_upd_cache [simp]:
  "blk (s\<lparr>lh_n := n\<rparr>) = blk s" "dirty_blocks (s\<lparr>lh_n := n\<rparr>) = dirty_blocks s"
  "cache_ok H (s\<lparr>lh_n := n\<rparr>) = cache_ok H s"
  by (simp_all add: cache_cong [of "s\<lparr>lh_n := n\<rparr>" s])

lemma same_rest_lh_n: "same_rest (s\<lparr>lh_n := 0\<rparr>) s' \<Longrightarrow> same_rest s (s'\<lparr>lh_n := lh_n s\<rparr>) \<and> lh_n s' = 0"
  by (cases s; cases s') (simp add: same_rest_def)

lemma apply_log_copies:
  assumes "header_ok s" "u < nat (lh_n s)"
  shows "apply_writes (map (\<lambda>u. (lg_start s + u + 1, g u)) [0..<nat (lh_n s)]) d (lg_start s + u + 1) = g u"
  using assms(2) by (intro apply_writes_map) (auto simp: distinct_map inj_on_def)

lemma commit_run:
  assumes "tx_ok s" "0 < lh_n s"
  shows "\<exists>h h'. header_n h = nat (lh_n s) \<and> (\<forall>i < nat (lh_n s). header_block h i = lh_block s i) \<and>
    header_n h' = 0 \<and>
    ok (commit s) (\<lambda>s'. dirty_blocks s' = {} \<and> lh_n s' = 0 \<and> cache_ok {} s' \<and>
      blk s' = apply_writes (commit_writes s h h') (blk s) \<and> disk s' = apply_writes (commit_writes s h h') (disk s) \<and>
      writes s' = writes s @ commit_writes s h h' \<and> same_rest s (s'\<lparr>lh_n := lh_n s\<rparr>))"
proof -
  have tx: "cache_ok {} s" "header_ok s" "distinct (tx_blocks s)" "dirty_blocks s = set (tx_blocks s)"
    using assms(1) by (auto simp: tx_ok_def)
  let ?n = "nat (lh_n s)"
  let ?W1 = "map (\<lambda>u. (lg_start s + u + 1, blk s (lh_block s u))) [0..<?n]"
  obtain s1 where r1: "write_log s = Some s1" "dirty_blocks s1 = dirty_blocks s" "moved s ?W1 s1"
    using write_log_ok [OF tx(1,2,4)] by (auto simp: ok_iff)
  note m1 = moved_log [OF r1(3)]
  obtain h s2 where h: "header_n h = ?n" "\<forall>i < ?n. header_block h i = lh_block s i"
    and r2: "write_head s1 = Some s2" "dirty_blocks s2 = dirty_blocks s" "moved s1 [(lg_start s, h)] s2"
    using write_head_ok [of s1] m1 tx r1(2) by (auto simp: ok_iff)
  note m2 = moved_log [OF r2(3)]
  have src: "blk s2 (lg_start s + u + 1) = blk s (lh_block s u)" if "u < ?n" for u
    using r2(3) r1(3) apply_log_copies [OF tx(2) that] by (simp add: moved_def)
  obtain s3 where r3: "install_trans s2 = Some s3" "dirty_blocks s3 = {}"
    "moved s2 (map (\<lambda>u. (lh_block s u, blk s2 (lg_start s + u + 1))) [0..<?n]) s3"
    using install_trans_ok [of s2] m1 m2 tx r2(2) by (auto simp: ok_iff)
  have eq: "map (\<lambda>u. (lh_block s u, blk s2 (lg_start s + u + 1))) [0..<?n] =
      map (\<lambda>u. (lh_block s u, blk s (lh_block s u))) [0..<?n]"
    using src by simp
  have m: "moved s (?W1 @ [(lg_start s, h)] @ map (\<lambda>u. (lh_block s u, blk s (lh_block s u))) [0..<?n]) s3"
    using moved_trans [OF moved_trans [OF r1(3) r2(3)] r3(3) [unfolded eq]] by simp
  note m3 = moved_log [OF m]
  have "header_ok (s3\<lparr>lh_n := 0\<rparr>)" "cache_ok {} (s3\<lparr>lh_n := 0\<rparr>)" "dirty_blocks (s3\<lparr>lh_n := 0\<rparr>) = {}"
    using m3 tx(2) r3(2) by (auto simp: header_ok_def log_area_def NBUF_def)
  then obtain h' s4 where h': "header_n h' = 0" and r4: "write_head (s3\<lparr>lh_n := 0\<rparr>) = Some s4"
    "dirty_blocks s4 = {}" "moved (s3\<lparr>lh_n := 0\<rparr>) [(lg_start s, h')] s4"
    using write_head_ok [of "s3\<lparr>lh_n := 0\<rparr>"] m3 by (auto simp: ok_iff)
  have "commit s = Some s4"
    using assms(2) r1(1) r2(1) r3(1) r4(1) by (simp add: commit_def)
  moreover have "same_rest s (s4\<lparr>lh_n := lh_n s\<rparr>)" "lh_n s4 = 0"
    using same_rest_lh_n [of s3 s4] m r4(3) m3(3) by (auto simp: moved_def intro: same_rest_trans)
  moreover have "blk s4 = apply_writes (commit_writes s h h') (blk s)"
    "disk s4 = apply_writes (commit_writes s h h') (disk s)" "writes s4 = writes s @ commit_writes s h h'"
    using m r4(3) by (simp_all add: commit_writes_def moved_def)
  ultimately show ?thesis
    using h h' r4(2,3) by (intro exI [of _ h] exI [of _ h']) (simp add: moved_def)
qed

text \<open>What recovery makes of a disk, as a function of the disk alone.\<close>

definition recovered :: "nat \<Rightarrow> (nat \<Rightarrow> block) \<Rightarrow> nat \<Rightarrow> block" where
  "recovered st d = apply_writes (map (\<lambda>u. (header_block (d st) u, d (st + u + 1))) [0..<header_n (d st)]) d"

definition agree_outside :: "nat set \<Rightarrow> (nat \<Rightarrow> block) \<Rightarrow> (nat \<Rightarrow> block) \<Rightarrow> bool" where
  "agree_outside A d e \<longleftrightarrow> (\<forall>b. b \<notin> A \<longrightarrow> d b = e b)"

lemma recovered_empty: "header_n (d st) = 0 \<Longrightarrow> recovered st d = d"
  by (simp add: recovered_def)

lemma blk_outside_tx: "tx_ok s \<Longrightarrow> b \<notin> set (tx_blocks s) \<Longrightarrow> blk s b = disk s b"
  by (auto simp: tx_ok_def intro: blk_clean)

text \<open>The home copies, whole or in part, on a disk that is otherwise the old one.\<close>

lemma home_copies:
  assumes "tx_ok s" "b \<notin> log_area s"
  shows "apply_writes (map (\<lambda>u. (lh_block s u, blk s (lh_block s u))) xs) d b =
    (if b \<in> lh_block s ` set xs then blk s b else d b)"
  using assms by (induction xs arbitrary: d) auto

lemma log_copies_outside:
  assumes "tx_ok s" "set xs \<subseteq> {0..<nat (lh_n s)}" "b = lg_start s \<or> b \<notin> log_area s"
  shows "apply_writes (map (\<lambda>u. (lg_start s + u + 1, g u)) xs) d b = d b"
  using assms header_okD(4) [of s]
  by (intro apply_writes_other) (force simp: tx_ok_def)

lemma recovered_committed:
  assumes tx: "tx_ok s" and hd: "header_n h = nat (lh_n s)" "\<forall>i < nat (lh_n s). header_block h i = lh_block s i"
    and d: "d = apply_writes (map (\<lambda>u. (lh_block s u, blk s (lh_block s u))) [0..<k])
      ((apply_writes (map (\<lambda>u. (lg_start s + u + 1, blk s (lh_block s u))) [0..<nat (lh_n s)]) (disk s))(lg_start s := h))"
    and k: "k \<le> nat (lh_n s)"
  shows "agree_outside (log_area s) (recovered (lg_start s) d) (blk s)"
proof -
  let ?n = "nat (lh_n s)"
  have home: "lh_block s u \<notin> log_area s" if "u < ?n" for u
    using tx that header_okD(3) by (auto simp: tx_ok_def)
  have in_log: "apply_writes (map (\<lambda>u. (lh_block s u, blk s (lh_block s u))) [0..<k]) e b = e b"
    if "b \<in> log_area s" for e b
    using that home k by (intro apply_writes_other) (fastforce simp: less_le_trans)
  have st: "lg_start s \<in> log_area s"
    using tx by (auto simp: tx_ok_def header_ok_def log_area_def)
  have "d (lg_start s) = h"
    by (simp add: d in_log [OF st])
  moreover have "d (lg_start s + u + 1) = blk s (lh_block s u)" if "u < ?n" for u
    using apply_log_copies [of s u "\<lambda>u. blk s (lh_block s u)"] header_okD(4) [of s u] tx that
    by (simp add: d in_log tx_ok_def)
  ultimately have "recovered (lg_start s) d =
      apply_writes (map (\<lambda>u. (lh_block s u, blk s (lh_block s u))) [0..<?n]) d"
    unfolding recovered_def using hd by (intro arg_cong [where f = "\<lambda>ws. apply_writes ws d"]) simp
  moreover have "d b = disk s b" if "b \<notin> log_area s" "b \<notin> set (tx_blocks s)" for b
    using that st k tx
    by (auto simp: d home_copies log_copies_outside [simplified] tx_blocks_def)
  ultimately show ?thesis
    using tx blk_outside_tx [OF tx]
    by (auto simp: agree_outside_def home_copies tx_blocks_def)
qed

lemma start_in_log: "header_ok s \<Longrightarrow> lg_start s \<in> log_area s"
  by (auto simp: header_ok_def log_area_def)

lemma commit_final:
  assumes "tx_ok s"
  shows "agree_outside (log_area s) (apply_writes (commit_writes s h h') (disk s)) (blk s)"
proof -
  have "lg_start s \<in> log_area s"
    using assms start_in_log by (auto simp: tx_ok_def)
  then show ?thesis
    using assms blk_outside_tx [OF assms] log_copies_outside [OF assms, simplified]
    by (auto simp: agree_outside_def commit_writes_def home_copies tx_blocks_def)
qed

lemma commit_prefix:
  assumes tx: "tx_ok s" and hd: "header_n h = nat (lh_n s)" "\<forall>i < nat (lh_n s). header_block h i = lh_block s i"
    and "header_n h' = 0" "header_n (disk s (lg_start s)) = 0"
  shows "agree_outside (log_area s)
      (recovered (lg_start s) (apply_writes (take k (commit_writes s h h')) (disk s))) (disk s) \<or>
    agree_outside (log_area s)
      (recovered (lg_start s) (apply_writes (take k (commit_writes s h h')) (disk s))) (blk s)"
proof -
  let ?n = "nat (lh_n s)"
  let ?W1 = "\<lambda>xs. map (\<lambda>u. (lg_start s + u + 1, blk s (lh_block s u))) xs"
  let ?W3 = "\<lambda>xs. map (\<lambda>u. (lh_block s u, blk s (lh_block s u))) xs"
  let ?d1 = "(apply_writes (?W1 [0..<?n]) (disk s))(lg_start s := h)"
  consider "k \<le> ?n" | j where "j \<le> ?n" "k = Suc ?n + j" | "Suc (Suc (?n + ?n)) \<le> k"
    by (metis add_Suc add_Suc_right le_Suc_ex le_add_diff_inverse nat_add_left_cancel_le not_less_eq_eq)
  then show ?thesis
  proof cases
    case 1
    let ?d = "apply_writes (?W1 [0..<k]) (disk s)"
    have "take k (commit_writes s h h') = ?W1 [0..<k]"
      using 1 by (simp add: commit_writes_def take_map)
    moreover have same: "?d b = disk s b" if "b = lg_start s \<or> b \<notin> log_area s" for b
      using 1 by (intro log_copies_outside [OF tx _ that]) auto
    ultimately show ?thesis
      using recovered_empty [of ?d "lg_start s"] assms(5) by (simp add: agree_outside_def)
  next
    case 2
    have "take k (commit_writes s h h') = ?W1 [0..<?n] @ (lg_start s, h) # ?W3 [0..<j]"
      using 2 by (simp add: commit_writes_def take_map)
    moreover have "agree_outside (log_area s) (recovered (lg_start s) (apply_writes (?W3 [0..<j]) ?d1)) (blk s)"
      using recovered_committed [OF tx hd refl 2(1)] .
    ultimately show ?thesis
      by simp
  next
    case 3
    let ?d = "apply_writes (commit_writes s h h') (disk s)"
    have "take k (commit_writes s h h') = commit_writes s h h'"
      using 3 by (simp add: commit_writes_def)
    moreover have "header_n (?d (lg_start s)) = 0"
      using assms(4) by (simp add: commit_writes_def)
    ultimately show ?thesis
      using recovered_empty [of ?d "lg_start s"] commit_final [OF tx] by simp
  qed
qed

text \<open>
  A disk whose log header \<^verbatim>\<open>recover_from_log\<close> can follow: few enough blocks, each with a home outside the log.
\<close>

definition log_disk_ok :: "'a lstate_scheme \<Rightarrow> bool" where
  "log_disk_ok s \<longleftrightarrow>
     (let h = disk s (lg_start s); n = header_n h in
      lg_dev s = 1 \<and> 0 \<le> sint (get32 h 0) \<and> n < lg_size s \<and> n < NBUF \<and> lg_start s + lg_size s \<le> disksize s \<and>
      disksize s \<le> 2 ^ 32 \<and> distinct (map (header_block h) [0..<n]) \<and>
      (\<forall>i < n. header_block h i < disksize s \<and> header_block h i \<notin> log_area s))"

lemma read_head_ok:
  assumes "cache_ok {} s" "dirty_blocks s = {}" "log_disk_ok s"
  shows "ok (read_head s) (\<lambda>s'. cache_ok {} s' \<and> dirty_blocks s' = {} \<and> blk s' = blk s \<and> disk s' = disk s \<and>
    writes s' = writes s \<and> lh_n s' = int (header_n (disk s (lg_start s))) \<and>
    (\<forall>i < header_n (disk s (lg_start s)). lh_block s' i = header_block (disk s (lg_start s)) i) \<and>
    lg_start s' = lg_start s \<and> lg_size s' = lg_size s \<and> lg_dev s' = lg_dev s \<and> disksize s' = disksize s)"
proof -
  have d: "lg_dev s = 1" "lg_start s < disksize s" "header_n (disk s (lg_start s)) < NBUF"
    "0 \<le> sint (get32 (disk s (lg_start s)) 0)"
    using assms(3) by (auto simp: log_disk_ok_def Let_def)
  have "ok (bread 1 (lg_start s) s) (\<lambda>(i, s1). got {} s i (lg_start s) s1)"
    using assms(1,2) d(2) by (intro bread_room) (auto simp: NBUF_def)
  then obtain b s1 where r: "bread 1 (lg_start s) s = Some (b, s1)" "got {} s b (lg_start s) s1"
    by (auto simp: ok_iff)
  note g = gotD [OF r(2)]
  have clean: "blk s (lg_start s) = disk s (lg_start s)"
    using assms(2) by (intro blk_clean [OF assms(1)]) auto
  let ?d = "data (bufs s1 b)"
  have d': "?d = disk s (lg_start s)"
    using g(6) clean by simp
  let ?n = "sint (get32 ?d 0)"
  let ?s2 = "s1\<lparr>lh_n := ?n,
    lh_block := (\<lambda>i. if i < nat ?n then unat (get32 ?d (4 + 4 * i)) else lh_block s1 i)\<rparr>"
  have c: "cache_ok {b} ?s2" "blk ?s2 = blk s" "dirty_blocks ?s2 = {}"
    using cache_cong(1-3) [of ?s2 s1] cache_cong(4) [of ?s2 s1 "{b}"] g(3,7,10) assms(2) by simp_all
  have "ok (brelse b ?s2) (\<lambda>s'. cache_ok {} s' \<and> blk s' = blk ?s2 \<and> dirty_blocks s' = dirty_blocks ?s2 \<and>
      disk s' = disk ?s2 \<and> writes s' = writes ?s2 \<and> same_rest ?s2 s')"
    using brelse_held [of b "{}" ?s2] c(1) g(5,6,11) clean by (auto elim!: ok_mono)
  then obtain s' where rel: "brelse b ?s2 = Some s'" "cache_ok {} s'" "blk s' = blk ?s2"
    "dirty_blocks s' = dirty_blocks ?s2" "disk s' = disk ?s2" "writes s' = writes ?s2" "same_rest ?s2 s'"
    by (auto simp: ok_iff)
  have "read_head s = Some s'"
    using r(1) d(1,3) [folded d'] rel(1) by (simp add: read_head_def header_n_def NBUF_def LOGSIZE_def Let_def)
  then show ?thesis
    using rel(2-6) c g(11,12) d(4) same_rest_log [OF g(13)] same_rest_log [OF rel(7)]
    by (simp add: header_n_def header_block_def d')
qed

lemma recover_run:
  assumes "cache_ok {} s" "dirty_blocks s = {}" "log_disk_ok s"
  shows "ok (recover_from_log s) (\<lambda>s'. cache_ok {} s' \<and> dirty_blocks s' = {} \<and> lh_n s' = 0 \<and>
    header_n (disk s' (lg_start s)) = 0 \<and>
    (\<forall>b. b \<noteq> lg_start s \<longrightarrow> disk s' b = recovered (lg_start s) (disk s) b))"
proof -
  let ?h = "disk s (lg_start s)"
  obtain s1 where r1: "read_head s = Some s1" "cache_ok {} s1" "dirty_blocks s1 = {}" "blk s1 = blk s"
    "disk s1 = disk s" "lh_n s1 = int (header_n ?h)" "\<forall>i < header_n ?h. lh_block s1 i = header_block ?h i"
    "lg_start s1 = lg_start s" "lg_size s1 = lg_size s" "lg_dev s1 = lg_dev s" "disksize s1 = disksize s"
    using read_head_ok [OF assms] by (auto simp: ok_iff)
  have tx: "tx_blocks s1 = map (header_block ?h) [0..<header_n ?h]"
    using r1(6,7) by (simp add: tx_blocks_def)
  have ok1: "header_ok s1" "distinct (tx_blocks s1)"
    using assms(3) r1 tx by (auto simp: log_disk_ok_def header_ok_def log_area_def Let_def)
  then obtain s2 where r2: "install_trans s1 = Some s2" "dirty_blocks s2 = {}"
    "moved s1 (map (\<lambda>u. (lh_block s1 u, blk s1 (lg_start s1 + u + 1))) [0..<nat (lh_n s1)]) s2"
    using install_trans_ok [OF r1(2)] r1(3) by (auto simp: ok_iff)
  note m2 = moved_log [OF r2(3)]
  have "map (\<lambda>u. (lh_block s1 u, blk s1 (lg_start s1 + u + 1))) [0..<nat (lh_n s1)] =
      map (\<lambda>u. (header_block ?h u, disk s (lg_start s + u + 1))) [0..<header_n ?h]"
    using r1(3,4,6,7,8) blk_clean [OF assms(1)] assms(2) by simp
  then have disk2: "disk s2 = recovered (lg_start s) (disk s)"
    using r2(3) r1(5) unfolding moved_def recovered_def by simp
  have "header_ok (s2\<lparr>lh_n := 0\<rparr>)" "cache_ok {} (s2\<lparr>lh_n := 0\<rparr>)"
    using m2 ok1(1) by (auto simp: header_ok_def log_area_def NBUF_def)
  then obtain h s3 where r3: "header_n h = 0" "write_head (s2\<lparr>lh_n := 0\<rparr>) = Some s3" "dirty_blocks s3 = {}"
    "moved (s2\<lparr>lh_n := 0\<rparr>) [(lg_start s, h)] s3"
    using write_head_ok [of "s2\<lparr>lh_n := 0\<rparr>"] r2(2) m2(1) r1(8) by (auto simp: ok_iff)
  have "recover_from_log s = Some s3"
    using r1(1) r2(1) r3(2) by (simp add: recover_from_log_def)
  with r3 disk2 show ?thesis
    using moved_log(3) [OF r3(4)] by (simp add: moved_def)
qed

section \<open>Sample states\<close>

text \<open>A booted kernel with a log of thirty blocks behind the super block, and one pending transaction.\<close>

definition boot_log :: "'a \<Rightarrow> (nat \<Rightarrow> block) \<Rightarrow> 'a lstate_scheme" where
  "boot_log x d = binit \<lparr>mypid = 1, bufs = (\<lambda>_. zero_buf), lru = [], disk = d, disksize = 1000, writes = [],
     lg_start = 2, lg_size = 30, outstanding = 0, committing = False, lg_dev = 1, lh_n = 0, lh_block = (\<lambda>_. 0), \<dots> = x\<rparr>"

definition pending_log :: lstate where
  "pending_log = (let s = boot_log () (\<lambda>_. zero_block) in
     s\<lparr>bufs := (bufs s)(0 := zero_buf\<lparr>B_VALID := True, B_DIRTY := True, dev := 1, blockno := 40, data := (\<lambda>_. 7)\<rparr>),
       lh_n := 1, lh_block := (\<lambda>_. 40)\<rparr>)"

lemma boot_log_sel [simp]:
  "lg_start (boot_log x d) = 2" "lg_size (boot_log x d) = 30" "lg_dev (boot_log x d) = 1" "disksize (boot_log x d) = 1000"
  "disk (boot_log x d) = d" "writes (boot_log x d) = []"
  by (simp_all add: boot_log_def binit_eq)

lemma boot_log_ok: "cache_ok {} (boot_log x d)" "dirty_blocks (boot_log x d) = {}"
  by (simp_all add: boot_log_def binit_cache_ok)

lemma pending_log_ok: "tx_ok pending_log" "header_n (disk pending_log (lg_start pending_log)) = 0"
  "blk pending_log 40 = (\<lambda>_. 7)" "disk pending_log 40 = zero_block"
proof -
  have b: "bufs pending_log i = (if i = 0 then zero_buf\<lparr>B_VALID := True, B_DIRTY := True, dev := 1, blockno := 40,
      data := (\<lambda>_. 7)\<rparr> else zero_buf)" for i
    by (simp add: pending_log_def boot_log_def binit_eq Let_def zero_buf_def)
  have p: "lru pending_log = rev [0..<NBUF]" "disksize pending_log = 1000" "disk pending_log = (\<lambda>_. zero_block)"
    "lh_n pending_log = 1" "lh_block pending_log = (\<lambda>_. 40)" "lg_start pending_log = 2" "lg_size pending_log = 30"
    "lg_dev pending_log = 1"
    by (simp_all add: pending_log_def boot_log_def binit_eq Let_def)
  have ok: "cache_ok {} pending_log"
    by (rule cache_okI) (auto simp: b p buf_ok_def zero_buf_def initsleeplock_def split: if_splits)
  moreover have "dirty_blocks pending_log = {40}"
    by (auto simp: dirty_blocks_def b zero_buf_def NBUF_def split: if_splits)
  ultimately show "tx_ok pending_log"
    by (simp add: tx_ok_def header_ok_def tx_blocks_def p log_area_def NBUF_def)
  show "header_n (disk pending_log (lg_start pending_log)) = 0" "disk pending_log 40 = zero_block"
    by (simp_all add: p header_n_def get32_def zero_block_def)
  show "blk pending_log 40 = (\<lambda>_. 7)"
    using blk_cached [OF ok, of 0] by (simp add: b NBUF_def)
qed

section \<open>Properties\<close>

text \<open>
  C1: crash safety.  Committing a transaction terminates, installs every logged block at its home
  location, and writes the disk in an order that is safe at every moment: whatever prefix of the disk
  writes has happened when the machine stops, recovery yields a disk that outside the log area is
  either the one before the transaction or the one after it.
\<close>

theorem commit_crash_safe:
  assumes "tx_ok s" "0 < lh_n s" "header_n (disk s (lg_start s)) = 0"
  shows "\<exists>s' ws. commit s = Some s' \<and> writes s' = writes s @ ws \<and>
    agree_outside (log_area s) (disk s') (blk s) \<and> dirty_blocks s' = {} \<and> lh_n s' = 0 \<and>
    (\<forall>k. agree_outside (log_area s) (recovered (lg_start s) (apply_writes (take k ws) (disk s))) (disk s) \<or>
         agree_outside (log_area s) (recovered (lg_start s) (apply_writes (take k ws) (disk s))) (blk s))"
proof -
  obtain h h' s' where hd: "header_n h = nat (lh_n s)" "\<forall>i < nat (lh_n s). header_block h i = lh_block s i"
    "header_n h' = 0"
    and r: "commit s = Some s'" "dirty_blocks s' = {}" "lh_n s' = 0" "cache_ok {} s'"
      "disk s' = apply_writes (commit_writes s h h') (disk s)" "writes s' = writes s @ commit_writes s h h'"
    using commit_run [OF assms(1,2)] by (auto simp: ok_iff)
  show ?thesis
    using r commit_prefix [OF assms(1) hd assms(3)] commit_final [OF assms(1)]
    by (intro exI [of _ s'] exI [of _ "commit_writes s h h'"]) simp
qed

theorem commit_crash_safe_witness:
  "\<exists>s' ws. commit pending_log = Some s' \<and> writes s' = ws \<and> disk s' 40 = (\<lambda>_. 7) \<and>
    (\<forall>k. recovered 2 (apply_writes (take k ws) (\<lambda>_. zero_block)) 40 \<in> {zero_block, \<lambda>_. 7})"
proof -
  have p: "lh_n pending_log = 1" "lg_start pending_log = 2" "lg_size pending_log = 30"
    "disk pending_log = (\<lambda>_. zero_block)" "writes pending_log = []"
    by (simp_all add: pending_log_def boot_log_def binit_eq Let_def)
  then have "40 \<notin> log_area pending_log"
    by (simp add: log_area_def)
  then show ?thesis
    using commit_crash_safe [OF pending_log_ok(1) _ pending_log_ok(2)] pending_log_ok(3)
    by (simp add: p agree_outside_def) metis
qed

text \<open>
  C16: recovery.  On a freshly booted cache and a followable log header \<^verbatim>\<open>recover_from_log\<close> returns, the
  disk holds what the specification \<open>recovered\<close> says (every block named by the header replaced by its
  logged copy), the header is empty, and running recovery a second time changes nothing but the header.
\<close>

theorem recover_from_log_correct:
  assumes "cache_ok {} s" "dirty_blocks s = {}" "log_disk_ok s"
  shows "\<exists>s'. recover_from_log s = Some s' \<and> dirty_blocks s' = {} \<and> cache_ok {} s' \<and>
    header_n (disk s' (lg_start s)) = 0 \<and> recovered (lg_start s) (disk s') = disk s' \<and>
    (\<forall>b. b \<noteq> lg_start s \<longrightarrow> disk s' b = recovered (lg_start s) (disk s) b)"
  using recover_run [OF assms] recovered_empty by (auto simp: ok_iff)

theorem recover_from_log_correct_witness:
  "\<exists>s'. recover_from_log (boot_log () ((\<lambda>_ _. 7)(2 := put32 (put32 zero_block 0 1) 4 40, 3 := (\<lambda>_. 9)))) = Some s' \<and>
     disk s' 40 = (\<lambda>_. 9) \<and> disk s' 41 = (\<lambda>_. 7)"
proof -
  define h where "h = put32 (put32 zero_block 0 1) 4 40"
  let ?d = "(\<lambda>_ _. 7)(2 := h, 3 := (\<lambda>_. 9)) :: nat \<Rightarrow> block"
  have h: "header_n h = 1" "header_block h 0 = 40" "sint (get32 h 0) = 1"
    by (simp_all add: h_def header_n_def header_block_def)
  have "log_disk_ok (boot_log () ?d)"
    by (simp add: log_disk_ok_def Let_def h log_area_def NBUF_def)
  from recover_from_log_correct [OF boot_log_ok this] obtain s' where
    "recover_from_log (boot_log () ?d) = Some s'" "\<forall>b. b \<noteq> 2 \<longrightarrow> disk s' b = recovered 2 ?d b"
    by auto
  moreover have "recovered 2 ?d 40 = (\<lambda>_. 9)" "recovered 2 ?d 41 = (\<lambda>_. 7)"
    by (simp_all add: recovered_def h)
  ultimately show ?thesis
    by (auto simp: h_def)
qed

end
