(* ===== verification/Tx.thy ===== *)
theory Tx
  imports Log
begin

text \<open>
  What the log promises the file system between \<^verbatim>\<open>begin_op\<close> and \<^verbatim>\<open>end_op\<close>: blocks are read through the
  cache, and a block that is changed in its buffer, handed to \<^verbatim>\<open>log_write\<close> and released becomes part of the
  transaction.  \<open>in_tx H s\<close> is the state of a running transaction whose process holds the buffers \<open>H\<close>.
\<close>

definition in_tx :: "nat set \<Rightarrow> 'a lstate_scheme \<Rightarrow> bool" where
  "in_tx H s \<longleftrightarrow> cache_ok H s \<and> header_ok s \<and> distinct (tx_blocks s) \<and> dirty_blocks s = set (tx_blocks s) \<and>
     0 < outstanding s"

text \<open>The log and the cache have room for \<open>k\<close> more blocks.\<close>

definition tx_room :: "nat \<Rightarrow> 'a lstate_scheme \<Rightarrow> bool" where
  "tx_room k s \<longleftrightarrow> lh_n s + int k < int (lg_size s) \<and> lh_n s + int k < int NBUF"

definition same_tx :: "'a lstate_scheme \<Rightarrow> 'a lstate_scheme \<Rightarrow> bool" where
  "same_tx s s' \<longleftrightarrow> mypid s' = mypid s \<and> disksize s' = disksize s \<and> lg_start s' = lg_start s \<and> lg_size s' = lg_size s \<and>
     outstanding s' = outstanding s \<and> committing s' = committing s \<and> lg_dev s' = lg_dev s \<and>
     lstate.more s' = lstate.more s"

lemma same_tx_refl [simp]: "same_tx s s"
  by (simp add: same_tx_def)

lemma same_tx_trans: "same_tx s t \<Longrightarrow> same_tx t u \<Longrightarrow> same_tx s u"
  by (simp add: same_tx_def)

lemma same_rest_tx: "same_rest s s' \<Longrightarrow> same_tx s s'"
  using same_rest_log [of s s'] by (auto simp: same_tx_def)

lemma same_tx_area: "same_tx s s' \<Longrightarrow> log_area s' = log_area s"
  by (simp add: same_tx_def log_area_def)

lemma in_tx_tx_ok: "in_tx {} s \<Longrightarrow> tx_ok s"
  by (simp add: in_tx_def tx_ok_def)

lemma in_tx_cong:
  assumes "same_rest s s'" "cache_ok H' s'" "dirty_blocks s' = dirty_blocks s" "in_tx H s"
  shows "in_tx H' s'"
  using assms same_rest_log [OF assms(1)] by (simp add: in_tx_def header_ok_def log_area_def tx_blocks_def)

lemma card_dirty: "in_tx H s \<Longrightarrow> card (dirty_blocks s) \<le> nat (lh_n s)"
  using card_length [of "tx_blocks s"] by (simp add: in_tx_def tx_blocks_def)

text \<open>The blocks under the held buffers.\<close>

definition held_blocks :: "nat set \<Rightarrow> 'a lstate_scheme \<Rightarrow> nat set" where
  "held_blocks H s = (\<lambda>i. blockno (bufs s i)) ` H"

lemma bread_tx:
  assumes "in_tx H s" "n < disksize s" "n \<notin> held_blocks H s" "int (card H) + lh_n s < int NBUF"
  shows "ok (bread 1 n s) (\<lambda>(p, s'). got H s p n s' \<and> in_tx (insert p H) s')"
proof -
  have "ok (bread 1 n s) (\<lambda>(p, s'). got H s p n s')"
    using assms card_dirty [OF assms(1)]
    by (intro bread_room) (auto simp: in_tx_def header_ok_def held_blocks_def)
  then show ?thesis
    by (rule ok_mono) (auto dest: gotD(3,10,13) intro: in_tx_cong [OF _ _ _ assms(1)])
qed

lemma brelse_tx:
  assumes "in_tx (insert p H) s" "p \<notin> H"
    and "B_DIRTY (bufs s p) \<or> data (bufs s p) = disk s (blockno (bufs s p))"
  shows "ok (brelse p s) (\<lambda>s'. in_tx H s' \<and> blk s' = blk s \<and> (\<forall>j \<in> H. bufs s' j = bufs s j) \<and>
    disk s' = disk s \<and> same_rest s s')"
proof -
  have "cache_ok (insert p H) s"
    using assms(1) by (simp add: in_tx_def)
  from brelse_held [OF this assms(2,3)] show ?thesis
    by (rule ok_mono) (use assms(2) in_tx_cong [OF _ _ _ assms(1)] in \<open>auto, metis\<close>)
qed

text \<open>A held buffer whose block was not touched since it was read can be released.\<close>

lemma got_saved:
  assumes "got H s p n s'" "in_tx H s" "n \<notin> held_blocks H s"
  shows "B_DIRTY (bufs s' p) \<or> data (bufs s' p) = disk s' (blockno (bufs s' p))"
proof (cases "n \<in> dirty_blocks s")
  case False
  then have "blk s n = disk s n"
    using assms(2,3) by (intro blk_clean [of H]) (auto simp: in_tx_def held_blocks_def)
  then show ?thesis
    using gotD [OF assms(1)] by simp
qed (use gotD(14) [OF assms(1)] in simp)

lemma brelse_got:
  assumes "got H s p n s'" "in_tx H s" "n \<notin> held_blocks H s"
  shows "ok (brelse p s') (\<lambda>s''. in_tx H s'' \<and> blk s'' = blk s \<and> (\<forall>j \<in> H. bufs s'' j = bufs s j) \<and>
    disk s'' = disk s \<and> same_rest s s'')"
proof -
  note g = gotD [OF assms(1)]
  have "in_tx (insert p H) s'"
    using in_tx_cong [OF g(13,3,10) assms(2)] .
  from brelse_tx [OF this g(2) got_saved [OF assms]] show ?thesis
    by (rule ok_mono) (use g in \<open>auto intro: same_rest_trans\<close>)
qed

section \<open>Logging a block\<close>

lemma tx_blocks_grow:
  assumes "0 \<le> lh_n s"
  shows "tx_blocks (s\<lparr>lh_block := (lh_block s)(nat (lh_n s) := n), lh_n := lh_n s + 1\<rparr>) = tx_blocks s @ [n]"
proof -
  have "nat (lh_n s + 1) = Suc (nat (lh_n s))"
    using assms by simp
  then show ?thesis
    by (simp add: tx_blocks_def)
qed

text \<open>The header after \<^verbatim>\<open>log_write\<close>: the block is absorbed, or appended.\<close>

lemma log_write_eq:
  assumes "0 \<le> lh_n s" "tx_room 1 s" "0 < outstanding s"
  shows "log_write p s = Some (set_buf p ((bufs s p)\<lparr>B_DIRTY := True\<rparr>)
    (if blockno (bufs s p) \<in> set (tx_blocks s) then s
     else s\<lparr>lh_block := (lh_block s)(nat (lh_n s) := blockno (bufs s p)), lh_n := lh_n s + 1\<rparr>))"
proof -
  let ?n = "blockno (bufs s p)"
  have nopanic: "\<not> (lh_n s \<ge> int LOGSIZE \<or> lh_n s \<ge> int (lg_size s) - 1)" "\<not> outstanding s < 1"
    using assms by (auto simp: tx_room_def LOGSIZE_def NBUF_def)
  show ?thesis
  proof (cases "find (\<lambda>i. lh_block s i = ?n) [0..<nat (lh_n s)]")
    case None
    then have "?n \<notin> set (tx_blocks s)"
      by (auto simp: find_None_iff tx_blocks_def)
    with None nopanic assms(1) show ?thesis
      by (simp add: log_write_def Let_def)
  next
    case (Some i)
    then have i: "i < nat (lh_n s)" "lh_block s i = ?n"
      by (auto simp: find_Some_iff)
    then have "?n \<in> set (tx_blocks s)"
      by (force simp: tx_blocks_def)
    moreover have "(lh_block s)(i := ?n) = lh_block s"
      using i(2) by (simp add: fun_upd_idem)
    ultimately show ?thesis
      using Some nopanic i(1) by (simp add: log_write_def Let_def)
  qed
qed

text \<open>Marking a held buffer dirty.\<close>

lemma dirty_held:
  assumes "cache_ok H s" "p \<in> H"
  shows "cache_ok H (set_buf p ((bufs s p)\<lparr>B_DIRTY := True\<rparr>) s)" (is "cache_ok H ?s")
    and "blk (set_buf p ((bufs s p)\<lparr>B_DIRTY := True\<rparr>) s) = blk s"
    and "dirty_blocks (set_buf p ((bufs s p)\<lparr>B_DIRTY := True\<rparr>) s) = insert (blockno (bufs s p)) (dirty_blocks s)"
proof -
  note p = held_buf [OF assms]
  show "cache_ok H ?s"
  proof (rule cache_okI)
    fix j
    assume "j < NBUF"
    then show "buf_ok H ?s j"
      using cache_okD(4) [OF assms(1), of j] assms(2) by (cases "j = p") (auto simp: buf_ok_def Let_def)
  next
    fix j k
    assume "j < NBUF" "k < NBUF" "B_VALID (bufs ?s j)" "B_VALID (bufs ?s k)"
      "blockno (bufs ?s j) = blockno (bufs ?s k)"
    then show "j = k"
      using cache_okD(5) [OF assms(1), of j k] by (auto split: if_splits)
  qed (use cache_okD(1-3) [OF assms(1)] in auto)
  show "blk ?s = blk s"
    by (rule blk_cong) auto
  show "dirty_blocks ?s = insert (blockno (bufs s p)) (dirty_blocks s)"
    unfolding dirty_blocks_def using p(1) by auto
qed

lemma log_write_tx:
  assumes "in_tx H s" "p \<in> H" "tx_room 1 s" "blockno (bufs s p) \<notin> log_area s"
  shows "ok (log_write p s) (\<lambda>s'. in_tx H s' \<and> blk s' = blk s \<and> bufs s' = (bufs s)(p := (bufs s p)\<lparr>B_DIRTY := True\<rparr>) \<and>
    set (tx_blocks s') = insert (blockno (bufs s p)) (set (tx_blocks s)) \<and> lh_n s' \<le> lh_n s + 1 \<and> same_tx s s')"
proof -
  let ?n = "blockno (bufs s p)"
  let ?t = "if ?n \<in> set (tx_blocks s) then s
     else s\<lparr>lh_block := (lh_block s)(nat (lh_n s) := ?n), lh_n := lh_n s + 1\<rparr>"
  let ?s = "set_buf p ((bufs ?t p)\<lparr>B_DIRTY := True\<rparr>) ?t"
  have tx: "cache_ok H s" "header_ok s" "distinct (tx_blocks s)" "dirty_blocks s = set (tx_blocks s)" "0 < outstanding s"
    using assms(1) by (auto simp: in_tx_def)
  have n: "0 \<le> lh_n s" "?n < disksize s"
    using tx(2) held_buf [OF tx(1) assms(2)] by (auto simp: header_ok_def)
  have t: "bufs ?t = bufs s" "disk ?t = disk s" "cache_ok H ?t" "blk ?t = blk s" "dirty_blocks ?t = dirty_blocks s"
    using cache_cong [of ?t s] tx(1) by auto
  have blocks: "tx_blocks ?t = (if ?n \<in> set (tx_blocks s) then tx_blocks s else tx_blocks s @ [?n])"
    using tx_blocks_grow [OF n(1)] by auto
  have hd: "header_ok ?t"
    using tx(2) assms(3,4) n by (auto simp: header_ok_def tx_room_def log_area_def nat_add_distrib less_Suc_eq)
  note d = dirty_held [OF t(3) assms(2)]
  have "log_write p s = Some ?s"
    using log_write_eq [OF n(1) assms(3) tx(5)] t(1) by simp
  moreover have "tx_blocks ?s = tx_blocks ?t" "header_ok ?s = header_ok ?t" "outstanding ?s = outstanding s"
    by (simp_all add: tx_blocks_def header_ok_def log_area_def set_buf_def)
  moreover have "same_tx s ?s" "lh_n ?s \<le> lh_n s + 1" "bufs ?s = (bufs s)(p := (bufs s p)\<lparr>B_DIRTY := True\<rparr>)"
    by (simp_all add: same_tx_def set_buf_def)
  ultimately show ?thesis
    using d t hd blocks tx by (auto simp: in_tx_def)
qed

section \<open>The two access patterns\<close>

text \<open>
  \<open>wrote H s ws s'\<close>: the transaction goes on, with the blocks \<open>ws\<close> written; the caller's own buffers \<open>H\<close> are as
  they were.
\<close>

definition wrote :: "nat set \<Rightarrow> 'a lstate_scheme \<Rightarrow> (nat \<times> block) list \<Rightarrow> 'a lstate_scheme \<Rightarrow> bool" where
  "wrote H s ws s' \<longleftrightarrow> in_tx H s' \<and> blk s' = apply_writes ws (blk s) \<and> (\<forall>j \<in> H. bufs s' j = bufs s j) \<and>
     lh_n s' \<le> lh_n s + int (length ws) \<and> same_tx s s'"

lemma wroteD:
  assumes "wrote H s ws s'"
  shows "in_tx H s'" "blk s' = apply_writes ws (blk s)" "\<And>j. j \<in> H \<Longrightarrow> bufs s' j = bufs s j"
    "lh_n s' \<le> lh_n s + int (length ws)" "same_tx s s'" "held_blocks H s' = held_blocks H s"
    "log_area s' = log_area s" "disksize s' = disksize s" "lg_size s' = lg_size s" "lstate.more s' = lstate.more s"
  using assms by (auto simp: wrote_def held_blocks_def same_tx_area) (auto simp: same_tx_def)

lemma wrote_trans: "wrote H s ws s' \<Longrightarrow> wrote H s' vs s'' \<Longrightarrow> wrote H s (ws @ vs) s''"
  by (auto simp: wrote_def intro: same_tx_trans)

lemma wrote_refl [simp]: "in_tx H s \<Longrightarrow> wrote H s [] s"
  by (simp add: wrote_def)

lemma tx_room_mono: "tx_room k s \<Longrightarrow> lh_n s' + int j \<le> lh_n s + int k \<Longrightarrow> lg_size s' = lg_size s \<Longrightarrow> tx_room j s'"
  by (simp add: tx_room_def)

lemma wrote_room: "wrote H s ws s' \<Longrightarrow> tx_room (length ws + k) s \<Longrightarrow> tx_room k s'"
  using wroteD(4,9) [of H s ws s'] by (simp add: tx_room_def)

text \<open>Read a block, compute with it and release it.\<close>

lemma read_block:
  assumes "in_tx H s" "n < disksize s" "n \<notin> held_blocks H s" "int (card H) + lh_n s < int NBUF"
    and "\<And>p s1. got H s p n s1 \<Longrightarrow> in_tx (insert p H) s1 \<Longrightarrow> data (bufs s1 p) = blk s n \<Longrightarrow>
       ok (brelse p s1) (\<lambda>s2. wrote H s [] s2 \<and> same_rest s s2) \<Longrightarrow> ok (f (p, s1)) Q"
  shows "ok (Option.bind (bread 1 n s) f) Q"
proof (rule ok_bindI [OF bread_tx [OF assms(1-4)]], clarify)
  fix p s1
  assume g: "got H s p n s1" "in_tx (insert p H) s1"
  have "ok (brelse p s1) (\<lambda>s2. wrote H s [] s2 \<and> same_rest s s2)"
    using brelse_got [OF g(1) assms(1,3)]
    by (rule ok_mono) (auto simp: wrote_def same_rest_tx same_rest_log)
  with g gotD(6) [OF g(1)] show "ok (f (p, s1)) Q"
    by (intro assms(5))
qed

text \<open>Change the block of a held buffer, log it and release it.\<close>

lemma write_release_held:
  assumes "in_tx (insert p H) s" "p \<notin> H" "tx_room 1 s" "blockno (bufs s p) \<notin> log_area s"
  shows "ok (do { s \<leftarrow> log_write p (set_data p d s); brelse p s }) (\<lambda>s'. in_tx H s' \<and>
    blk s' = (blk s)(blockno (bufs s p) := d) \<and> (\<forall>j \<in> H. bufs s' j = bufs s j) \<and> lh_n s' \<le> lh_n s + 1 \<and> same_tx s s')"
proof -
  let ?s2 = "set_data p d s"
  have r1: "same_rest s ?s2"
    by simp
  have c: "cache_ok (insert p H) s"
    using assms(1) by (simp add: in_tx_def)
  have c2: "cache_ok (insert p H) ?s2" "blk ?s2 = (blk s)(blockno (bufs s p) := d)"
    using set_data_held [OF c, of p] by auto
  have in2: "in_tx (insert p H) ?s2"
    using in_tx_cong [OF r1 c2(1) _ assms(1)] by simp
  have room: "tx_room 1 ?s2" "blockno (bufs ?s2 p) \<notin> log_area ?s2"
    using assms(3,4) same_rest_log [OF r1] by (simp_all add: tx_room_def log_area_def)
  show ?thesis
  proof (rule ok_bindI [OF log_write_tx [OF in2 insertI1 room]], elim conjE)
    fix s3
    assume l: "in_tx (insert p H) s3" "blk s3 = blk ?s2" "bufs s3 = (bufs ?s2)(p := (bufs ?s2 p)\<lparr>B_DIRTY := True\<rparr>)"
      "lh_n s3 \<le> lh_n ?s2 + 1" "same_tx ?s2 s3"
    have n: "lh_n ?s2 = lh_n s" "same_tx s s3"
      using same_rest_log [OF r1] same_tx_trans [OF same_rest_tx [OF r1] l(5)] by auto
    have "ok (brelse p s3) (\<lambda>s'. in_tx H s' \<and> blk s' = blk s3 \<and> (\<forall>j \<in> H. bufs s' j = bufs s3 j) \<and>
        disk s' = disk s3 \<and> same_rest s3 s')"
      using l(3) by (intro brelse_tx [OF l(1) assms(2)]) simp
    then show "ok (brelse p s3) (\<lambda>s'. in_tx H s' \<and> blk s' = (blk s)(blockno (bufs s p) := d) \<and>
        (\<forall>j \<in> H. bufs s' j = bufs s j) \<and> lh_n s' \<le> lh_n s + 1 \<and> same_tx s s')"
    proof (rule ok_mono, elim conjE, intro conjI ballI)
      fix s'
      assume b: "in_tx H s'" "blk s' = blk s3" "\<forall>j \<in> H. bufs s' j = bufs s3 j" "same_rest s3 s'"
      show "bufs s' j = bufs s j" if "j \<in> H" for j
        using b(3) that l(3) assms(2) by auto
      show "same_tx s s'" "lh_n s' \<le> lh_n s + 1"
        using same_tx_trans [OF n(2) same_rest_tx [OF b(4)]] same_rest_log [OF b(4)] l(4) n(1) by auto
      show "blk s' = (blk s)(blockno (bufs s p) := d)"
        using b(2) l(2) c2(2) by simp
    qed
  qed
qed

lemma write_release:
  assumes "got H s p n s1" "in_tx H s" "tx_room 1 s" "n \<notin> log_area s"
  shows "ok (do { s \<leftarrow> log_write p (set_data p d s1); brelse p s }) (wrote H s [(n, d)])"
proof -
  note g = gotD [OF assms(1)] same_rest_log [OF gotD(13) [OF assms(1)]]
  have "in_tx (insert p H) s1" "tx_room 1 s1" "blockno (bufs s1 p) \<notin> log_area s1"
    using in_tx_cong [OF g(13,3,10) assms(2)] assms(3,4) g by (simp_all add: tx_room_def log_area_def)
  from write_release_held [OF this(1) g(2) this(2,3)] show ?thesis
    by (rule ok_mono)
      (use g same_tx_trans [OF same_rest_tx [OF g(13)]] in \<open>auto simp: wrote_def\<close>)
qed

end
