(* ===== verification/Blocks.thy ===== *)
theory Blocks
  imports Tx
begin

text \<open>
  \<^verbatim>\<open>src/kernel/fs.c\<close>, first layer: the super block and the allocator of raw disk blocks, over the
  buffer cache and the log.
\<close>

record superblock =
  sb_size :: nat
  sb_nblocks :: nat
  sb_ninodes :: nat
  sb_nlog :: nat
  sb_logstart :: nat
  sb_inodestart :: nat
  sb_bmapstart :: nat

record kstate = lstate +
  sb :: superblock

definition BPB :: nat where "BPB = BSIZE * 8"

definition BBLOCK :: "nat \<Rightarrow> superblock \<Rightarrow> nat" where
  "BBLOCK b r = b div BPB + sb_bmapstart r"

definition superblock_of :: "block \<Rightarrow> superblock" where
  "superblock_of d = \<lparr>sb_size = unat (get32 d 0), sb_nblocks = unat (get32 d 4), sb_ninodes = unat (get32 d 8),
     sb_nlog = unat (get32 d 12), sb_logstart = unat (get32 d 16), sb_inodestart = unat (get32 d 20),
     sb_bmapstart = unat (get32 d 24)\<rparr>"

definition readsb :: "nat \<Rightarrow> 'a bstate_scheme \<Rightarrow> (superblock \<times> 'a bstate_scheme) option" where
  "readsb d s = do {
     (bp, s) \<leftarrow> bread d 1 s;
     let r = superblock_of (data (bufs s bp));
     s \<leftarrow> brelse bp s;
     Some (r, s)
   }"

definition initlog :: "nat \<Rightarrow> 'a lstate_scheme \<Rightarrow> 'a lstate_scheme option" where
  "initlog d s =
     (if 4 + 4 * LOGSIZE \<ge> BSIZE then panic ''initlog: too big logheader''
      else do {
        (r, s) \<leftarrow> readsb d s;
        recover_from_log (s\<lparr>lg_start := sb_logstart r, lg_size := sb_nlog r, lg_dev := d\<rparr>)
      })"

definition bzero :: "nat \<Rightarrow> nat \<Rightarrow> 'a lstate_scheme \<Rightarrow> 'a lstate_scheme option" where
  "bzero d bno s = do {
     (bp, s) \<leftarrow> bread d bno s;
     let s = set_data bp zero_block s;
     s \<leftarrow> log_write bp s;
     brelse bp s
   }"

definition bit_used :: "block \<Rightarrow> nat \<Rightarrow> bool" where
  "bit_used d bi \<longleftrightarrow> d (bi div 8) AND push_bit (bi mod 8) 1 \<noteq> 0"

definition mark_used :: "block \<Rightarrow> nat \<Rightarrow> block" where
  "mark_used d bi = d(bi div 8 := d (bi div 8) OR push_bit (bi mod 8) 1)"

definition mark_free :: "block \<Rightarrow> nat \<Rightarrow> block" where
  "mark_free d bi = d(bi div 8 := d (bi div 8) AND NOT (push_bit (bi mod 8) 1))"

text \<open>The block behind a clear bit is marked in use and zeroed.\<close>

definition balloc_found :: "nat \<Rightarrow> nat \<Rightarrow> nat \<Rightarrow> nat \<Rightarrow> 'a lstate_scheme \<Rightarrow> (nat \<times> 'a lstate_scheme) option" where
  "balloc_found d b bp bi s = do {
     let s = set_data bp (mark_used (data (bufs s bp)) bi) s;
     s \<leftarrow> log_write bp s;
     s \<leftarrow> brelse bp s;
     s \<leftarrow> bzero d (b + bi) s;
     Some (b + bi, s)
   }"

partial_function (option) balloc_from :: "nat \<Rightarrow> nat \<Rightarrow> 'a kstate_scheme \<Rightarrow> (nat \<times> 'a kstate_scheme) option" where
  "balloc_from d b s =
     (if b < sb_size (sb s) then do {
        (bp, s) \<leftarrow> bread d (BBLOCK b (sb s)) s;
        (case find (\<lambda>bi. \<not> bit_used (data (bufs s bp)) bi) [0..<min BPB (sb_size (sb s) - b)] of
           Some bi \<Rightarrow> balloc_found d b bp bi s
         | None \<Rightarrow> do {
             s \<leftarrow> brelse bp s;
             balloc_from d (b + BPB) s
           })
      } else panic ''balloc: out of blocks'')"

definition balloc :: "nat \<Rightarrow> 'a kstate_scheme \<Rightarrow> (nat \<times> 'a kstate_scheme) option" where
  "balloc d s = balloc_from d 0 s"

definition bfree :: "nat \<Rightarrow> nat \<Rightarrow> 'a kstate_scheme \<Rightarrow> 'a kstate_scheme option" where
  "bfree d b s = do {
     (bp, s) \<leftarrow> bread d (BBLOCK b (sb s)) s;
     let bi = b mod BPB;
     if \<not> bit_used (data (bufs s bp)) bi then panic ''freeing free block''
     else do {
       let s = set_data bp (mark_free (data (bufs s bp)) bi) s;
       s \<leftarrow> log_write bp s;
       brelse bp s
     }
   }"

section \<open>Bitmaps\<close>

lemma bit_used_mark [simp]:
  "bit_used (mark_used d i) j \<longleftrightarrow> j = i \<or> bit_used d j"
  "bit_used (mark_free d i) j \<longleftrightarrow> j \<noteq> i \<and> bit_used d j"
proof -
  have b: "bit_used d j \<longleftrightarrow> bit (d (j div 8)) (j mod 8)" for d j
    by (simp add: bit_used_def bit_iff_and_push_bit_not_eq_0)
  have ji: "j = i \<longleftrightarrow> j div 8 = i div 8 \<and> j mod 8 = i mod 8"
    by (metis div_mult_mod_eq)
  show "bit_used (mark_used d i) j \<longleftrightarrow> j = i \<or> bit_used d j"
    unfolding b ji by (auto simp: mark_used_def bit_simps)
  show "bit_used (mark_free d i) j \<longleftrightarrow> j \<noteq> i \<and> bit_used d j"
    unfolding b ji by (auto simp: mark_free_def bit_simps)
qed


section \<open>The allocator\<close>

text \<open>A block is in use when its bit of the free map is set.\<close>

definition used :: "'a kstate_scheme \<Rightarrow> nat \<Rightarrow> bool" where
  "used s b \<longleftrightarrow> bit_used (blk s (BBLOCK b (sb s))) (b mod BPB)"

text \<open>
  The layout the allocator relies on: the free map covers the disk, and the blocks of the log and of the free map
  are never handed out.
\<close>

definition map_ok :: "'a kstate_scheme \<Rightarrow> bool" where
  "map_ok s \<longleftrightarrow> sb_size (sb s) \<le> disksize s \<and>
     (\<forall>b < sb_size (sb s). BBLOCK b (sb s) < disksize s \<and> BBLOCK b (sb s) \<notin> log_area s) \<and>
     (\<forall>b < sb_size (sb s). \<not> used s b \<longrightarrow> b \<notin> log_area s \<and> (\<forall>c < sb_size (sb s). BBLOCK c (sb s) \<noteq> b))"

lemma wrote_sb: "wrote H s ws s' \<Longrightarrow> sb s' = sb s"
  using wroteD(10) [of H s ws s'] by (cases s; cases s') simp

lemma map_okD:
  assumes "map_ok s" "b < sb_size (sb s)"
  shows "b < disksize s" "BBLOCK b (sb s) < disksize s" "BBLOCK b (sb s) \<notin> log_area s"
    "\<not> used s b \<Longrightarrow> b \<notin> log_area s" "\<not> used s b \<Longrightarrow> c < sb_size (sb s) \<Longrightarrow> BBLOCK c (sb s) \<noteq> b"
  using assms by (auto simp: map_ok_def)

lemma bzero_ok:
  assumes "in_tx H s" "n < disksize s" "n \<notin> held_blocks H s" "tx_room (Suc (card H)) s" "n \<notin> log_area s"
  shows "ok (bzero 1 n s) (wrote H s [(n, zero_block)])"
proof -
  have room: "tx_room 1 s" "int (card H) + lh_n s < int NBUF"
    using assms(4) by (auto simp: tx_room_def)
  show ?thesis
    unfolding bzero_def Let_def
    by (rule read_block [OF assms(1-3) room(2)], simp) (rule write_release [OF _ assms(1) room(1) assms(5)])
qed

lemma BPB_pos: "0 < BPB"
  by (simp add: BPB_def BSIZE_def)

lemma BBLOCK_chunk:
  assumes "b = k * BPB" "i < BPB"
  shows "BBLOCK (b + i) r = BBLOCK b r" "(b + i) mod BPB = i"
  using assms by (simp_all add: BBLOCK_def)

text \<open>One chunk of the free map: the first clear bit in it is the first free block from its start on.\<close>

lemma find_free:
  assumes "b = k * BPB" "d = blk s (BBLOCK b (sb s))"
  shows "find (\<lambda>i. \<not> bit_used d i) [0..<min BPB (sb_size (sb s) - b)] = Some i \<longleftrightarrow>
    i < BPB \<and> b + i < sb_size (sb s) \<and> \<not> used s (b + i) \<and> (\<forall>j < i. used s (b + j))"
    and "find (\<lambda>i. \<not> bit_used d i) [0..<min BPB (sb_size (sb s) - b)] = None \<longleftrightarrow>
    (\<forall>i < BPB. b + i < sb_size (sb s) \<longrightarrow> used s (b + i))"
proof -
  have used: "used s (b + i) \<longleftrightarrow> bit_used d i" if "i < BPB" for i
    using BBLOCK_chunk(1) [OF assms(1) that, of "sb s"] BBLOCK_chunk(2) [OF assms(1) that] assms(2) by (simp add: used_def)
  have range: "i < min BPB (sb_size (sb s) - b) \<longleftrightarrow> i < BPB \<and> b + i < sb_size (sb s)" for i
    by (simp add: less_diff_conv add.commute)
  show "find (\<lambda>i. \<not> bit_used d i) [0..<min BPB (sb_size (sb s) - b)] = Some i \<longleftrightarrow>
      i < BPB \<and> b + i < sb_size (sb s) \<and> \<not> used s (b + i) \<and> (\<forall>j < i. used s (b + j))"
    using used by (auto simp only: find_upt_Some range)
  show "find (\<lambda>i. \<not> bit_used d i) [0..<min BPB (sb_size (sb s) - b)] = None \<longleftrightarrow>
      (\<forall>i < BPB. b + i < sb_size (sb s) \<longrightarrow> used s (b + i))"
    using used by (auto simp only: find_upt_None range)
qed

lemma balloc_from_step:
  assumes "in_tx H s" "map_ok s" "b < sb_size (sb s)" "BBLOCK b (sb s) \<notin> held_blocks H s" "tx_room (card H) s"
    and "\<And>p s1. got H s p (BBLOCK b (sb s)) s1 \<Longrightarrow> ok (brelse p s1) (wrote H s []) \<Longrightarrow>
      ok (case find (\<lambda>i. \<not> bit_used (blk s (BBLOCK b (sb s))) i) [0..<min BPB (sb_size (sb s) - b)] of
        Some i \<Rightarrow> balloc_found 1 b p i s1 | None \<Rightarrow> Option.bind (brelse p s1) (balloc_from 1 (b + BPB))) Q"
  shows "ok (balloc_from 1 b s) Q"
proof -
  have "int (card H) + lh_n s < int NBUF" "BBLOCK b (sb s) < disksize s"
    using assms(2,3,5) map_okD by (auto simp: tx_room_def)
  moreover have "ok (case (p, s1) of (bp, s) \<Rightarrow>
      case find (\<lambda>bi. \<not> bit_used (data (bufs s bp)) bi) [0..<min BPB (sb_size (sb s) - b)] of
        None \<Rightarrow> Option.bind (brelse bp s) (balloc_from 1 (b + BPB))
      | Some bi \<Rightarrow> balloc_found 1 b bp bi s) Q"
    if "got H s p (BBLOCK b (sb s)) s1" "data (bufs s1 p) = blk s (BBLOCK b (sb s))"
      "ok (brelse p s1) (\<lambda>s2. wrote H s [] s2 \<and> same_rest s s2)" for p s1
  proof -
    have "sb s1 = sb s"
      using same_rest_log(8) [OF gotD(13) [OF that(1)]] by (cases s; cases s1) simp
    moreover have "ok (brelse p s1) (wrote H s [])"
      using that(3) by (rule ok_mono) simp
    ultimately show ?thesis
      using assms(6) [OF that(1)] that(2) by simp
  qed
  ultimately show ?thesis
    using assms(3) by (subst balloc_from.simps) (simp only: if_True, intro read_block [OF assms(1) _ assms(4)])
qed

lemma balloc_found_ok:
  assumes "got H s p m s1" "in_tx H s" "tx_room (2 + card H) s" "m \<notin> log_area s" "n = b + i" "n < disksize s"
    "n \<notin> held_blocks H s" "n \<notin> log_area s"
  shows "ok (balloc_found 1 b p i s1) (\<lambda>(r, s'). r = n \<and> wrote H s [(m, mark_used (blk s m) i), (n, zero_block)] s')"
proof -
  let ?d = "mark_used (blk s m) i"
  have "tx_room 1 s"
    using assms(3) by (simp add: tx_room_def)
  then have "ok (do { s \<leftarrow> log_write p (set_data p ?d s1); brelse p s }) (wrote H s [(m, ?d)])"
    by (intro write_release [OF assms(1,2) _ assms(4)])
  then have "ok (do { s \<leftarrow> do { s \<leftarrow> log_write p (set_data p ?d s1); brelse p s }; bzero 1 n s })
      (wrote H s ([(m, ?d)] @ [(n, zero_block)]))"
  proof (rule ok_bindI)
    fix s2
    assume w: "wrote H s [(m, ?d)] s2"
    have "ok (bzero 1 n s2) (wrote H s2 [(n, zero_block)])"
      using assms(3,6-8) wroteD(6-8) [OF w] wrote_room [OF w, of "Suc (card H)"]
      by (intro bzero_ok [OF wroteD(1) [OF w]]) auto
    then show "ok (bzero 1 n s2) (wrote H s ([(m, ?d)] @ [(n, zero_block)]))"
      by (rule ok_mono) (rule wrote_trans [OF w])
  qed
  then show ?thesis
    using gotD(6) [OF assms(1)] assms(5) by (simp add: balloc_found_def Let_def ok_bind)
qed

text \<open>The search of \<^verbatim>\<open>balloc\<close> from the chunk that starts at \<open>b\<close>, when \<open>n\<close> is the first free block from there on.\<close>

lemma balloc_from_ok:
  fixes s :: "'a kstate_scheme"
  assumes "in_tx H s" "map_ok s" "tx_room (2 + card H) s"
    and "\<not> used s n" "n < sb_size (sb s)" "b \<le> n" "\<And>j. b \<le> j \<Longrightarrow> j < n \<Longrightarrow> used s j" "b = k * BPB"
    and "n \<notin> held_blocks H s" "\<And>c. c < sb_size (sb s) \<Longrightarrow> BBLOCK c (sb s) \<notin> held_blocks H s"
  shows "ok (balloc_from 1 b s) (\<lambda>(r, s'). r = n \<and>
    wrote H s [(BBLOCK n (sb s), mark_used (blk s (BBLOCK n (sb s))) (n mod BPB)), (n, zero_block)] s')"
  using assms
proof (induction "n - b" arbitrary: b k s rule: less_induct)
  case less
  have b: "b < sb_size (sb s)" "tx_room (card H) s"
    using less.prems(3,5,6) by (auto simp: tx_room_def)
  note m = map_okD [OF less.prems(2) b(1)] map_okD(1,4) [OF less.prems(2,5)]
  show ?case
  proof (rule balloc_from_step [OF less.prems(1,2) b(1) less.prems(10) [OF b(1)] b(2)])
    fix p s1
    assume g: "got H s p (BBLOCK b (sb s)) s1" "ok (brelse p s1) (wrote H s [])"
    show "ok (case find (\<lambda>i. \<not> bit_used (blk s (BBLOCK b (sb s))) i) [0..<min BPB (sb_size (sb s) - b)] of
        Some i \<Rightarrow> balloc_found 1 b p i s1 | None \<Rightarrow> Option.bind (brelse p s1) (balloc_from 1 (b + BPB)))
      (\<lambda>(r, s'). r = n \<and>
         wrote H s [(BBLOCK n (sb s), mark_used (blk s (BBLOCK n (sb s))) (n mod BPB)), (n, zero_block)] s')"
    proof (cases "n - b < BPB")
      case True
      have n: "n = b + (n - b)" "BBLOCK n (sb s) = BBLOCK b (sb s)" "n mod BPB = n - b"
        using less.prems(6) BBLOCK_chunk(1) [OF less.prems(8) True, of "sb s"] BBLOCK_chunk(2) [OF less.prems(8) True] by auto
      have "find (\<lambda>i. \<not> bit_used (blk s (BBLOCK b (sb s))) i) [0..<min BPB (sb_size (sb s) - b)] = Some (n - b)"
        using less.prems(4-7) True by (subst find_free(1) [OF less.prems(8) refl]) auto
      then show ?thesis
        using balloc_found_ok [OF g(1) less.prems(1,3) m(3) n(1) m(6) less.prems(9) m(7)] less.prems(4) n by simp
    next
      case False
      have none: "find (\<lambda>i. \<not> bit_used (blk s (BBLOCK b (sb s))) i) [0..<min BPB (sb_size (sb s) - b)] = None"
        using less.prems(5-7) False by (subst find_free(2) [OF less.prems(8) refl]) auto
      show ?thesis
      proof (simp only: none option.case, rule ok_bindI [OF g(2)])
        fix s2
        assume w: "wrote H s [] s2"
        have same: "blk s2 = blk s" "sb s2 = sb s"
          using wroteD(2) [OF w] wrote_sb [OF w] by auto
        then have used: "used s2 j = used s j" for j
          by (simp add: used_def)
        have "map_ok s2"
          using less.prems(2) used same(2) wroteD(7,8) [OF w] by (simp add: map_ok_def)
        then have "ok (balloc_from 1 (b + BPB) s2) (\<lambda>(r, s'). r = n \<and> wrote H s2 [(BBLOCK n (sb s2),
            mark_used (blk s2 (BBLOCK n (sb s2))) (n mod BPB)), (n, zero_block)] s')"
          using less.prems False used same wroteD(1,6) [OF w] wrote_room [OF w, of "2 + card H"] BPB_pos
          by (intro less.hyps [where k = "Suc k"]) auto
        then show "ok (balloc_from 1 (b + BPB) s2) (\<lambda>(r, s'). r = n \<and>
           wrote H s [(BBLOCK n (sb s), mark_used (blk s (BBLOCK n (sb s))) (n mod BPB)), (n, zero_block)] s')"
          by (rule ok_mono) (use same wrote_trans [OF w] in auto)
      qed
    qed
  qed
qed


text \<open>The free map after one bit of it changed.\<close>

lemma BBLOCK_bit: "BBLOCK c r = BBLOCK n r \<Longrightarrow> c mod BPB = n mod BPB \<Longrightarrow> c = n"
  by (simp add: BBLOCK_def) (metis div_mult_mod_eq)

lemma used_marked:
  assumes "sb s' = sb s" "blk s' (BBLOCK n (sb s)) = mark_used (blk s (BBLOCK n (sb s))) (n mod BPB)"
    and "BBLOCK c (sb s) \<noteq> BBLOCK n (sb s) \<Longrightarrow> blk s' (BBLOCK c (sb s)) = blk s (BBLOCK c (sb s))"
  shows "used s' c \<longleftrightarrow> c = n \<or> used s c"
  using assms BBLOCK_bit [of c "sb s" n]
  by (cases "BBLOCK c (sb s) = BBLOCK n (sb s)") (auto simp: used_def)

lemma used_freed:
  assumes "sb s' = sb s" "blk s' (BBLOCK n (sb s)) = mark_free (blk s (BBLOCK n (sb s))) (n mod BPB)"
    and "BBLOCK c (sb s) \<noteq> BBLOCK n (sb s) \<Longrightarrow> blk s' (BBLOCK c (sb s)) = blk s (BBLOCK c (sb s))"
  shows "used s' c \<longleftrightarrow> c \<noteq> n \<and> used s c"
  using assms BBLOCK_bit [of c "sb s" n]
  by (cases "BBLOCK c (sb s) = BBLOCK n (sb s)") (auto simp: used_def)

lemma balloc_wrote:
  assumes "in_tx H s" "map_ok s" "tx_room (2 + card H) s" "\<not> used s n" "n < sb_size (sb s)" "\<forall>j < n. used s j"
    and "n \<notin> held_blocks H s" "\<forall>c < sb_size (sb s). BBLOCK c (sb s) \<notin> held_blocks H s"
  shows "ok (balloc 1 s) (\<lambda>(r, s'). r = n \<and>
    wrote H s [(BBLOCK n (sb s), mark_used (blk s (BBLOCK n (sb s))) (n mod BPB)), (n, zero_block)] s' \<and>
    map_ok s' \<and> (\<forall>c < sb_size (sb s). used s' c \<longleftrightarrow> c = n \<or> used s c))"
proof -
  let ?ws = "[(BBLOCK n (sb s), mark_used (blk s (BBLOCK n (sb s))) (n mod BPB)), (n, zero_block)]"
  have "ok (balloc_from 1 0 s) (\<lambda>(r, s'). r = n \<and> wrote H s ?ws s')"
    using assms by (intro balloc_from_ok [where k = 0]) auto
  then show ?thesis
    unfolding balloc_def
  proof (rule ok_mono, clarify)
    fix s'
    assume w: "wrote H s ?ws s'"
    have ne: "BBLOCK c (sb s) \<noteq> n" if "c < sb_size (sb s)" for c
      using map_okD(5) [OF assms(2,5,4) that] .
    have used: "used s' c \<longleftrightarrow> c = n \<or> used s c" if "c < sb_size (sb s)" for c
      using wroteD(2) [OF w] wrote_sb [OF w] ne [OF that] ne [OF assms(5)]
      by (intro used_marked) auto
    have "map_ok s'"
      using assms(2) wroteD(7,8) [OF w] wrote_sb [OF w] used by (auto simp: map_ok_def)
    with w used show "n = n \<and> wrote H s ?ws s' \<and> map_ok s' \<and> (\<forall>c < sb_size (sb s). used s' c = (c = n \<or> used s c))"
      by blast
  qed
qed

lemma bfree_wrote:
  assumes "in_tx H s" "map_ok s" "tx_room (Suc (card H)) s" "used s n" "n < sb_size (sb s)"
    and "BBLOCK n (sb s) \<notin> held_blocks H s"
  shows "ok (bfree 1 n s) (\<lambda>s'. wrote H s [(BBLOCK n (sb s), mark_free (blk s (BBLOCK n (sb s))) (n mod BPB))] s' \<and>
    (\<forall>c. used s' c \<longleftrightarrow> c \<noteq> n \<and> used s c))"
proof -
  note m = map_okD [OF assms(2,5)]
  let ?ws = "[(BBLOCK n (sb s), mark_free (blk s (BBLOCK n (sb s))) (n mod BPB))]"
  have room: "tx_room 1 s" "int (card H) + lh_n s < int NBUF"
    using assms(3) by (auto simp: tx_room_def)
  have "ok (bfree 1 n s) (wrote H s ?ws)"
    unfolding bfree_def Let_def
  proof (rule read_block [OF assms(1) m(2) assms(6) room(2)])
    fix p s1
    assume g: "got H s p (BBLOCK n (sb s)) s1" "data (bufs s1 p) = blk s (BBLOCK n (sb s))"
    show "ok (case (p, s1) of (bp, s) \<Rightarrow> if \<not> bit_used (data (bufs s bp)) (n mod BPB) then panic ''freeing free block''
        else Option.bind (log_write bp (set_data bp (mark_free (data (bufs s bp)) (n mod BPB)) s)) (brelse bp))
      (wrote H s ?ws)"
      using write_release [OF g(1) assms(1) room(1) m(3)] g(2) assms(4) by (simp add: used_def)
  qed
  then show ?thesis
  proof (rule ok_mono, intro conjI allI)
    fix s' c
    assume w: "wrote H s ?ws s'"
    show "used s' c \<longleftrightarrow> c \<noteq> n \<and> used s c"
      using wroteD(2) [OF w] wrote_sb [OF w] by (intro used_freed) auto
  qed
qed

text \<open>
  C17: inside a transaction with room for two more blocks, \<^verbatim>\<open>balloc\<close> returns the lowest block whose bit in the
  free map is clear, with its bit set, its contents zeroed, and no other block changed but the map's; freeing it
  again with \<^verbatim>\<open>bfree\<close> gives the free map back.
\<close>

theorem balloc_bfree_correct:
  assumes "in_tx {} s" "map_ok s" "tx_room 4 s" "n < sb_size (sb s)" "\<not> used s n" "\<forall>j < n. used s j"
  shows "ok (balloc 1 s) (\<lambda>(r, s'). r = n \<and> used s' n \<and> blk s' n = zero_block \<and> in_tx {} s' \<and> map_ok s' \<and>
    (\<forall>m. m \<noteq> n \<and> m \<noteq> BBLOCK n (sb s) \<longrightarrow> blk s' m = blk s m) \<and>
    ok (bfree 1 r s') (\<lambda>s''. in_tx {} s'' \<and> (\<forall>c < sb_size (sb s). used s'' c \<longleftrightarrow> used s c)))"
proof -
  have "tx_room (2 + card {}) s"
    using assms(3) by (simp add: tx_room_def)
  then have "ok (balloc 1 s) (\<lambda>(r, s'). r = n \<and>
    wrote {} s [(BBLOCK n (sb s), mark_used (blk s (BBLOCK n (sb s))) (n mod BPB)), (n, zero_block)] s' \<and>
    map_ok s' \<and> (\<forall>c < sb_size (sb s). used s' c \<longleftrightarrow> c = n \<or> used s c))" (is "ok _ (\<lambda>(r, s'). _ \<and> wrote {} s ?ws s' \<and> _)")
    using assms by (intro balloc_wrote) (auto simp: held_blocks_def)
  then show ?thesis
  proof (rule ok_mono, clarify)
    fix s'
    assume w: "wrote {} s ?ws s'" and m: "map_ok s'" and u: "\<forall>c < sb_size (sb s). used s' c = (c = n \<or> used s c)"
    have n: "used s' n" "blk s' n = zero_block" "sb s' = sb s"
      using u assms(4) wroteD(2) [OF w] wrote_sb [OF w] by auto
    have "ok (bfree 1 n s') (\<lambda>s''. wrote {} s' [(BBLOCK n (sb s'), mark_free (blk s' (BBLOCK n (sb s'))) (n mod BPB))] s'' \<and>
        (\<forall>c. used s'' c \<longleftrightarrow> c \<noteq> n \<and> used s' c))"
      using m n assms(3,4) wrote_room [OF w, of 1] wroteD(1) [OF w]
      by (intro bfree_wrote) (auto simp: held_blocks_def tx_room_def)
    then have "ok (bfree 1 n s') (\<lambda>s''. in_tx {} s'' \<and> (\<forall>c < sb_size (sb s). used s'' c \<longleftrightarrow> used s c))"
      by (rule ok_mono) (use u assms(5) in \<open>auto dest: wroteD(1)\<close>)
    moreover have "\<forall>b. b \<noteq> n \<and> b \<noteq> BBLOCK n (sb s) \<longrightarrow> blk s' b = blk s b"
      using wroteD(2) [OF w] by simp
    ultimately show "n = n \<and> used s' n \<and> blk s' n = zero_block \<and> in_tx {} s' \<and> map_ok s' \<and>
        (\<forall>b. b \<noteq> n \<and> b \<noteq> BBLOCK n (sb s) \<longrightarrow> blk s' b = blk s b) \<and>
        ok (bfree 1 n s') (\<lambda>s''. in_tx {} s'' \<and> (\<forall>c < sb_size (sb s). used s'' c = used s c))"
      using wroteD(1) [OF w] m n by blast
  qed
qed


section \<open>A sample file system\<close>

text \<open>
  The layout that \<^verbatim>\<open>mkfs\<close> computes for 1000 blocks and 200 i-nodes: log at 2, i-nodes at 32, free map at 39, data
  from 40 on.  \<open>boot_fs x d\<close> is the kernel with the disk \<open>d\<close> after boot, inside its first transaction.
\<close>

definition sample_sb :: superblock where
  "sample_sb = \<lparr>sb_size = 1000, sb_nblocks = 960, sb_ninodes = 200, sb_nlog = 30, sb_logstart = 2,
     sb_inodestart = 32, sb_bmapstart = 39\<rparr>"

definition meta_map :: block where
  "meta_map = (\<lambda>i. if i < 5 then -1 else 0)"

definition boot_fs :: "'a \<Rightarrow> (nat \<Rightarrow> block) \<Rightarrow> 'a kstate_scheme" where
  "boot_fs x d = (boot_log \<lparr>sb = sample_sb, \<dots> = x\<rparr> d)\<lparr>outstanding := 1\<rparr>"


lemma boot_fs_sel [simp]:
  "sb (boot_fs x d) = sample_sb" "disksize (boot_fs x d) = 1000" "log_area (boot_fs x d) = {2..<32}"
  "lh_n (boot_fs x d) = 0" "lg_size (boot_fs x d) = 30" "disk (boot_fs x d) = d" "kstate.more (boot_fs x d) = x"
  "mypid (boot_fs x d) = 1"
  by (simp_all add: boot_fs_def boot_log_def binit_eq log_area_def)

lemma boot_fs_tx: "in_tx {} (boot_fs x d)" "blk (boot_fs x d) = d" "k < 30 \<Longrightarrow> tx_room k (boot_fs x d)"
proof -
  let ?b = "boot_log \<lparr>sb = sample_sb, \<dots> = x\<rparr> d"
  have c: "cache_ok {} (boot_fs x d)" "dirty_blocks (boot_fs x d) = {}" "blk (boot_fs x d) = blk ?b"
    using cache_cong [of "boot_fs x d" ?b] boot_log_ok [of "\<lparr>sb = sample_sb, \<dots> = x\<rparr>" d] by (simp_all add: boot_fs_def)
  then show "in_tx {} (boot_fs x d)"
    by (simp add: in_tx_def header_ok_def tx_blocks_def NBUF_def)
      (simp add: boot_fs_def boot_log_def binit_eq)
  show "blk (boot_fs x d) = d"
    unfolding c(3) by (simp add: boot_log_def binit_cache_ok)
  show "k < 30 \<Longrightarrow> tx_room k (boot_fs x d)"
    by (simp add: tx_room_def NBUF_def)
qed

lemma sample_BBLOCK [simp]: "b < 1000 \<Longrightarrow> BBLOCK b sample_sb = 39" "b < 1000 \<Longrightarrow> b mod BPB = b"
  "sb_size sample_sb = 1000"
  by (simp_all add: BBLOCK_def sample_sb_def BPB_def BSIZE_def)

lemma bit_used_meta: "bit_used meta_map b \<longleftrightarrow> b < 40"
  by (auto simp: bit_used_def meta_map_def div_less_iff_less_mult simp flip: bit_iff_and_push_bit_not_eq_0)

lemma boot_fs_map:
  assumes "d 39 = meta_map"
  shows "map_ok (boot_fs x d)" "b < 1000 \<Longrightarrow> used (boot_fs x d) b \<longleftrightarrow> b < 40"
  using assms by (auto simp: map_ok_def used_def boot_fs_tx bit_used_meta)

theorem balloc_bfree_correct_witness:
  "ok (balloc 1 (boot_fs () ((\<lambda>_ _. 7)(39 := meta_map)))) (\<lambda>(r, s'). r = 40 \<and> blk s' 40 = zero_block \<and> blk s' 41 = (\<lambda>_. 7) \<and>
     ok (bfree 1 r s') (\<lambda>s''. \<not> used s'' 40 \<and> used s'' 39))"
proof -
  let ?s = "boot_fs () ((\<lambda>_ _. 7)(39 := meta_map))"
  have "map_ok ?s" and u: "\<And>b. b < 1000 \<Longrightarrow> used ?s b \<longleftrightarrow> b < 40"
    by (simp_all add: boot_fs_map)
  then show ?thesis
    using balloc_bfree_correct [OF boot_fs_tx(1) _ boot_fs_tx(3), of "()" "(\<lambda>_ _. 7)(39 := meta_map)" 40]
    by (auto elim!: ok_mono simp: boot_fs_tx)
qed

end
