(* ===== verification/Inode.thy ===== *)
theory Inode
  imports Blocks
begin

text \<open>
  \<^verbatim>\<open>src/kernel/fs.c\<close>, second layer: the i-node cache, the i-nodes on the disk and the contents of files.  A pointer
  into the cache is the index of its slot, the null pointer is \<open>None\<close> where the code tests for it.  \<open>devsw\<close> is the
  kernel's table of device drivers; the file system only calls through it.
\<close>

record inode =
  i_dev :: nat
  inum :: nat
  iref :: int
  ilk :: sleeplock
  ivalid :: bool
  i_uid :: uint
  i_gid :: uint
  i_mode :: uint
  i_type :: ushort
  major :: ushort
  minor :: ushort
  nlink :: ushort
  i_size :: nat
  addrs :: "nat \<Rightarrow> nat"

record fstate = kstate +
  icache :: "nat \<Rightarrow> inode"

record 's devsw =
  dev_read :: "nat \<Rightarrow> (nat \<Rightarrow> nat \<Rightarrow> 's \<Rightarrow> (int \<times> uchar list \<times> 's) option) option"
  dev_write :: "nat \<Rightarrow> (nat \<Rightarrow> uchar list \<Rightarrow> 's \<Rightarrow> (int \<times> 's) option) option"

definition NINODE :: nat where "NINODE = 50"
definition NDIRECT :: nat where "NDIRECT = 9"
definition NINDIRECT :: nat where "NINDIRECT = BSIZE div 4"
definition MAXFILE :: nat where "MAXFILE = NDIRECT + NINDIRECT"
definition IPB :: nat where "IPB = BSIZE div 64"
definition NDEV :: int where "NDEV = 10"
definition T_DIR :: ushort where "T_DIR = 1"
definition T_FILE :: ushort where "T_FILE = 2"
definition T_DEV :: ushort where "T_DEV = 3"

definition IBLOCK :: "nat \<Rightarrow> superblock \<Rightarrow> nat" where
  "IBLOCK i r = i div IPB + sb_inodestart r"

definition set_inode :: "nat \<Rightarrow> inode \<Rightarrow> 'a fstate_scheme \<Rightarrow> 'a fstate_scheme" where
  "set_inode ip v s = s\<lparr>icache := (icache s)(ip := v)\<rparr>"

section \<open>I-nodes on the disk\<close>

fun put_words :: "(nat \<Rightarrow> nat) \<Rightarrow> nat \<Rightarrow> nat \<Rightarrow> block \<Rightarrow> block" where
  "put_words f base 0 d = d"
| "put_words f base (Suc n) d = put32 (put_words f base n d) (base + 4 * n) (of_nat (f n))"

definition dinode_off :: "nat \<Rightarrow> nat" where
  "dinode_off i = 64 * (i mod IPB)"

text \<open>The fields that \<^verbatim>\<open>ilock\<close> copies from the \<^verbatim>\<open>struct dinode\<close> at \<open>off\<close>, and \<^verbatim>\<open>iupdate\<close> into it.\<close>

definition load_dinode :: "block \<Rightarrow> nat \<Rightarrow> inode \<Rightarrow> inode" where
  "load_dinode d off v = v\<lparr>i_type := get16 d off, major := get16 d (off + 2), minor := get16 d (off + 4),
     nlink := get16 d (off + 6), i_size := unat (get32 d (off + 8)), i_uid := get32 d (off + 52),
     i_gid := get32 d (off + 56), i_mode := get32 d (off + 60),
     addrs := (\<lambda>i. if i < NDIRECT + 1 then unat (get32 d (off + 12 + 4 * i)) else addrs v i)\<rparr>"

definition store_dinode :: "inode \<Rightarrow> nat \<Rightarrow> block \<Rightarrow> block" where
  "store_dinode v off d =
     (let d = put16 d off (i_type v);
          d = put16 d (off + 2) (major v);
          d = put16 d (off + 4) (minor v);
          d = put16 d (off + 6) (nlink v);
          d = put32 d (off + 8) (of_nat (i_size v));
          d = put32 d (off + 52) (i_uid v);
          d = put32 d (off + 56) (i_gid v);
          d = put32 d (off + 60) (i_mode v)
      in put_words (addrs v) (off + 12) (NDIRECT + 1) d)"

definition iinit :: "nat \<Rightarrow> 'a fstate_scheme \<Rightarrow> 'a fstate_scheme option" where
  "iinit d s = do {
     let s = fold (\<lambda>i s. set_inode i ((icache s i)\<lparr>ilk := initsleeplock\<rparr>) s) [0..<NINODE] s;
     (r, s) \<leftarrow> readsb d s;
     Some (s\<lparr>sb := r\<rparr>)
   }"

definition iget :: "nat \<Rightarrow> nat \<Rightarrow> 'a fstate_scheme \<Rightarrow> (nat \<times> 'a fstate_scheme) option" where
  "iget d i s =
     (case find (\<lambda>ip. iref (icache s ip) > 0 \<and> i_dev (icache s ip) = d \<and> inum (icache s ip) = i) [0..<NINODE] of
        Some ip \<Rightarrow> Some (ip, set_inode ip ((icache s ip)\<lparr>iref := iref (icache s ip) + 1\<rparr>) s)
      | None \<Rightarrow>
          (case find (\<lambda>ip. iref (icache s ip) = 0) [0..<NINODE] of
             None \<Rightarrow> panic ''iget: no inodes''
           | Some ip \<Rightarrow>
               Some (ip, set_inode ip ((icache s ip)\<lparr>i_dev := d, inum := i, iref := 1, ivalid := False\<rparr>) s)))"

definition zero_range :: "nat \<Rightarrow> nat \<Rightarrow> block \<Rightarrow> block" where
  "zero_range off n d = (\<lambda>i. if off \<le> i \<and> i < off + n then 0 else d i)"

fun ialloc_loop :: "nat \<Rightarrow> ushort \<Rightarrow> nat list \<Rightarrow> 'a fstate_scheme \<Rightarrow> (nat \<times> 'a fstate_scheme) option" where
  "ialloc_loop d t [] s = panic ''ialloc: no inodes''"
| "ialloc_loop d t (i # is) s = do {
     (bp, s) \<leftarrow> bread d (IBLOCK i (sb s)) s;
     if get16 (data (bufs s bp)) (dinode_off i) = 0 then do {
       let s = set_data bp (put16 (zero_range (dinode_off i) 64 (data (bufs s bp))) (dinode_off i) t) s;
       s \<leftarrow> log_write bp s;
       s \<leftarrow> brelse bp s;
       iget d i s
     } else do {
       s \<leftarrow> brelse bp s;
       ialloc_loop d t is s
     }
   }"

definition ialloc :: "nat \<Rightarrow> ushort \<Rightarrow> 'a fstate_scheme \<Rightarrow> (nat \<times> 'a fstate_scheme) option" where
  "ialloc d t s = ialloc_loop d t [1..<sb_ninodes (sb s)] s"

definition iupdate :: "nat \<Rightarrow> 'a fstate_scheme \<Rightarrow> 'a fstate_scheme option" where
  "iupdate ip s = do {
     let v = icache s ip;
     (bp, s) \<leftarrow> bread (i_dev v) (IBLOCK (inum v) (sb s)) s;
     let s = set_data bp (store_dinode v (dinode_off (inum v)) (data (bufs s bp))) s;
     s \<leftarrow> log_write bp s;
     brelse bp s
   }"

definition idup :: "nat \<Rightarrow> 'a fstate_scheme \<Rightarrow> 'a fstate_scheme" where
  "idup ip s = set_inode ip ((icache s ip)\<lparr>iref := iref (icache s ip) + 1\<rparr>) s"

definition ilock :: "nat option \<Rightarrow> 'a fstate_scheme \<Rightarrow> 'a fstate_scheme option" where
  "ilock p s =
     (case p of
        None \<Rightarrow> panic ''ilock''
      | Some ip \<Rightarrow>
          if iref (icache s ip) < 1 then panic ''ilock''
          else do {
            lk \<leftarrow> acquiresleep (mypid s) (ilk (icache s ip));
            let s = set_inode ip ((icache s ip)\<lparr>ilk := lk\<rparr>) s;
            if \<not> ivalid (icache s ip) then do {
              let v = icache s ip;
              (bp, s) \<leftarrow> bread (i_dev v) (IBLOCK (inum v) (sb s)) s;
              let v = load_dinode (data (bufs s bp)) (dinode_off (inum v)) v;
              s \<leftarrow> brelse bp (set_inode ip v s);
              if i_type v = 0 then panic ''ilock: no type''
              else Some (set_inode ip (v\<lparr>ivalid := True\<rparr>) s)
            } else Some s
          })"

definition iunlock :: "nat option \<Rightarrow> 'a fstate_scheme \<Rightarrow> 'a fstate_scheme option" where
  "iunlock p s =
     (case p of
        None \<Rightarrow> panic ''iunlock''
      | Some ip \<Rightarrow>
          if \<not> holdingsleep (mypid s) (ilk (icache s ip)) \<or> iref (icache s ip) < 1 then panic ''iunlock''
          else Some (set_inode ip ((icache s ip)\<lparr>ilk := releasesleep (ilk (icache s ip))\<rparr>) s))"

section \<open>Freeing i-nodes\<close>

definition set_addr :: "nat \<Rightarrow> nat \<Rightarrow> nat \<Rightarrow> 'a fstate_scheme \<Rightarrow> 'a fstate_scheme" where
  "set_addr ip i a s = set_inode ip ((icache s ip)\<lparr>addrs := (addrs (icache s ip))(i := a)\<rparr>) s"

definition free_direct :: "nat \<Rightarrow> nat \<Rightarrow> 'a fstate_scheme \<Rightarrow> 'a fstate_scheme option" where
  "free_direct ip i s =
     (if addrs (icache s ip) i \<noteq> 0 then do {
        s \<leftarrow> bfree (i_dev (icache s ip)) (addrs (icache s ip) i) s;
        Some (set_addr ip i 0 s)
      } else Some s)"

definition free_indirect :: "nat \<Rightarrow> nat \<Rightarrow> nat \<Rightarrow> 'a fstate_scheme \<Rightarrow> 'a fstate_scheme option" where
  "free_indirect d bp j s =
     (let a = unat (get32 (data (bufs s bp)) (4 * j)) in
      if a \<noteq> 0 then bfree d a s else Some s)"

definition itrunc :: "nat \<Rightarrow> 'a fstate_scheme \<Rightarrow> 'a fstate_scheme option" where
  "itrunc ip s = do {
     s \<leftarrow> mfold (free_direct ip) [0..<NDIRECT] s;
     s \<leftarrow> (if addrs (icache s ip) NDIRECT \<noteq> 0 then do {
            let d = i_dev (icache s ip);
            (bp, s) \<leftarrow> bread d (addrs (icache s ip) NDIRECT) s;
            s \<leftarrow> mfold (free_indirect d bp) [0..<NINDIRECT] s;
            s \<leftarrow> brelse bp s;
            s \<leftarrow> bfree d (addrs (icache s ip) NDIRECT) s;
            Some (set_addr ip NDIRECT 0 s)
          } else Some s);
     iupdate ip (set_inode ip ((icache s ip)\<lparr>i_size := 0\<rparr>) s)
   }"

definition iput :: "nat \<Rightarrow> 'a fstate_scheme \<Rightarrow> 'a fstate_scheme option" where
  "iput ip s = do {
     lk \<leftarrow> acquiresleep (mypid s) (ilk (icache s ip));
     let s = set_inode ip ((icache s ip)\<lparr>ilk := lk\<rparr>) s;
     s \<leftarrow> (if ivalid (icache s ip) \<and> nlink (icache s ip) = 0 \<and> iref (icache s ip) = 1 then do {
            s \<leftarrow> itrunc ip s;
            s \<leftarrow> iupdate ip (set_inode ip ((icache s ip)\<lparr>i_type := 0\<rparr>) s);
            Some (set_inode ip ((icache s ip)\<lparr>ivalid := False\<rparr>) s)
          } else Some s);
     let s = set_inode ip ((icache s ip)\<lparr>ilk := releasesleep (ilk (icache s ip))\<rparr>) s;
     Some (set_inode ip ((icache s ip)\<lparr>iref := iref (icache s ip) - 1\<rparr>) s)
   }"

definition iunlockput :: "nat \<Rightarrow> 'a fstate_scheme \<Rightarrow> 'a fstate_scheme option" where
  "iunlockput ip s = do { s \<leftarrow> iunlock (Some ip) s; iput ip s }"

section \<open>The contents of files\<close>

text \<open>\<^verbatim>\<open>if((addr = ip->addrs[i]) == 0) ip->addrs[i] = addr = balloc(ip->dev)\<close>\<close>

definition bmap_slot :: "nat \<Rightarrow> nat \<Rightarrow> 'a fstate_scheme \<Rightarrow> (nat \<times> 'a fstate_scheme) option" where
  "bmap_slot ip i s =
     (if addrs (icache s ip) i = 0 then do {
        (a, s) \<leftarrow> balloc (i_dev (icache s ip)) s;
        Some (a, set_addr ip i a s)
      } else Some (addrs (icache s ip) i, s))"

definition bmap_indirect :: "nat \<Rightarrow> nat \<Rightarrow> nat \<Rightarrow> 'a fstate_scheme \<Rightarrow> (nat \<times> 'a fstate_scheme) option" where
  "bmap_indirect d bp bn s =
     (let a = unat (get32 (data (bufs s bp)) (4 * bn)) in
      if a = 0 then do {
        (a, s) \<leftarrow> balloc d s;
        s \<leftarrow> log_write bp (set_data bp (put32 (data (bufs s bp)) (4 * bn) (of_nat a)) s);
        Some (a, s)
      } else Some (a, s))"

definition bmap :: "nat \<Rightarrow> nat \<Rightarrow> 'a fstate_scheme \<Rightarrow> (nat \<times> 'a fstate_scheme) option" where
  "bmap ip bn s =
     (if bn < NDIRECT then bmap_slot ip bn s
      else if bn - NDIRECT < NINDIRECT then do {
        (a, s) \<leftarrow> bmap_slot ip NDIRECT s;
        (bp, s) \<leftarrow> bread (i_dev (icache s ip)) a s;
        (a, s) \<leftarrow> bmap_indirect (i_dev (icache s ip)) bp (bn - NDIRECT) s;
        s \<leftarrow> brelse bp s;
        Some (a, s)
      } else panic ''bmap: out of range'')"

record stat =
  st_type :: ushort
  st_dev :: nat
  st_ino :: nat
  st_nlink :: ushort
  st_size :: nat
  st_uid :: uint
  st_gid :: uint
  st_mode :: uint

definition stati :: "nat \<Rightarrow> 'a fstate_scheme \<Rightarrow> stat" where
  "stati ip s = (let v = icache s ip in
     \<lparr>st_type = i_type v, st_dev = i_dev v, st_ino = inum v, st_nlink = nlink v, st_size = i_size v, st_uid = i_uid v,
      st_gid = i_gid v, st_mode = i_mode v\<rparr>)"

text \<open>\<^verbatim>\<open>min(n - tot, BSIZE - off%BSIZE)\<close>\<close>

definition chunk :: "nat \<Rightarrow> nat \<Rightarrow> nat" where
  "chunk n off = min n (BSIZE - off mod BSIZE)"

lemma chunk_pos: "0 < n \<Longrightarrow> 0 < chunk n off"
  by (simp add: chunk_def BSIZE_def)

function (sequential) readi_loop :: "nat \<Rightarrow> nat \<Rightarrow> nat \<Rightarrow> 'a fstate_scheme \<Rightarrow> (uchar list \<times> 'a fstate_scheme) option" where
  "readi_loop ip off n s =
     (if n = 0 then Some ([], s)
      else do {
        (a, s) \<leftarrow> bmap ip (off div BSIZE) s;
        (bp, s) \<leftarrow> bread (i_dev (icache s ip)) a s;
        let bytes = map (\<lambda>i. data (bufs s bp) (off mod BSIZE + i)) [0..<chunk n off];
        s \<leftarrow> brelse bp s;
        (rest, s) \<leftarrow> readi_loop ip (off + chunk n off) (n - chunk n off) s;
        Some (bytes @ rest, s)
      })"
  by pat_completeness auto
termination
  by (relation "measure (\<lambda>(ip, off, n, s). n)") (use chunk_pos in \<open>auto intro: diff_less\<close>)

declare readi_loop.simps [simp del]

definition as_int :: "nat \<Rightarrow> int" where
  "as_int n = sint (of_nat n :: uint)"

definition readi :: "('a fstate_scheme) devsw \<Rightarrow> nat \<Rightarrow> nat \<Rightarrow> nat \<Rightarrow> 'a fstate_scheme \<Rightarrow>
    (int \<times> uchar list \<times> 'a fstate_scheme) option" where
  "readi dv ip off n s =
     (let v = icache s ip in
      if i_type v = T_DEV then
        (if sint (major v) < 0 \<or> sint (major v) \<ge> NDEV then Some (-1, [], s)
         else case dev_read dv (unat (major v)) of None \<Rightarrow> Some (-1, [], s) | Some rd \<Rightarrow> rd ip n s)
      else if off > i_size v \<or> (off + n) mod 2 ^ 32 < off then Some (-1, [], s)
      else do {
        let n = (if off + n > i_size v then i_size v - off else n);
        (bytes, s) \<leftarrow> readi_loop ip off n s;
        Some (as_int n, bytes, s)
      })"

definition write_bytes :: "block \<Rightarrow> nat \<Rightarrow> uchar list \<Rightarrow> block" where
  "write_bytes d off src = (\<lambda>i. if off \<le> i \<and> i < off + length src then src ! (i - off) else d i)"

function (sequential) writei_loop :: "nat \<Rightarrow> uchar list \<Rightarrow> nat \<Rightarrow> 'a fstate_scheme \<Rightarrow> (nat \<times> 'a fstate_scheme) option" where
  "writei_loop ip src off s =
     (if src = [] then Some (off, s)
      else do {
        (a, s) \<leftarrow> bmap ip (off div BSIZE) s;
        (bp, s) \<leftarrow> bread (i_dev (icache s ip)) a s;
        let s = set_data bp (write_bytes (data (bufs s bp)) (off mod BSIZE) (take (chunk (length src) off) src)) s;
        s \<leftarrow> log_write bp s;
        s \<leftarrow> brelse bp s;
        writei_loop ip (drop (chunk (length src) off) src) (off + chunk (length src) off) s
      })"
  by pat_completeness auto
termination
  by (relation "measure (\<lambda>(ip, src, off, s). length src)") (use chunk_pos in \<open>auto intro: diff_less\<close>)

declare writei_loop.simps [simp del]

definition writei :: "('a fstate_scheme) devsw \<Rightarrow> nat \<Rightarrow> uchar list \<Rightarrow> nat \<Rightarrow> 'a fstate_scheme \<Rightarrow>
    (int \<times> 'a fstate_scheme) option" where
  "writei dv ip src off s =
     (let v = icache s ip; n = length src in
      if i_type v = T_DEV then
        (if sint (major v) < 0 \<or> sint (major v) \<ge> NDEV then Some (-1, s)
         else case dev_write dv (unat (major v)) of None \<Rightarrow> Some (-1, s) | Some wr \<Rightarrow> wr ip src s)
      else if off > i_size v \<or> (off + n) mod 2 ^ 32 < off then Some (-1, s)
      else if (off + n) mod 2 ^ 32 > MAXFILE * BSIZE then Some (-1, s)
      else do {
        (off, s) \<leftarrow> writei_loop ip src off s;
        s \<leftarrow> (if n > 0 \<and> off > i_size (icache s ip) then
               iupdate ip (set_inode ip ((icache s ip)\<lparr>i_size := off\<rparr>) s)
             else Some s);
        Some (as_int n, s)
      })"

end
