(* ===== verification/InodeDisk.thy ===== *)
theory InodeDisk
  imports Inode
begin

text \<open>
  What the i-node cache promises: \<^verbatim>\<open>iupdate\<close> writes an i-node where \<^verbatim>\<open>ilock\<close> finds it, without touching the i-nodes
  beside it, \<^verbatim>\<open>ialloc\<close> takes the lowest free one, and the table of references is kept consistent.
\<close>

lemma put_words_other: "x < base \<or> base + 4 * n \<le> x \<Longrightarrow> put_words f base n d x = d x"
  by (induction n) (auto simp: put32_other)

lemma get32_put_words: "i < n \<Longrightarrow> get32 (put_words f base n d) (base + 4 * i) = of_nat (f i)"
  by (induction n) (auto simp: less_Suc_eq)

lemma get32_put_words_other:
  "off + 4 \<le> base \<or> base + 4 * n \<le> off \<Longrightarrow> get32 (put_words f base n d) off = get32 d off"
  by (induction n) auto

lemma get16_put_words_other:
  "off + 2 \<le> base \<or> base + 4 * n \<le> off \<Longrightarrow> get16 (put_words f base n d) off = get16 d off"
  by (induction n) auto

text \<open>The fields of \<open>v\<close> that are kept on the disk, put into \<open>w\<close>.\<close>

definition copy_fields :: "inode \<Rightarrow> inode \<Rightarrow> inode" where
  "copy_fields v w = w\<lparr>i_type := i_type v, major := major v, minor := minor v, nlink := nlink v, i_size := i_size v,
     i_uid := i_uid v, i_gid := i_gid v, i_mode := i_mode v,
     addrs := (\<lambda>i. if i < NDIRECT + 1 then addrs v i else addrs w i)\<rparr>"

text \<open>The numbers in an i-node fit its 32-bit fields.\<close>

definition fits :: "inode \<Rightarrow> bool" where
  "fits v \<longleftrightarrow> i_size v < 2 ^ 32 \<and> (\<forall>i < NDIRECT + 1. addrs v i < 2 ^ 32)"

lemma load_store_dinode:
  assumes "fits v"
  shows "load_dinode (store_dinode v off d) off w = copy_fields v w"
proof -
  have "get32 (store_dinode v off d) (off + 12 + 4 * i) = of_nat (addrs v i)" if "i < NDIRECT + 1" for i
    unfolding store_dinode_def Let_def using that by (rule get32_put_words)
  then have "unat (get32 (store_dinode v off d) (off + 12 + 4 * i)) = addrs v i" if "i < NDIRECT + 1" for i
    using assms that by (simp add: fits_def)
  then have "(\<lambda>i. if i < NDIRECT + 1 then unat (get32 (store_dinode v off d) (off + 12 + 4 * i)) else addrs w i) =
      (\<lambda>i. if i < NDIRECT + 1 then addrs v i else addrs w i)"
    by auto
  moreover have "unat (of_nat (i_size v) :: uint) = i_size v"
    using assms by (simp add: fits_def)
  ultimately show ?thesis
    unfolding load_dinode_def copy_fields_def
    by (simp add: store_dinode_def Let_def get32_put_words_other get16_put_words_other NDIRECT_def)
qed

lemma store_dinode_other: "x < off \<or> off + 64 \<le> x \<Longrightarrow> store_dinode v off d x = d x"
  by (auto simp: store_dinode_def Let_def put_words_other put16_other put32_other NDIRECT_def)

lemma get16_cong: "d off = d' off \<Longrightarrow> d (off + 1) = d' (off + 1) \<Longrightarrow> get16 d off = get16 d' off"
  by (simp add: get16_def)

lemma load_dinode_cong:
  assumes "\<And>x. off \<le> x \<Longrightarrow> x < off + 64 \<Longrightarrow> d x = d' x"
  shows "load_dinode d off v = load_dinode d' off v"
proof -
  have "get32 d (off + k) = get32 d' (off + k)" if "k \<le> 60" for k
    using that assms by (intro get32_cong) auto
  moreover from this have "get32 d (off + 12 + 4 * i) = get32 d' (off + 12 + 4 * i)" if "i < NDIRECT + 1" for i
    using that [unfolded NDIRECT_def] by (simp only: add.assoc)
  moreover have "get16 d (off + k) = get16 d' (off + k)" if "k \<le> 60" for k
    using that assms by (intro get16_cong) auto
  from this [of 0] this [of 2] this [of 4] this [of 6]
  have "get16 d off = get16 d' off" "get16 d (off + 2) = get16 d' (off + 2)" "get16 d (off + 4) = get16 d' (off + 4)"
    "get16 d (off + 6) = get16 d' (off + 6)"
    by simp_all
  ultimately show ?thesis
    unfolding load_dinode_def by (simp cong: if_cong)
qed

text \<open>The i-node \<open>i\<close> as the disk, seen through the cache, has it.\<close>

definition on_disk :: "'a fstate_scheme \<Rightarrow> nat \<Rightarrow> inode \<Rightarrow> inode" where
  "on_disk s i w = load_dinode (blk s (IBLOCK i (sb s))) (dinode_off i) w"

lemma dinode_slot:
  assumes "IBLOCK i r = IBLOCK j r" "i \<noteq> j"
  shows "dinode_off i + 64 \<le> dinode_off j \<or> dinode_off j + 64 \<le> dinode_off i"
proof -
  have "i mod IPB \<noteq> j mod IPB"
    using assms by (metis IBLOCK_def add_right_cancel div_mult_mod_eq)
  then show ?thesis
    by (auto simp: dinode_off_def)
qed

lemma on_disk_stored:
  assumes "sb s' = sb s" "fits v" "blk s' (IBLOCK i (sb s)) = store_dinode v (dinode_off i) (blk s (IBLOCK i (sb s)))"
    and "\<And>m. m \<noteq> IBLOCK i (sb s) \<Longrightarrow> blk s' m = blk s m"
  shows "on_disk s' j w = (if j = i then copy_fields v w else on_disk s j w)"
proof (cases "j = i")
  case True
  with assms show ?thesis
    by (simp add: on_disk_def load_store_dinode)
next
  case False
  show ?thesis
  proof (cases "IBLOCK j (sb s) = IBLOCK i (sb s)")
    case True
    have "load_dinode (store_dinode v (dinode_off i) (blk s (IBLOCK i (sb s)))) (dinode_off j) w =
        load_dinode (blk s (IBLOCK i (sb s))) (dinode_off j) w"
      using dinode_slot [OF True False] by (intro load_dinode_cong store_dinode_other) auto
    with True False assms show ?thesis
      by (simp add: on_disk_def)
  qed (use False assms in \<open>simp add: on_disk_def\<close>)
qed

text \<open>The blocks of i-nodes are on the disk and outside the log.\<close>

definition itable_ok :: "'a fstate_scheme \<Rightarrow> bool" where
  "itable_ok s \<longleftrightarrow> (\<forall>i < sb_ninodes (sb s). IBLOCK i (sb s) < disksize s \<and> IBLOCK i (sb s) \<notin> log_area s)"

lemma wrote_icache: "wrote H s ws s' \<Longrightarrow> icache s' = icache s"
  using wroteD(10) [of H s ws s'] by (cases s; cases s') simp

lemma iupdate_wrote:
  assumes "in_tx H s" "itable_ok s" "tx_room (Suc (card H)) s" "i_dev (icache s ip) = 1"
    and "inum (icache s ip) < sb_ninodes (sb s)" "IBLOCK (inum (icache s ip)) (sb s) \<notin> held_blocks H s"
  shows "ok (iupdate ip s) (wrote H s [(IBLOCK (inum (icache s ip)) (sb s),
    store_dinode (icache s ip) (dinode_off (inum (icache s ip))) (blk s (IBLOCK (inum (icache s ip)) (sb s))))])"
proof -
  let ?v = "icache s ip"
  let ?b = "IBLOCK (inum ?v) (sb s)"
  have b: "?b < disksize s" "?b \<notin> log_area s"
    using assms(2,5) by (auto simp: itable_ok_def)
  have room: "tx_room 1 s" "int (card H) + lh_n s < int NBUF"
    using assms(3) by (auto simp: tx_room_def)
  show ?thesis
    unfolding iupdate_def Let_def assms(4)
  proof (rule read_block [OF assms(1) b(1) assms(6) room(2)])
    fix p s1
    assume "got H s p ?b s1" "data (bufs s1 p) = blk s ?b"
    then show "ok (case (p, s1) of (bp, s') \<Rightarrow>
        Option.bind (log_write bp (set_data bp (store_dinode ?v (dinode_off (inum ?v)) (data (bufs s' bp))) s')) (brelse bp))
      (wrote H s [(?b, store_dinode ?v (dinode_off (inum ?v)) (blk s ?b))])"
      using write_release [OF _ assms(1) room(1) b(2)] by simp
  qed
qed

lemma iupdate_on_disk:
  assumes "wrote H s [(IBLOCK (inum v) (sb s), store_dinode v (dinode_off (inum v)) (blk s (IBLOCK (inum v) (sb s))))] s'"
    and "fits v"
  shows "on_disk s' j w = (if j = inum v then copy_fields v w else on_disk s j w)"
  using wroteD(2) [OF assms(1)] wrote_sb [OF assms(1)] by (intro on_disk_stored [OF _ assms(2)]) auto


section \<open>Updates of the i-node cache\<close>

lemma set_inode_sel [simp]:
  "icache (set_inode ip v s) = (icache s)(ip := v)" "sb (set_inode ip v s) = sb s" "bufs (set_inode ip v s) = bufs s"
  "mypid (set_inode ip v s) = mypid s" "disksize (set_inode ip v s) = disksize s" "disk (set_inode ip v s) = disk s"
  "lh_n (set_inode ip v s) = lh_n s" "lg_size (set_inode ip v s) = lg_size s" "outstanding (set_inode ip v s) = outstanding s"
  "fstate.more (set_inode ip v s) = fstate.more s" "lru (set_inode ip v s) = lru s"
  by (simp_all add: set_inode_def)

lemma icache_upd_tx [simp]:
  "in_tx H (s\<lparr>icache := c\<rparr>) = in_tx H s" "blk (s\<lparr>icache := c\<rparr>) = blk s" "tx_room k (s\<lparr>icache := c\<rparr>) = tx_room k s"
  "held_blocks H (s\<lparr>icache := c\<rparr>) = held_blocks H s" "log_area (s\<lparr>icache := c\<rparr>) = log_area s"
  "on_disk (s\<lparr>icache := c\<rparr>) i w = on_disk s i w" "itable_ok (s\<lparr>icache := c\<rparr>) = itable_ok s"
  "used (s\<lparr>icache := c\<rparr>) = used s" "map_ok (s\<lparr>icache := c\<rparr>) = map_ok s"
proof -
  let ?s = "s\<lparr>icache := c\<rparr>"
  have c: "blk ?s = blk s" "dirty_blocks ?s = dirty_blocks s" "cache_ok H ?s = cache_ok H s" "log_area ?s = log_area s"
    using cache_cong(1,3) [of ?s s] cache_cong(4) [of ?s s H] by (simp_all add: log_area_def)
  show "blk ?s = blk s" "in_tx H ?s = in_tx H s" "tx_room k ?s = tx_room k s" "held_blocks H ?s = held_blocks H s"
    "log_area ?s = log_area s" "on_disk ?s i w = on_disk s i w" "itable_ok ?s = itable_ok s"
    using c by (simp_all add: in_tx_def header_ok_def tx_blocks_def tx_room_def held_blocks_def on_disk_def itable_ok_def)
  show u: "used ?s = used s"
    by (rule ext) (simp add: used_def c)
  show "map_ok ?s = map_ok s"
    using c u by (simp add: map_ok_def)
qed

lemma set_inode_tx [simp]:
  "in_tx H (set_inode ip v s) = in_tx H s" "blk (set_inode ip v s) = blk s" "tx_room k (set_inode ip v s) = tx_room k s"
  "held_blocks H (set_inode ip v s) = held_blocks H s" "log_area (set_inode ip v s) = log_area s"
  "on_disk (set_inode ip v s) i w = on_disk s i w" "itable_ok (set_inode ip v s) = itable_ok s"
  "used (set_inode ip v s) = used s" "map_ok (set_inode ip v s) = map_ok s"
  by (simp_all add: set_inode_def)

lemma brelse_icache: "brelse p (s\<lparr>icache := c\<rparr>) = map_option (\<lambda>s. s\<lparr>icache := c\<rparr>) (brelse p s)"
  by (simp add: brelse_def Let_def set_buf_def)

text \<open>\<open>iwrote H s ws c s'\<close>: the blocks \<open>ws\<close> written, and the i-node cache set to \<open>c\<close>.\<close>

definition iwrote :: "nat set \<Rightarrow> 'a fstate_scheme \<Rightarrow> (nat \<times> block) list \<Rightarrow> (nat \<Rightarrow> inode) \<Rightarrow> 'a fstate_scheme \<Rightarrow> bool" where
  "iwrote H s ws c s' \<longleftrightarrow> icache s' = c \<and> wrote H s ws (s'\<lparr>icache := icache s\<rparr>)"

lemma iwroteD:
  assumes "iwrote H s ws c s'"
  shows "icache s' = c" "in_tx H s'" "blk s' = apply_writes ws (blk s)" "\<And>j. j \<in> H \<Longrightarrow> bufs s' j = bufs s j"
    "lh_n s' \<le> lh_n s + int (length ws)" "held_blocks H s' = held_blocks H s" "log_area s' = log_area s"
    "disksize s' = disksize s" "lg_size s' = lg_size s" "sb s' = sb s" "fstate.more s' = fstate.more s"
    "mypid s' = mypid s"
proof -
  have w: "icache s' = c" "wrote H s ws (s'\<lparr>icache := icache s\<rparr>)"
    using assms by (auto simp: iwrote_def)
  then show "icache s' = c" "in_tx H s'" "blk s' = apply_writes ws (blk s)" "\<And>j. j \<in> H \<Longrightarrow> bufs s' j = bufs s j"
    "lh_n s' \<le> lh_n s + int (length ws)" "held_blocks H s' = held_blocks H s" "log_area s' = log_area s"
    "disksize s' = disksize s" "lg_size s' = lg_size s" "sb s' = sb s" "mypid s' = mypid s"
    using wroteD(1-9) [OF w(2)] wrote_sb [OF w(2)] by (auto simp: same_tx_def)
  show "fstate.more s' = fstate.more s"
    using wroteD(10) [OF w(2)] by (cases s; cases s') simp
qed

lemma iwrote_wrote: "wrote H s ws s' \<Longrightarrow> iwrote H s ws (icache s) s'"
  using wrote_icache [of H s ws s'] by (cases s') (simp add: iwrote_def)

lemma wrote_set_icache: "wrote H s ws s' \<Longrightarrow> wrote H (s\<lparr>icache := c\<rparr>) ws (s'\<lparr>icache := c\<rparr>)"
  by (simp add: wrote_def same_tx_def) (cases s; cases s'; simp)

lemma iwrote_trans:
  assumes "iwrote H s ws c s'" "iwrote H s' vs c' s''"
  shows "iwrote H s (ws @ vs) c' s''"
proof -
  have "wrote H s' vs (s''\<lparr>icache := icache s'\<rparr>)"
    using assms(2) by (simp add: iwrote_def)
  from wrote_set_icache [OF this, of "icache s"] have "wrote H (s'\<lparr>icache := icache s\<rparr>) vs (s''\<lparr>icache := icache s\<rparr>)"
    by simp
  then show ?thesis
    using assms wrote_trans by (auto simp: iwrote_def)
qed

lemma iwrote_icache: "iwrote H s ws c s' \<Longrightarrow> iwrote H s ws c' (s'\<lparr>icache := c'\<rparr>)"
  by (simp add: iwrote_def)

lemma iwrote_set_inode: "iwrote H s ws c s' \<Longrightarrow> iwrote H s ws (c(ip := v)) (set_inode ip v s')"
  using iwrote_icache [of H s ws c s' "c(ip := v)"] by (simp add: iwrote_def set_inode_def)

lemma iwrote_room: "iwrote H s ws c s' \<Longrightarrow> tx_room (length ws + k) s \<Longrightarrow> tx_room k s'"
  using iwroteD(5,9) [of H s ws c s'] by (simp add: tx_room_def)

lemma iwrote_refl [simp]: "in_tx H s \<Longrightarrow> iwrote H s [] (icache s) s"
  by (simp add: iwrote_wrote)

section \<open>Locking\<close>

lemma ilock_valid:
  assumes "in_tx H s" "1 \<le> iref (icache s ip)" "\<not> locked (ilk (icache s ip))" "ivalid (icache s ip)"
  shows "ok (ilock (Some ip) s)
    (iwrote H s [] ((icache s)(ip := (icache s ip)\<lparr>ilk := \<lparr>locked = True, lk_pid = mypid s\<rparr>\<rparr>)))"
  using assms iwrote_set_inode [OF iwrote_refl [OF assms(1)]]
  by (simp add: ilock_def acquiresleep_def Let_def)

lemma ilock_invalid:
  assumes "in_tx H s" "1 \<le> iref (icache s ip)" "\<not> locked (ilk (icache s ip))" "\<not> ivalid (icache s ip)"
    and "itable_ok s" "tx_room (card H) s" "i_dev (icache s ip) = 1" "inum (icache s ip) < sb_ninodes (sb s)"
    and "IBLOCK (inum (icache s ip)) (sb s) \<notin> held_blocks H s"
    and "i_type (on_disk s (inum (icache s ip)) (icache s ip)) \<noteq> 0"
  shows "ok (ilock (Some ip) s) (iwrote H s [] ((icache s)(ip := (on_disk s (inum (icache s ip)) (icache s ip))
      \<lparr>ilk := \<lparr>locked = True, lk_pid = mypid s\<rparr>, ivalid := True\<rparr>)))"
proof -
  let ?v = "(icache s ip)\<lparr>ilk := \<lparr>locked = True, lk_pid = mypid s\<rparr>\<rparr>"
  let ?s = "set_inode ip ?v s"
  let ?b = "IBLOCK (inum ?v) (sb s)"
  let ?d = "load_dinode (blk s ?b) (dinode_off (inum ?v)) ?v"
  have d: "?d\<lparr>ivalid := True\<rparr> = (on_disk s (inum (icache s ip)) (icache s ip))
      \<lparr>ilk := \<lparr>locked = True, lk_pid = mypid s\<rparr>, ivalid := True\<rparr>" "i_type ?d \<noteq> 0"
    using assms(10) by (auto intro!: inode.equality simp: on_disk_def load_dinode_def)
  have b: "in_tx H ?s" "?b < disksize ?s" "?b \<notin> held_blocks H ?s" "int (card H) + lh_n ?s < int NBUF"
    using assms by (auto simp: itable_ok_def tx_room_def)
  have "ok (do { (bp, s) \<leftarrow> bread 1 ?b ?s;
      let v = load_dinode (data (bufs s bp)) (dinode_off (inum ?v)) ?v;
      s \<leftarrow> brelse bp (set_inode ip v s);
      if i_type v = 0 then panic ''ilock: no type'' else Some (set_inode ip (v\<lparr>ivalid := True\<rparr>) s) })
    (iwrote H s [] ((icache s)(ip := ?d\<lparr>ivalid := True\<rparr>)))"
  proof (rule read_block [OF b])
    fix p s1
    assume g: "data (bufs s1 p) = blk ?s ?b" "ok (brelse p s1) (\<lambda>s2. wrote H ?s [] s2 \<and> same_rest ?s s2)"
      "got H ?s p ?b s1"
    obtain s2 where s2: "brelse p s1 = Some s2" "wrote H ?s [] s2"
      using g(2) by (auto simp: ok_iff)
    have c1: "icache s1 = icache ?s"
      using same_rest_log(8) [OF gotD(13) [OF g(3)]] by (cases s1; cases "?s") simp
    have "iwrote H s [] ((icache s)(ip := ?d\<lparr>ivalid := True\<rparr>)) (s2\<lparr>icache := (icache s)(ip := ?d\<lparr>ivalid := True\<rparr>)\<rparr>)"
      using wrote_set_icache [OF s2(2), of "icache s"] by (simp add: iwrote_def set_inode_def)
    then show "ok (case (p, s1) of (bp, s) \<Rightarrow>
        let v = load_dinode (data (bufs s bp)) (dinode_off (inum ?v)) ?v
        in Option.bind (brelse bp (set_inode ip v s)) (\<lambda>s. if i_type v = 0 then panic ''ilock: no type''
             else Some (set_inode ip (v\<lparr>ivalid := True\<rparr>) s)))
      (iwrote H s [] ((icache s)(ip := ?d\<lparr>ivalid := True\<rparr>)))"
      using d(2) g(1) s2(1) c1 by (simp add: set_inode_def brelse_icache)
  qed
  moreover have "ilock (Some ip) s = do { (bp, s) \<leftarrow> bread 1 ?b ?s;
      let v = load_dinode (data (bufs s bp)) (dinode_off (inum ?v)) ?v;
      s \<leftarrow> brelse bp (set_inode ip v s);
      if i_type v = 0 then panic ''ilock: no type'' else Some (set_inode ip (v\<lparr>ivalid := True\<rparr>) s) }"
    using assms(2-4,7) by (simp add: ilock_def acquiresleep_def Let_def cong: if_cong)
  ultimately show ?thesis
    unfolding d(1) by simp
qed


section \<open>Allocation and the reference table\<close>

text \<open>
  The table of cached i-nodes: no negative counts, no two live slots for one i-node, and only slots in use are
  locked.
\<close>

definition icache_ok :: "(nat \<Rightarrow> inode) \<Rightarrow> bool" where
  "icache_ok c \<longleftrightarrow> (\<forall>i < NINODE. 0 \<le> iref (c i) \<and> (locked (ilk (c i)) \<longrightarrow> 0 < iref (c i))) \<and>
     (\<forall>i < NINODE. \<forall>j < NINODE. 0 < iref (c i) \<and> 0 < iref (c j) \<and> i_dev (c i) = i_dev (c j) \<and> inum (c i) = inum (c j) \<longrightarrow> i = j)"

lemma icache_okD:
  assumes "icache_ok c" "i < NINODE" "j < NINODE" "0 < iref (c i)" "0 < iref (c j)" "i_dev (c i) = i_dev (c j)"
    "inum (c i) = inum (c j)"
  shows "i = j"
  using assms unfolding icache_ok_def by blast

lemma icache_ok_upd:
  assumes "icache_ok c" "0 \<le> iref v" "locked (ilk v) \<Longrightarrow> 0 < iref v"
    and "\<And>j. 0 < iref v \<Longrightarrow> j < NINODE \<Longrightarrow> 0 < iref (c j) \<Longrightarrow> i_dev (c j) = i_dev v \<Longrightarrow> inum (c j) = inum v \<Longrightarrow> j = i"
  shows "icache_ok (c(i := v))"
  unfolding icache_ok_def
proof (intro conjI allI impI)
  fix j k
  assume "j < NINODE" "k < NINODE"
    "0 < iref ((c(i := v)) j) \<and> 0 < iref ((c(i := v)) k) \<and> i_dev ((c(i := v)) j) = i_dev ((c(i := v)) k) \<and>
     inum ((c(i := v)) j) = inum ((c(i := v)) k)"
  note h = this
  consider "j = k" | "j = i" "k \<noteq> i" | "j \<noteq> i" "k = i" | "j \<noteq> i" "k \<noteq> i"
    by blast
  then show "j = k"
  proof cases
    case 2
    have "k = i"
      by (rule assms(4)) (use h 2 in simp_all)
    with 2 show ?thesis
      by simp
  next
    case 3
    have "j = i"
      by (rule assms(4)) (use h 3 in simp_all)
    with 3 show ?thesis
      by simp
  next
    case 4
    show ?thesis
      by (rule icache_okD [OF assms(1)]) (use h 4 in simp_all)
  qed
qed (use assms(1-3) in \<open>auto simp: icache_ok_def\<close>)

text \<open>How many references there are to an i-node.\<close>

definition refs :: "(nat \<Rightarrow> inode) \<Rightarrow> nat \<Rightarrow> nat \<Rightarrow> int" where
  "refs c d n = (\<Sum>i < NINODE. if 0 < iref (c i) \<and> i_dev (c i) = d \<and> inum (c i) = n then iref (c i) else 0)"

lemma refs_slot:
  assumes "icache_ok c" "i < NINODE" "0 < iref (c i)"
  shows "refs c (i_dev (c i)) (inum (c i)) = iref (c i)"
proof -
  have "(if 0 < iref (c j) \<and> i_dev (c j) = i_dev (c i) \<and> inum (c j) = inum (c i) then iref (c j) else 0) =
      (if j = i then iref (c i) else 0)" if "j < NINODE" for j
    using assms that unfolding icache_ok_def by auto
  then have "refs c (i_dev (c i)) (inum (c i)) = (\<Sum>j < NINODE. if j = i then iref (c i) else 0)"
    unfolding refs_def by (intro sum.cong) auto
  then show ?thesis
    using assms(2) by simp
qed

lemma refs_none: "(\<And>i. i < NINODE \<Longrightarrow> \<not> (0 < iref (c i) \<and> i_dev (c i) = d \<and> inum (c i) = n)) \<Longrightarrow> refs c d n = 0"
  by (auto simp: refs_def intro!: sum.neutral)

lemma refs_upd:
  assumes "i < NINODE"
  shows "refs (c(i := v)) d n = refs c d n
    - (if 0 < iref (c i) \<and> i_dev (c i) = d \<and> inum (c i) = n then iref (c i) else 0)
    + (if 0 < iref v \<and> i_dev v = d \<and> inum v = n then iref v else 0)"
proof -
  have *: "sum f {..<NINODE} = f i + sum f ({..<NINODE} - {i})" for f :: "nat \<Rightarrow> int"
    using assms by (intro sum.remove) auto
  have "(\<Sum>j \<in> {..<NINODE} - {i}. if 0 < iref ((c(i := v)) j) \<and> i_dev ((c(i := v)) j) = d \<and> inum ((c(i := v)) j) = n
        then iref ((c(i := v)) j) else 0) =
      (\<Sum>j \<in> {..<NINODE} - {i}. if 0 < iref (c j) \<and> i_dev (c j) = d \<and> inum (c j) = n then iref (c j) else 0)"
    by (intro sum.cong) auto
  then show ?thesis
    unfolding refs_def * by simp
qed

lemma iget_spec:
  assumes "icache_ok (icache s)" "iget d n s = Some (ip, s')"
  shows "ip < NINODE" "i_dev (icache s' ip) = d" "inum (icache s' ip) = n" "0 < iref (icache s' ip)"
    "icache_ok (icache s')" "\<And>e m. refs (icache s') e m = refs (icache s) e m + (if e = d \<and> m = n then 1 else 0)"
    "\<And>j. j \<noteq> ip \<Longrightarrow> icache s' j = icache s j" "s'\<lparr>icache := icache s\<rparr> = s"
proof -
  let ?P = "\<lambda>ip. iref (icache s ip) > 0 \<and> i_dev (icache s ip) = d \<and> inum (icache s ip) = n"
  have ip: "ip < NINODE \<and> (?P ip \<and> s' = set_inode ip ((icache s ip)\<lparr>iref := iref (icache s ip) + 1\<rparr>) s \<or>
      (\<forall>j < NINODE. \<not> ?P j) \<and> iref (icache s ip) = 0 \<and>
      s' = set_inode ip ((icache s ip)\<lparr>i_dev := d, inum := n, iref := 1, ivalid := False\<rparr>) s)"
    using assms(2) by (auto simp: iget_def find_upt_Some find_upt_None split: option.splits)
  then show "ip < NINODE" "i_dev (icache s' ip) = d" "inum (icache s' ip) = n" "0 < iref (icache s' ip)"
    "\<And>j. j \<noteq> ip \<Longrightarrow> icache s' j = icache s j" "s'\<lparr>icache := icache s\<rparr> = s"
    by (auto simp: set_inode_def)
  show "icache_ok (icache s')"
    using ip
  proof (elim conjE disjE)
    assume "iref (icache s ip) > 0" "i_dev (icache s ip) = d" "inum (icache s ip) = n" "ip < NINODE" "s' = set_inode ip ((icache s ip)\<lparr>iref := iref (icache s ip) + 1\<rparr>) s"
    then show ?thesis
      by (auto intro!: icache_ok_upd [OF assms(1)] dest: icache_okD [OF assms(1)])
  next
    assume "\<forall>j < NINODE. \<not> ?P j" "iref (icache s ip) = 0" "ip < NINODE"
      "s' = set_inode ip ((icache s ip)\<lparr>i_dev := d, inum := n, iref := 1, ivalid := False\<rparr>) s"
    then show ?thesis
      by (auto intro!: icache_ok_upd [OF assms(1)])
  qed
  show "refs (icache s') e m = refs (icache s) e m + (if e = d \<and> m = n then 1 else 0)" for e m
    using ip by (auto simp: refs_upd)
qed

text \<open>
  C20: the reference counts of the i-node cache.  Whatever \<^verbatim>\<open>iget\<close> does (share a cached i-node or recycle a slot), it
  yields a slot of the wanted i-node, adds one reference to it and none to any other, and keeps every i-node in at
  most one slot; it fails only when all fifty slots are in use for other i-nodes.
\<close>

theorem iget_refs:
  assumes "icache_ok (icache s)"
  shows "(\<forall>i < NINODE. 0 < iref (icache s i)) \<and> refs (icache s) d n = 0 \<and> iget d n s = None \<or>
    ok (iget d n s) (\<lambda>(ip, s'). ip < NINODE \<and> i_dev (icache s' ip) = d \<and> inum (icache s' ip) = n \<and>
      iref (icache s' ip) = refs (icache s) d n + 1 \<and> icache_ok (icache s') \<and>
      (\<forall>e m. (e, m) \<noteq> (d, n) \<longrightarrow> refs (icache s') e m = refs (icache s) e m) \<and> s'\<lparr>icache := icache s\<rparr> = s)"
proof (cases "iget d n s")
  case None
  then have free: "\<forall>i < NINODE. iref (icache s i) \<noteq> 0"
    "\<forall>i < NINODE. \<not> (iref (icache s i) > 0 \<and> i_dev (icache s i) = d \<and> inum (icache s i) = n)"
    by (auto simp: iget_def find_upt_None split: option.splits)
  have "\<forall>i < NINODE. 0 < iref (icache s i)"
    using free(1) assms by (auto simp: icache_ok_def less_le)
  moreover have "refs (icache s) d n = 0"
    using free(2) by (intro refs_none) blast
  ultimately show ?thesis
    using None by blast
next
  case (Some a)
  obtain ip s' where r: "iget d n s = Some (ip, s')"
    using Some by (cases a) simp
  note g = iget_spec [OF assms r]
  have "iref (icache s' ip) = refs (icache s) d n + 1"
    using refs_slot [OF g(5,1,4)] g(2,3,6) by simp
  then show ?thesis
    using r g by auto
qed


text \<open>The zeroed table of a booting kernel, and the file system over it.\<close>

definition zero_inode :: inode where
  "zero_inode = \<lparr>i_dev = 0, inum = 0, iref = 0, ilk = initsleeplock, ivalid = False, i_uid = 0, i_gid = 0, i_mode = 0,
     i_type = 0, major = 0, minor = 0, nlink = 0, i_size = 0, addrs = (\<lambda>_. 0)\<rparr>"

definition boot_inodes :: "(nat \<Rightarrow> inode) \<Rightarrow> (nat \<Rightarrow> block) \<Rightarrow> fstate" where
  "boot_inodes c d = boot_fs \<lparr>icache = c\<rparr> d"

lemma boot_inodes_sel [simp]:
  "sb (boot_inodes c d) = sample_sb" "disksize (boot_inodes c d) = 1000" "log_area (boot_inodes c d) = {2..<32}"
  "icache (boot_inodes c d) = c" "blk (boot_inodes c d) = d" "in_tx {} (boot_inodes c d)" "mypid (boot_inodes c d) = 1"
  "k < 30 \<Longrightarrow> tx_room k (boot_inodes c d)"
proof -
  show "icache (boot_inodes c d) = c"
    using boot_fs_sel(7) [of "\<lparr>icache = c\<rparr>" d] unfolding boot_inodes_def
    by (cases "boot_fs \<lparr>icache = c\<rparr> d") simp
qed (simp_all add: boot_inodes_def boot_fs_tx)

lemma boot_itable: "itable_ok (boot_inodes c d)"
  by (auto simp: itable_ok_def sample_sb_def IBLOCK_def IPB_def BSIZE_def)

theorem iget_refs_witness:
  "ok (iget 1 7 (boot_inodes ((\<lambda>_. zero_inode)(3 := zero_inode\<lparr>i_dev := 1, inum := 7, iref := 2\<rparr>)) (\<lambda>_ _. 0)))
     (\<lambda>(ip, s). iref (icache s ip) = 3)"
proof -
  let ?c = "(\<lambda>_. zero_inode)(3 := zero_inode\<lparr>i_dev := 1, inum := 7, iref := 2\<rparr>)"
  let ?s = "boot_inodes ?c (\<lambda>_ _. 0)"
  have c: "icache_ok (icache ?s)"
    by (auto simp: icache_ok_def zero_inode_def initsleeplock_def)
  have "refs (icache ?s) 1 7 = 2"
    using refs_slot [OF c, of 3] by (simp add: NINODE_def zero_inode_def)
  moreover have "iref (icache ?s 0) = 0" "(0 :: nat) < NINODE"
    by (simp_all add: zero_inode_def NINODE_def)
  ultimately show ?thesis
    using iget_refs [OF c, of 1 7] by (auto elim!: ok_mono)
qed

text \<open>
  C10: the i-node round trip.  In a transaction \<^verbatim>\<open>iupdate\<close> returns, writes only the block of the i-node, and leaves
  every other i-node of that block as it was; when later some slot is recycled for this i-node (whatever stale
  fields \<open>w\<close> it holds), \<^verbatim>\<open>ilock\<close> brings back exactly the type, device numbers, link count, size, owner, group, mode
  and block addresses that were written.
\<close>

theorem iupdate_ilock_roundtrip:
  assumes "in_tx {} s" "itable_ok s" "tx_room 2 s" "v = icache s ip" "fits v" "i_dev v = 1" "i_type v \<noteq> 0"
    and "inum v < sb_ninodes (sb s)"
    and w: "i_dev w = 1" "inum w = inum v" "1 \<le> iref w" "\<not> ivalid w" "\<not> locked (ilk w)"
  shows "ok (iupdate ip s) (\<lambda>s'. in_tx {} s' \<and> icache s' = icache s \<and>
    (\<forall>b. b \<noteq> IBLOCK (inum v) (sb s) \<longrightarrow> blk s' b = blk s b) \<and>
    (\<forall>j x. j \<noteq> inum v \<longrightarrow> on_disk s' j x = on_disk s j x) \<and>
    ok (ilock (Some q) (set_inode q w s')) (\<lambda>s''. icache s'' q =
      (copy_fields v w)\<lparr>ilk := \<lparr>locked = True, lk_pid = mypid s\<rparr>, ivalid := True\<rparr>))"
proof -
  have "ok (iupdate ip s) (wrote {} s [(IBLOCK (inum v) (sb s),
      store_dinode v (dinode_off (inum v)) (blk s (IBLOCK (inum v) (sb s))))])" (is "ok _ (wrote {} s ?ws)")
    unfolding assms(4) using assms by (intro iupdate_wrote) (auto simp: tx_room_def held_blocks_def)
  then show ?thesis
  proof (rule ok_mono, intro conjI)
    fix s'
    assume wr: "wrote {} s ?ws s'"
    note disk = iupdate_on_disk [OF wr assms(5)]
    show "in_tx {} s'" "icache s' = icache s" "\<forall>b. b \<noteq> IBLOCK (inum v) (sb s) \<longrightarrow> blk s' b = blk s b"
      "\<forall>j x. j \<noteq> inum v \<longrightarrow> on_disk s' j x = on_disk s j x"
      using wroteD(1,2) [OF wr] wrote_icache [OF wr] disk by auto
    let ?t = "set_inode q w s'"
    have "itable_ok s'" "mypid s' = mypid s"
      using assms(2) wroteD(5,7,8) [OF wr] wrote_sb [OF wr] by (auto simp: itable_ok_def same_tx_def)
    then have "ok (ilock (Some q) ?t) (iwrote {} ?t [] ((icache ?t)(q := (on_disk ?t (inum (icache ?t q)) (icache ?t q))
        \<lparr>ilk := \<lparr>locked = True, lk_pid = mypid ?t\<rparr>, ivalid := True\<rparr>)))"
      using assms wroteD(1) [OF wr] wrote_sb [OF wr] disk wrote_room [OF wr, of 1]
      by (intro ilock_invalid) (auto simp: held_blocks_def tx_room_def copy_fields_def)
    then show "ok (ilock (Some q) ?t) (\<lambda>s''. icache s'' q =
        (copy_fields v w)\<lparr>ilk := \<lparr>locked = True, lk_pid = mypid s\<rparr>, ivalid := True\<rparr>)"
      by (rule ok_mono) (use disk w(2) \<open>mypid s' = mypid s\<close> in \<open>auto dest!: iwroteD(1)\<close>)
  qed
qed

theorem iupdate_ilock_roundtrip_witness:
  "ok (iupdate 0 (boot_inodes ((\<lambda>_. zero_inode)(0 := zero_inode\<lparr>i_dev := 1, inum := 34, iref := 1, i_type := 2,
        i_size := 700, i_uid := 1000, addrs := (\<lambda>_. 5)\<rparr>)) (\<lambda>_ _. 9)))
     (\<lambda>s. ok (ilock (Some 4) (set_inode 4 (zero_inode\<lparr>i_dev := 1, inum := 34, iref := 1\<rparr>) s))
        (\<lambda>s. i_size (icache s 4) = 700 \<and> i_uid (icache s 4) = 1000 \<and> addrs (icache s 4) 9 = 5))"
proof -
  let ?v = "zero_inode\<lparr>i_dev := 1, inum := 34, iref := 1, i_type := 2, i_size := 700, i_uid := 1000, addrs := (\<lambda>_. 5)\<rparr>"
  let ?w = "zero_inode\<lparr>i_dev := 1, inum := 34, iref := 1\<rparr>"
  let ?s = "boot_inodes ((\<lambda>_. zero_inode)(0 := ?v)) (\<lambda>_ _. 9)"
  have "ok (iupdate 0 ?s) (\<lambda>s'. in_tx {} s' \<and> icache s' = icache ?s \<and>
    (\<forall>b. b \<noteq> IBLOCK (inum ?v) (sb ?s) \<longrightarrow> blk s' b = blk ?s b) \<and>
    (\<forall>j x. j \<noteq> inum ?v \<longrightarrow> on_disk s' j x = on_disk ?s j x) \<and>
    ok (ilock (Some 4) (set_inode 4 ?w s')) (\<lambda>s''. icache s'' 4 =
      (copy_fields ?v ?w)\<lparr>ilk := \<lparr>locked = True, lk_pid = mypid ?s\<rparr>, ivalid := True\<rparr>))"
    by (rule iupdate_ilock_roundtrip)
      (simp_all add: boot_itable fits_def sample_sb_def zero_inode_def initsleeplock_def)
  then show ?thesis
    by (rule ok_mono, elim conjE, elim ok_mono) (simp add: copy_fields_def NDIRECT_def)
qed

end
