(* ===== verification/Spinlock.thy ===== *)
theory Spinlock
  imports Prelude
begin

text \<open>
  \<^verbatim>\<open>src/kernel/spinlock.c\<close>: spin locks between processors.  A processor has its interrupt flag and the nesting depth of
  \<^verbatim>\<open>pushcli\<close>; a lock has the word that \<^verbatim>\<open>xchg\<close> tests and sets and the processor that was recorded for it.  The operations
  are split at the points where another processor can run, and \<open>lock_step\<close> interleaves them in any order; \<open>acquire\<close> and
  \<open>release\<close> are the whole calls when nobody interferes.
\<close>

record spinlock =
  sl_locked :: uint
  sl_cpu :: "nat option"
  sl_pcs :: "uint list"

record cpu =
  if_flag :: bool
  ncli :: int
  intena :: bool

record machine =
  locks :: "nat \<Rightarrow> spinlock"
  cpus :: "nat \<Rightarrow> cpu"

definition set_lock :: "nat \<Rightarrow> spinlock \<Rightarrow> machine \<Rightarrow> machine" where
  "set_lock l v m = m\<lparr>locks := (locks m)(l := v)\<rparr>"

definition set_cpu :: "nat \<Rightarrow> cpu \<Rightarrow> machine \<Rightarrow> machine" where
  "set_cpu c v m = m\<lparr>cpus := (cpus m)(c := v)\<rparr>"

definition initlock :: "nat \<Rightarrow> machine \<Rightarrow> machine" where
  "initlock l m = set_lock l ((locks m l)\<lparr>sl_locked := 0, sl_cpu := None\<rparr>) m"

definition pushcli :: "nat \<Rightarrow> machine \<Rightarrow> machine" where
  "pushcli c m =
     (let v = cpus m c;
          v' = v\<lparr>if_flag := False, intena := (if ncli v = 0 then if_flag v else intena v)\<rparr>
      in set_cpu c (v'\<lparr>ncli := ncli v + 1\<rparr>) m)"

definition popcli :: "nat \<Rightarrow> machine \<Rightarrow> machine option" where
  "popcli c m =
     (let v = cpus m c in
      if if_flag v then panic ''popcli - interruptible''
      else if ncli v - 1 < 0 then panic ''popcli''
      else Some (set_cpu c (v\<lparr>ncli := ncli v - 1, if_flag := (ncli v - 1 = 0 \<and> intena v)\<rparr>) m))"

definition holding :: "nat \<Rightarrow> nat \<Rightarrow> machine \<Rightarrow> (bool \<times> machine) option" where
  "holding c l m = do {
     let m = pushcli c m;
     let r = (sl_locked (locks m l) \<noteq> 0 \<and> sl_cpu (locks m l) = Some c);
     m \<leftarrow> popcli c m;
     Some (r, m)
   }"

definition xchg :: "nat \<Rightarrow> uint \<Rightarrow> machine \<Rightarrow> uint \<times> machine" where
  "xchg l new m = (sl_locked (locks m l), set_lock l ((locks m l)\<lparr>sl_locked := new\<rparr>) m)"

text \<open>The saved program counters of at most ten stack frames, found by following the saved frame pointers.\<close>

fun follow_frames :: "(uint \<Rightarrow> uint) \<Rightarrow> nat \<Rightarrow> uint \<Rightarrow> uint list" where
  "follow_frames mem 0 ebp = []"
| "follow_frames mem (Suc n) ebp =
     (if ebp = 0 \<or> ebp < 0x80000000 \<or> ebp = 0xFFFFFFFF then replicate (Suc n) 0
      else mem (ebp + 4) # follow_frames mem n (mem ebp))"

definition getcallerpcs :: "(uint \<Rightarrow> uint) \<Rightarrow> uint \<Rightarrow> uint list" where
  "getcallerpcs mem v = follow_frames mem 10 (v - 8)"

text \<open>The three parts of \<^verbatim>\<open>acquire\<close>: up to the loop, one round of it, and the bookkeeping after it.\<close>

definition acquire_begin :: "nat \<Rightarrow> nat \<Rightarrow> machine \<Rightarrow> machine option" where
  "acquire_begin c l m = do {
     (h, m) \<leftarrow> holding c l (pushcli c m);
     if h then panic ''acquire'' else Some m
   }"

definition acquire_end :: "nat \<Rightarrow> nat \<Rightarrow> uint list \<Rightarrow> machine \<Rightarrow> machine" where
  "acquire_end c l pcs m = set_lock l ((locks m l)\<lparr>sl_cpu := Some c, sl_pcs := pcs\<rparr>) m"

definition acquire :: "nat \<Rightarrow> nat \<Rightarrow> uint list \<Rightarrow> machine \<Rightarrow> machine option" where
  "acquire c l pcs m = do {
     m \<leftarrow> acquire_begin c l m;
     case xchg l 1 m of (old, m) \<Rightarrow>
       if old \<noteq> 0 then blocked ''acquire: spinning'' else Some (acquire_end c l pcs m)
   }"

definition release_begin :: "nat \<Rightarrow> nat \<Rightarrow> machine \<Rightarrow> machine option" where
  "release_begin c l m = do {
     (h, m) \<leftarrow> holding c l m;
     if \<not> h then panic ''release''
     else Some (set_lock l ((locks m l)\<lparr>sl_pcs := (sl_pcs (locks m l))[0 := 0], sl_cpu := None\<rparr>) m)
   }"

definition release_end :: "nat \<Rightarrow> nat \<Rightarrow> machine \<Rightarrow> machine option" where
  "release_end c l m = popcli c (set_lock l ((locks m l)\<lparr>sl_locked := 0\<rparr>) m)"

definition release :: "nat \<Rightarrow> nat \<Rightarrow> machine \<Rightarrow> machine option" where
  "release c l m = Option.bind (release_begin c l m) (release_end c l)"

section \<open>Interleaving\<close>

datatype pc = Run | Spin nat | Got nat | Rel nat

type_synonym lock_sys = "machine \<times> (nat \<Rightarrow> pc)"

text \<open>Every processor \<open>c\<close> runs on its own and may start to acquire or release a lock at any time.\<close>

inductive lock_step :: "lock_sys \<Rightarrow> lock_sys \<Rightarrow> bool" where
  enter: "p c = Run \<Longrightarrow> acquire_begin c l m = Some m' \<Longrightarrow> lock_step (m, p) (m', p(c := Spin l))"
| spin: "p c = Spin l \<Longrightarrow> xchg l 1 m = (old, m') \<Longrightarrow> lock_step (m, p) (m', if old \<noteq> 0 then p else p(c := Got l))"
| got: "p c = Got l \<Longrightarrow> lock_step (m, p) (acquire_end c l pcs m, p(c := Run))"
| leave: "p c = Run \<Longrightarrow> release_begin c l m = Some m' \<Longrightarrow> lock_step (m, p) (m', p(c := Rel l))"
| free: "p c = Rel l \<Longrightarrow> release_end c l m = Some m' \<Longrightarrow> lock_step (m, p) (m', p(c := Run))"

inductive_cases lock_stepE: "lock_step (m, p) s"

text \<open>Processor \<open>c\<close> is between the exchange that took lock \<open>l\<close> and the store that frees it.\<close>

definition owner :: "lock_sys \<Rightarrow> nat \<Rightarrow> nat \<Rightarrow> bool" where
  "owner s l c \<longleftrightarrow> sl_cpu (locks (fst s) l) = Some c \<or> snd s c = Got l \<or> snd s c = Rel l"

definition cpu_ok :: "bool \<Rightarrow> cpu \<Rightarrow> bool" where
  "cpu_ok b v \<longleftrightarrow> (if ncli v = 0 then if_flag v = b else \<not> if_flag v \<and> intena v = b)"

definition lock_inv :: "(nat \<Rightarrow> bool) \<Rightarrow> lock_sys \<Rightarrow> bool" where
  "lock_inv base s \<longleftrightarrow>
     (\<forall>l c d. owner s l c \<and> owner s l d \<longrightarrow> c = d) \<and>
     (\<forall>l. sl_locked (locks (fst s) l) \<noteq> 0 \<longleftrightarrow> (\<exists>c. owner s l c)) \<and>
     (\<forall>c l. snd s c = Got l \<or> snd s c = Rel l \<longrightarrow> sl_cpu (locks (fst s) l) = None) \<and>
     (\<forall>c. finite {l. sl_cpu (locks (fst s) l) = Some c}) \<and>
     (\<forall>c. ncli (cpus (fst s) c) =
        int (card {l. sl_cpu (locks (fst s) l) = Some c}) + (if snd s c = Run then 0 else 1)) \<and>
     (\<forall>c. cpu_ok (base c) (cpus (fst s) c))"

section \<open>Nesting\<close>

lemma set_lock_sel [simp]:
  "locks (set_lock l v m) = (locks m)(l := v)" "cpus (set_lock l v m) = cpus m"
  "cpus (set_cpu c w m) = (cpus m)(c := w)" "locks (set_cpu c w m) = locks m"
  by (simp_all add: set_lock_def set_cpu_def)

lemma pushcli_ok:
  assumes "cpu_ok b (cpus m c)"
  shows "pushcli c m = set_cpu c (cpus m c\<lparr>if_flag := False, intena := b, ncli := ncli (cpus m c) + 1\<rparr>) m"
  using assms by (simp add: pushcli_def cpu_ok_def Let_def split: if_splits)

lemma holding_nested:
  assumes "0 < ncli (cpus m c)" "\<not> if_flag (cpus m c)"
  shows "holding c l m = Some (sl_locked (locks m l) \<noteq> 0 \<and> sl_cpu (locks m l) = Some c, m)"
proof -
  have "(cpus m)(c := (cpus m c)\<lparr>if_flag := False\<rparr>) = cpus m"
    using assms(2) by (intro ext) (cases "cpus m c", simp)
  then show ?thesis
    using assms by (simp add: holding_def pushcli_def popcli_def Let_def set_cpu_def)
qed

text \<open>The calls of a processor whose interrupts are accounted for.\<close>

lemma acquire_begin_ok:
  assumes "cpu_ok b (cpus m c)" "0 \<le> ncli (cpus m c)" "sl_cpu (locks m l) = Some c \<longrightarrow> sl_locked (locks m l) \<noteq> 0"
  shows "acquire_begin c l m = (if sl_cpu (locks m l) = Some c then None
    else Some (set_cpu c ((cpus m c)\<lparr>if_flag := False, intena := b, ncli := ncli (cpus m c) + 1\<rparr>) m))"
  using assms(2,3) by (auto simp: acquire_begin_def pushcli_ok [OF assms(1)] holding_nested)

lemma release_begin_ok:
  assumes "0 < ncli (cpus m c)" "cpu_ok b (cpus m c)"
  shows "release_begin c l m = (if sl_locked (locks m l) \<noteq> 0 \<and> sl_cpu (locks m l) = Some c
    then Some (set_lock l ((locks m l)\<lparr>sl_pcs := (sl_pcs (locks m l))[0 := 0], sl_cpu := None\<rparr>) m) else None)"
  using assms by (auto simp: release_begin_def holding_nested cpu_ok_def)

lemma release_begin_none:
  assumes "sl_cpu (locks m l) \<noteq> Some c"
  shows "release_begin c l m = None"
  using assms
  by (auto simp: release_begin_def holding_def pushcli_def Let_def bind_eq_None_conv popcli_def split: if_splits)

lemma release_end_ok:
  assumes "0 < ncli (cpus m c)" "cpu_ok b (cpus m c)"
  shows "release_end c l m = Some (set_cpu c ((cpus m c)\<lparr>ncli := ncli (cpus m c) - 1, if_flag := (ncli (cpus m c) = 1 \<and> b)\<rparr>)
    (set_lock l ((locks m l)\<lparr>sl_locked := 0\<rparr>) m))"
  using assms by (auto simp: release_end_def popcli_def cpu_ok_def Let_def)


section \<open>The invariant\<close>

lemma lock_invD:
  assumes "lock_inv base (m, p)"
  shows "owner (m, p) l c \<Longrightarrow> owner (m, p) l d \<Longrightarrow> c = d" "sl_locked (locks m l) \<noteq> 0 \<longleftrightarrow> (\<exists>c. owner (m, p) l c)"
    "p c = Got l \<Longrightarrow> sl_cpu (locks m l) = None" "finite {l. sl_cpu (locks m l) = Some c}"
    "ncli (cpus m c) = int (card {l. sl_cpu (locks m l) = Some c}) + (if p c = Run then 0 else 1)"
    "cpu_ok (base c) (cpus m c)" "p c = Rel l \<Longrightarrow> sl_cpu (locks m l) = None"
  using assms unfolding lock_inv_def fst_conv snd_conv by blast+

lemma lock_invI:
  assumes "\<And>l c d. owner (m, p) l c \<Longrightarrow> owner (m, p) l d \<Longrightarrow> c = d"
    "\<And>l. sl_locked (locks m l) \<noteq> 0 \<longleftrightarrow> (\<exists>c. owner (m, p) l c)"
    "\<And>c l. p c = Got l \<Longrightarrow> sl_cpu (locks m l) = None" "\<And>c l. p c = Rel l \<Longrightarrow> sl_cpu (locks m l) = None"
    "\<And>c. finite {l. sl_cpu (locks m l) = Some c}"
    "\<And>c. ncli (cpus m c) = int (card {l. sl_cpu (locks m l) = Some c}) + (if p c = Run then 0 else 1)"
    "\<And>c. cpu_ok (base c) (cpus m c)"
  shows "lock_inv base (m, p)"
  using assms unfolding lock_inv_def fst_conv snd_conv by blast

lemma enter_inv:
  assumes "lock_inv base (m, p)" "p c = Run" "acquire_begin c l m = Some m'"
  shows "lock_inv base (m', p(c := Spin l))"
proof -
  note I = lock_invD [OF assms(1)]
  have "sl_cpu (locks m l) = Some c \<longrightarrow> sl_locked (locks m l) \<noteq> 0"
    using I(2) [of l] by (auto simp: owner_def)
  moreover have n: "0 \<le> ncli (cpus m c)"
    using I(5) [of c] by simp
  ultimately have m': "m' = set_cpu c ((cpus m c)\<lparr>if_flag := False, intena := base c, ncli := ncli (cpus m c) + 1\<rparr>) m"
    using acquire_begin_ok [OF I(6), of c l] assms(3) by (simp split: if_splits)
  have "owner (m', p(c := Spin l)) = owner (m, p)"
    using assms(2) by (auto simp: owner_def m' fun_eq_iff)
  note own = this
  show ?thesis
    by (rule lock_invI; (unfold own)?)
      (use I n assms(2) in \<open>auto simp: m' cpu_ok_def split: if_splits\<close>)
qed

lemma spin_inv:
  assumes "lock_inv base (m, p)" "p c = Spin l" "xchg l 1 m = (old, m')"
  shows "lock_inv base (m', if old \<noteq> 0 then p else p(c := Got l))"
proof (cases "old = 0")
  case False
  then have "sl_locked (locks m l) \<noteq> 0"
    using assms(3) by (auto simp: xchg_def)
  then have "owner (m', p) = owner (m, p)" "\<And>k. sl_locked (locks m' k) \<noteq> 0 \<longleftrightarrow> sl_locked (locks m k) \<noteq> 0"
    "\<And>k. sl_cpu (locks m' k) = sl_cpu (locks m k)" "cpus m' = cpus m"
    using assms(3) by (auto simp: xchg_def owner_def fun_eq_iff split: if_splits)
  then show ?thesis
    using assms(1) False unfolding lock_inv_def by simp
next
  case True
  note I = lock_invD [OF assms(1)]
  have m': "m' = set_lock l ((locks m l)\<lparr>sl_locked := 1\<rparr>) m" "sl_locked (locks m l) = 0"
    using assms(3) True by (auto simp: xchg_def)
  then have free: "\<not> owner (m, p) l d" for d
    using I(2) [of l] by auto
  have own: "owner (m', p(c := Got l)) k d \<longleftrightarrow> owner (m, p) k d \<or> k = l \<and> d = c" for k d
    using assms(2) by (auto simp: owner_def m')
  have cpu: "sl_cpu (locks m' k) = sl_cpu (locks m k)" for k
    by (simp add: m')
  have "sl_cpu (locks m l) = None"
    using free [unfolded owner_def] by (cases "sl_cpu (locks m l)") auto
  then have "lock_inv base (m', p(c := Got l))"
    by (intro lock_invI; (unfold own cpu)?)
      (use I free assms(2) in \<open>auto simp: m'(1) split: if_splits\<close>)
  then show ?thesis
    using True by simp
qed

lemma got_inv:
  assumes "lock_inv base (m, p)" "p c = Got l"
  shows "lock_inv base (acquire_end c l ps m, p(c := Run))"
proof -
  note I = lock_invD [OF assms(1)]
  let ?m = "acquire_end c l ps m"
  have none: "sl_cpu (locks m l) = None"
    using I(3) [of c l] assms(2) by simp
  have only: "owner (m, p) l d \<longleftrightarrow> d = c" for d
    using I(1) [of l c d] assms(2) by (auto simp: owner_def)
  have own: "owner (?m, p(c := Run)) = owner (m, p)"
    using assms(2) none only by (auto simp: owner_def acquire_end_def fun_eq_iff)
  have held: "{k. sl_cpu (locks ?m k) = Some d} =
      (if d = c then insert l {k. sl_cpu (locks m k) = Some d} else {k. sl_cpu (locks m k) = Some d})" for d
    using none by (auto simp: acquire_end_def)
  have g: "d \<noteq> c \<Longrightarrow> p d \<noteq> Got l \<and> p d \<noteq> Rel l" for d
    using only by (auto simp: owner_def)
  show ?thesis
    by (rule lock_invI; (unfold own held)?)
      (use I assms(2) none g in \<open>auto simp: acquire_end_def split: if_splits\<close>)
qed

lemma leave_inv:
  assumes "lock_inv base (m, p)" "p c = Run" "release_begin c l m = Some m'"
  shows "lock_inv base (m', p(c := Rel l))"
proof -
  note I = lock_invD [OF assms(1)]
  have h: "sl_cpu (locks m l) = Some c"
    using release_begin_none assms(3) by fastforce
  then have mem: "l \<in> {k. sl_cpu (locks m k) = Some c}"
    by simp
  have pos: "0 < card {k. sl_cpu (locks m k) = Some c}"
    using I(4) [of c] mem by (auto simp: card_gt_0_iff)
  then have "0 < ncli (cpus m c)"
    using I(5) [of c] by simp
  then have m': "m' = set_lock l ((locks m l)\<lparr>sl_pcs := (sl_pcs (locks m l))[0 := 0], sl_cpu := None\<rparr>) m"
    using release_begin_ok [OF _ I(6), of c l] assms(3) by (simp split: if_splits)
  have only: "owner (m, p) l d \<longleftrightarrow> d = c" for d
    using I(1) [of l c d] h by (auto simp: owner_def)
  have own: "owner (m', p(c := Rel l)) = owner (m, p)"
    using assms(2) only by (auto simp: owner_def m' fun_eq_iff)
  have held: "{k. sl_cpu (locks m' k) = Some d} =
      (if d = c then {k. sl_cpu (locks m k) = Some d} - {l} else {k. sl_cpu (locks m k) = Some d})" for d
    using h by (auto simp: m')
  have "int (card ({k. sl_cpu (locks m k) = Some c} - {l})) = int (card {k. sl_cpu (locks m k) = Some c}) - 1"
    using card_Suc_Diff1 [OF I(4) mem] by linarith
  note less = this
  show ?thesis
    by (rule lock_invI; (unfold own held)?)
      (use I assms(2) less in \<open>auto simp: m' split: if_splits\<close>)
qed

lemma free_inv:
  assumes "lock_inv base (m, p)" "p c = Rel l" "release_end c l m = Some m'"
  shows "lock_inv base (m', p(c := Run))"
proof -
  note I = lock_invD [OF assms(1)]
  have pos: "0 < ncli (cpus m c)"
    using I(5) [of c] assms(2) by simp
  have m': "m' = set_cpu c ((cpus m c)\<lparr>ncli := ncli (cpus m c) - 1, if_flag := (ncli (cpus m c) = 1 \<and> base c)\<rparr>)
      (set_lock l ((locks m l)\<lparr>sl_locked := 0\<rparr>) m)"
    using release_end_ok [OF pos I(6), of l] assms(3) by simp
  have none: "sl_cpu (locks m l) = None"
    using I(7) [of c l] assms(2) by simp
  have only: "owner (m, p) l d \<longleftrightarrow> d = c" for d
    using I(1) [of l c d] assms(2) by (auto simp: owner_def)
  have own: "owner (m', p(c := Run)) k d \<longleftrightarrow> owner (m, p) k d \<and> k \<noteq> l" for k d
    using assms(2) none only [of d] by (auto simp: owner_def m')
  have cpu: "sl_cpu (locks m' k) = sl_cpu (locks m k)" for k
    by (simp add: m')
  show ?thesis
    by (rule lock_invI; (unfold own cpu)?)
      (use I assms(2) pos in \<open>auto simp: m' cpu_ok_def split: if_splits\<close>)
qed

lemma lock_step_inv: "lock_step s t \<Longrightarrow> lock_inv base s \<Longrightarrow> lock_inv base t"
  by (induction rule: lock_step.induct) (rule enter_inv spin_inv got_inv leave_inv free_inv; assumption)+

definition idle :: "(nat \<Rightarrow> bool) \<Rightarrow> machine \<Rightarrow> bool" where
  "idle base m \<longleftrightarrow> (\<forall>l. sl_locked (locks m l) = 0 \<and> sl_cpu (locks m l) = None) \<and>
     (\<forall>c. ncli (cpus m c) = 0 \<and> if_flag (cpus m c) = base c)"

lemma idle_inv: "idle base m \<Longrightarrow> lock_inv base (m, \<lambda>_. Run)"
  by (rule lock_invI) (auto simp: idle_def owner_def cpu_ok_def)

lemma lock_run_inv:
  assumes "idle base m0" "lock_step\<^sup>*\<^sup>* (m0, \<lambda>_. Run) s"
  shows "lock_inv base s"
  using assms(2) by induction (auto simp: idle_inv [OF assms(1)] lock_step_inv)

text \<open>
  C4: mutual exclusion.  However the processors' calls interleave, starting from free locks: no two processors are
  between taking and freeing the same lock; a processor in there has its interrupts off; a processor that holds nothing and
  is not inside a call has the interrupt flag it started with; and no call panics that should not: a processor can start
  to acquire any lock it does not hold, and can release any lock it holds.
\<close>

theorem spinlock_mutex:
  assumes "idle base m0" "lock_step\<^sup>*\<^sup>* (m0, \<lambda>_. Run) (m, p)"
  shows "(owner (m, p) l c \<and> owner (m, p) l d \<longrightarrow> c = d) \<and>
    (owner (m, p) l c \<longrightarrow> \<not> if_flag (cpus m c)) \<and>
    (p c = Run \<and> (\<forall>k. sl_cpu (locks m k) \<noteq> Some c) \<longrightarrow> ncli (cpus m c) = 0 \<and> if_flag (cpus m c) = base c) \<and>
    (p c = Run \<and> sl_cpu (locks m l) \<noteq> Some c \<longrightarrow> acquire_begin c l m \<noteq> None) \<and>
    (p c = Run \<and> sl_cpu (locks m l) = Some c \<longrightarrow> release c l m \<noteq> None)"
proof -
  note I = lock_invD [OF lock_run_inv [OF assms]]
  have n: "0 \<le> ncli (cpus m c)"
    using I(5) [of c] by simp
  have held: "sl_cpu (locks m l) = Some c \<Longrightarrow> 0 < ncli (cpus m c) \<and> sl_locked (locks m l) \<noteq> 0"
  proof -
    assume h: "sl_cpu (locks m l) = Some c"
    then have "{l. sl_cpu (locks m l) = Some c} \<noteq> {}"
      by blast
    then have "0 < card {l. sl_cpu (locks m l) = Some c}"
      using I(4) [of c] by (simp add: card_gt_0_iff)
    moreover have "owner (m, p) l c"
      using h by (simp add: owner_def)
    ultimately show ?thesis
      using I(2) [of l] I(5) [of c] by auto
  qed
  have "owner (m, p) l c \<Longrightarrow> 0 < ncli (cpus m c)"
    using held I(5) [of c] by (auto simp: owner_def)
  then have off: "owner (m, p) l c \<Longrightarrow> \<not> if_flag (cpus m c)"
    using I(6) [of c] by (auto simp: cpu_ok_def)
  have rel: "release c l m \<noteq> None" if "sl_cpu (locks m l) = Some c"
  proof -
    let ?m = "set_lock l ((locks m l)\<lparr>sl_pcs := (sl_pcs (locks m l))[0 := 0], sl_cpu := None\<rparr>) m"
    have "release_begin c l m = Some ?m"
      using held [OF that] that release_begin_ok [OF _ I(6), of c l] by simp
    moreover have "release_end c l ?m \<noteq> None"
      using release_end_ok [of ?m c "base c" l] held [OF that] I(6) [of c] by simp
    ultimately show ?thesis
      by (simp add: release_def)
  qed
  show ?thesis
    using I(1) off rel acquire_begin_ok [OF I(6) n, of l] held I(5) [of c] I(6) [of c]
    by (auto simp: cpu_ok_def)
qed

definition two_cpus :: machine where
  "two_cpus = \<lparr>locks = (\<lambda>_. \<lparr>sl_locked = 0, sl_cpu = None, sl_pcs = replicate 10 0\<rparr>),
     cpus = (\<lambda>_. \<lparr>if_flag = True, ncli = 0, intena = False\<rparr>)\<rparr>"

text \<open>Processor 0 takes lock 5 while processor 1 spins for it.\<close>

theorem spinlock_mutex_witness:
  "\<exists>m p. lock_step\<^sup>*\<^sup>* (two_cpus, \<lambda>_. Run) (m, p) \<and> owner (m, p) 5 0 \<and> p 1 = Spin 5 \<and> \<not> owner (m, p) 5 1 \<and>
     \<not> if_flag (cpus m 0)"
proof -
  let ?off = "\<lambda>c m. set_cpu c ((cpus m c)\<lparr>if_flag := False, intena := True, ncli := ncli (cpus m c) + 1\<rparr>) m"
  let ?m1 = "?off 0 two_cpus"
  let ?m2 = "?off 1 ?m1"
  let ?m3 = "set_lock 5 ((locks ?m2 5)\<lparr>sl_locked := 1\<rparr>) ?m2"
  have a: "acquire_begin 0 5 two_cpus = Some ?m1" "acquire_begin 1 5 ?m1 = Some ?m2"
    by (subst acquire_begin_ok [where b = True]; simp add: two_cpus_def cpu_ok_def)+
  have x: "xchg 5 1 ?m2 = (0, ?m3)"
    by (simp add: xchg_def two_cpus_def)
  let ?p = "(\<lambda>_. Run)(0 := Spin 5, 1 := Spin 5, 0 := Got 5)"
  have "lock_step (two_cpus, \<lambda>_. Run) (?m1, (\<lambda>_. Run)(0 := Spin 5))"
    "lock_step (?m1, (\<lambda>_. Run)(0 := Spin 5)) (?m2, (\<lambda>_. Run)(0 := Spin 5, 1 := Spin 5))"
    using a by (auto intro: lock_step.enter)
  moreover have "lock_step (?m2, (\<lambda>_. Run)(0 := Spin 5, 1 := Spin 5)) (?m3, ?p)"
    using lock_step.spin [of "(\<lambda>_. Run)(0 := Spin 5, 1 := Spin 5)" 0 5 ?m2 0 ?m3] x by simp
  ultimately have r: "lock_step\<^sup>*\<^sup>* (two_cpus, \<lambda>_. Run) (?m3, ?p)"
    by (meson converse_rtranclp_into_rtranclp rtranclp.rtrancl_refl)
  have i: "idle (\<lambda>_. True) two_cpus"
    by (simp add: idle_def two_cpus_def)
  have "owner (?m3, ?p) 5 0"
    by (simp add: owner_def)
  then show ?thesis
    using r spinlock_mutex [OF i r, of 5 0 1] by (intro exI [of _ ?m3] exI [of _ ?p]) simp
qed

end
