(* ===== verification/Dir.thy ===== *)
theory Dir
  imports Inode
begin

text \<open>
  \<^verbatim>\<open>src/kernel/fs.c\<close>, third layer: directories and path names.  A directory is a file of 16-byte entries, a 16-bit
  i-node number followed by a name of at most \<open>DIRSIZ\<close> characters.  C strings are the lists of their characters
  before the terminating NUL.
\<close>

record dstate = fstate +
  cwd :: nat

definition DIRSIZ :: nat where "DIRSIZ = 14"
definition ROOTDEV :: nat where "ROOTDEV = 1"
definition ROOTINO :: nat where "ROOTINO = 1"

section \<open>Names\<close>

text \<open>\<^verbatim>\<open>strncmp\<close> on the contents of two C strings.\<close>

fun strncmp_str :: "nat \<Rightarrow> string \<Rightarrow> string \<Rightarrow> int" where
  "strncmp_str 0 p q = 0"
| "strncmp_str (Suc n) [] [] = 0"
| "strncmp_str (Suc n) [] (d # q) = - of_char d"
| "strncmp_str (Suc n) (c # p) [] = of_char c"
| "strncmp_str (Suc n) (c # p) (d # q) = (if c = d then strncmp_str n p q else of_char c - of_char d)"

definition namecmp :: "string \<Rightarrow> string \<Rightarrow> int" where
  "namecmp s t = strncmp_str DIRSIZ s t"

record dirent =
  de_inum :: nat
  de_name :: string

definition dirent_of :: "uchar list \<Rightarrow> dirent" where
  "dirent_of bs = \<lparr>de_inum = unat (get16 (\<lambda>i. bs ! i) 0),
     de_name = map (\<lambda>b. char_of (unat b)) (takeWhile (\<lambda>b. b \<noteq> 0) (take DIRSIZ (drop 2 bs)))\<rparr>"

text \<open>\<^verbatim>\<open>strncpy(de.name, name, DIRSIZ); de.inum = inum\<close>\<close>

definition dirent_bytes :: "nat \<Rightarrow> string \<Rightarrow> uchar list" where
  "dirent_bytes i name = [ucast (of_nat i :: ushort), ucast (drop_bit 8 (of_nat i :: ushort))] @
     take DIRSIZ (map of_char name) @ replicate (DIRSIZ - length name) 0"

section \<open>Directories\<close>

text \<open>The offsets of the entries of a directory of \<open>n\<close> bytes.\<close>

definition entry_offs :: "nat \<Rightarrow> nat \<Rightarrow> nat list" where
  "entry_offs k n = map (\<lambda>i. 16 * i) [k..<(n + 15) div 16]"

fun dirlookup_loop :: "('a fstate_scheme) devsw \<Rightarrow> nat \<Rightarrow> string \<Rightarrow> nat list \<Rightarrow> 'a fstate_scheme \<Rightarrow>
    (nat option \<times> nat \<times> 'a fstate_scheme) option" where
  "dirlookup_loop dv dp name [] s = Some (None, 0, s)"
| "dirlookup_loop dv dp name (off # offs) s = do {
     (r, bs, s) \<leftarrow> readi dv dp off 16 s;
     if r \<noteq> 16 then panic ''dirlookup read''
     else
       let de = dirent_of bs in
       if de_inum de = 0 then dirlookup_loop dv dp name offs s
       else if namecmp name (de_name de) = 0 then do {
         (ip, s) \<leftarrow> iget (i_dev (icache s dp)) (de_inum de) s;
         Some (Some ip, off, s)
       } else dirlookup_loop dv dp name offs s
   }"

definition dirlookup :: "('a fstate_scheme) devsw \<Rightarrow> nat \<Rightarrow> string \<Rightarrow> 'a fstate_scheme \<Rightarrow>
    (nat option \<times> nat \<times> 'a fstate_scheme) option" where
  "dirlookup dv dp name s =
     (if i_type (icache s dp) \<noteq> T_DIR then panic ''dirlookup not DIR''
      else dirlookup_loop dv dp name (entry_offs 0 (i_size (icache s dp))) s)"

fun empty_entry :: "('a fstate_scheme) devsw \<Rightarrow> nat \<Rightarrow> nat list \<Rightarrow> 'a fstate_scheme \<Rightarrow>
    (nat \<times> 'a fstate_scheme) option" where
  "empty_entry dv dp [] s = Some (16 * ((i_size (icache s dp) + 15) div 16), s)"
| "empty_entry dv dp (off # offs) s = do {
     (r, bs, s) \<leftarrow> readi dv dp off 16 s;
     if r \<noteq> 16 then panic ''dirlink read''
     else if de_inum (dirent_of bs) = 0 then Some (off, s)
     else empty_entry dv dp offs s
   }"

definition dirlink :: "('a fstate_scheme) devsw \<Rightarrow> nat \<Rightarrow> string \<Rightarrow> nat \<Rightarrow> 'a fstate_scheme \<Rightarrow>
    (int \<times> 'a fstate_scheme) option" where
  "dirlink dv dp name i s = do {
     (r, _, s) \<leftarrow> dirlookup dv dp name s;
     case r of
       Some ip \<Rightarrow> do { s \<leftarrow> iput ip s; Some (-1, s) }
     | None \<Rightarrow> do {
         (off, s) \<leftarrow> empty_entry dv dp (entry_offs 0 (i_size (icache s dp))) s;
         (r, s) \<leftarrow> writei dv dp (dirent_bytes i name) off s;
         if r \<noteq> 16 then panic ''dirlink'' else Some (0, s)
       }
   }"

section \<open>Paths\<close>

definition skipelem :: "string \<Rightarrow> (string \<times> string) option" where
  "skipelem path =
     (let p = dropWhile (\<lambda>c. c = CHR ''/'') path in
      if p = [] then None
      else Some (take DIRSIZ (takeWhile (\<lambda>c. c \<noteq> CHR ''/'') p),
        dropWhile (\<lambda>c. c = CHR ''/'') (dropWhile (\<lambda>c. c \<noteq> CHR ''/'') p)))"

text \<open>
  The loop of \<^verbatim>\<open>namex\<close>: \<open>par\<close> is its flag \<^verbatim>\<open>nameiparent\<close>, \<open>name\<close> the contents of the buffer that it fills, which it
  returns beside the i-node.
\<close>

partial_function (option) namex_loop :: "('a fstate_scheme) devsw \<Rightarrow> string \<Rightarrow> bool \<Rightarrow> string \<Rightarrow> nat \<Rightarrow>
    'a fstate_scheme \<Rightarrow> (nat option \<times> string \<times> 'a fstate_scheme) option" where
  "namex_loop dv path par name ip s =
     (case skipelem path of
        None \<Rightarrow>
          if par then do { s \<leftarrow> iput ip s; Some (None, name, s) }
          else Some (Some ip, name, s)
      | Some e \<Rightarrow> do {
          s \<leftarrow> ilock (Some ip) s;
          if i_type (icache s ip) \<noteq> T_DIR then do {
            s \<leftarrow> iunlockput ip s;
            Some (None, fst e, s)
          } else if par \<and> snd e = [] then do {
            s \<leftarrow> iunlock (Some ip) s;
            Some (Some ip, fst e, s)
          } else do {
            (r, _, s) \<leftarrow> dirlookup dv ip (fst e) s;
            s \<leftarrow> iunlockput ip s;
            (case r of
               None \<Rightarrow> Some (None, fst e, s)
             | Some nx \<Rightarrow> namex_loop dv (snd e) par (fst e) nx s)
          }
        })"

definition namex :: "('a dstate_scheme) devsw \<Rightarrow> string \<Rightarrow> bool \<Rightarrow> string \<Rightarrow> 'a dstate_scheme \<Rightarrow>
    (nat option \<times> string \<times> 'a dstate_scheme) option" where
  "namex dv path par name s = do {
     (ip, s) \<leftarrow> (if path \<noteq> [] \<and> hd path = CHR ''/'' then iget ROOTDEV ROOTINO s
                else Some (cwd s, idup (cwd s) s));
     namex_loop dv path par name ip s
   }"

definition namei :: "('a dstate_scheme) devsw \<Rightarrow> string \<Rightarrow> 'a dstate_scheme \<Rightarrow> (nat option \<times> 'a dstate_scheme) option" where
  "namei dv path s = do { (ip, _, s) \<leftarrow> namex dv path False [] s; Some (ip, s) }"

definition nameiparent :: "('a dstate_scheme) devsw \<Rightarrow> string \<Rightarrow> string \<Rightarrow> 'a dstate_scheme \<Rightarrow>
    (nat option \<times> string \<times> 'a dstate_scheme) option" where
  "nameiparent dv path name s = namex dv path True name s"

section \<open>Names compared and stored\<close>

lemma strncmp_str_eq_0: "strncmp_str n p q = 0 \<longleftrightarrow> take n p = take n q"
  if "CHR 0x00 \<notin> set p" "CHR 0x00 \<notin> set q"
  using that
proof (induction n p q rule: strncmp_str.induct)
  case (3 n d q)
  then show ?case
    by (auto simp: of_char_eq_iff [of d "CHR 0x00", simplified])
next
  case (4 n c p)
  then show ?case
    by (auto simp: of_char_eq_iff [of c "CHR 0x00", simplified])
qed auto


section \<open>Path names as lists of elements\<close>

text \<open>What a path means: the non-empty pieces between its slashes, cut to \<open>DIRSIZ\<close> characters.\<close>

fun split_slash :: "string \<Rightarrow> string list" where
  "split_slash [] = [[]]"
| "split_slash (c # cs) =
     (if c = CHR ''/'' then [] # split_slash cs
      else (c # hd (split_slash cs)) # tl (split_slash cs))"

definition path_elems :: "string \<Rightarrow> string list" where
  "path_elems path = map (take DIRSIZ) (filter (\<lambda>e. e \<noteq> []) (split_slash path))"

lemma split_slash_ne [simp]: "split_slash p \<noteq> []"
  by (cases p) auto

lemma split_slash_cons: "split_slash p = hd (split_slash p) # tl (split_slash p)"
  by (cases "split_slash p") (use split_slash_ne [of p] in auto)

lemma path_elems_slashes: "path_elems (dropWhile (\<lambda>c. c = CHR ''/'') p) = path_elems p"
  by (induction p) (auto simp: path_elems_def)

lemma split_slash_word:
  "split_slash p = takeWhile (\<lambda>c. c \<noteq> CHR ''/'') p #
     (case dropWhile (\<lambda>c. c \<noteq> CHR ''/'') p of [] \<Rightarrow> [] | _ # cs \<Rightarrow> split_slash cs)"
proof (induction p)
  case (Cons c p)
  then show ?case
    by (cases "c = CHR ''/''") simp_all
qed simp

lemma split_slash_rest:
  "(d \<noteq> [] \<Longrightarrow> \<not> hd d \<noteq> CHR ''/'') \<Longrightarrow>
   filter (\<lambda>e. e \<noteq> []) (case d of [] \<Rightarrow> [] | _ # cs \<Rightarrow> split_slash cs) = filter (\<lambda>e. e \<noteq> []) (split_slash d)"
  by (cases d) auto

lemma skipelem_None: "skipelem p = None \<longleftrightarrow> path_elems p = []"
proof -
  have "dropWhile (\<lambda>c. c = CHR ''/'') p = [] \<longleftrightarrow> path_elems (dropWhile (\<lambda>c. c = CHR ''/'') p) = []"
  proof (cases "dropWhile (\<lambda>c. c = CHR ''/'') p")
    case (Cons c cs)
    then have "c \<noteq> CHR ''/''"
      by (metis (mono_tags, lifting) dropWhile_eq_Cons_conv)
    then show ?thesis
      unfolding Cons by (simp add: path_elems_def)
  next
    case Nil
    show ?thesis
      unfolding Nil by (simp add: path_elems_def)
  qed
  then show ?thesis
    by (simp add: skipelem_def Let_def path_elems_slashes)
qed

lemma skipelem_Some:
  assumes "skipelem p = Some (name, rest)"
  shows "path_elems p = name # path_elems rest" "length rest < length p"
proof -
  let ?q = "dropWhile (\<lambda>c. c = CHR ''/'') p"
  have q: "?q \<noteq> []" "name = take DIRSIZ (takeWhile (\<lambda>c. c \<noteq> CHR ''/'') ?q)"
    "rest = dropWhile (\<lambda>c. c = CHR ''/'') (dropWhile (\<lambda>c. c \<noteq> CHR ''/'') ?q)"
    using assms by (auto simp: skipelem_def Let_def split: if_splits)
  from q(1) obtain c cs where c: "?q = c # cs" "c \<noteq> CHR ''/''"
    by (metis (mono_tags, lifting) dropWhile_eq_Cons_conv neq_Nil_conv)
  have "path_elems ?q = name # path_elems (dropWhile (\<lambda>c. c \<noteq> CHR ''/'') ?q)"
  proof -
    let ?d = "dropWhile (\<lambda>c. c \<noteq> CHR ''/'') ?q"
    have "filter (\<lambda>e. e \<noteq> []) (case ?d of [] \<Rightarrow> [] | _ # cs \<Rightarrow> split_slash cs) = filter (\<lambda>e. e \<noteq> []) (split_slash ?d)"
      using hd_dropWhile [of "\<lambda>c. c \<noteq> CHR ''/''" ?q] by (intro split_slash_rest) blast
    moreover have "takeWhile (\<lambda>c. c \<noteq> CHR ''/'') ?q \<noteq> []"
      using c by simp
    ultimately show ?thesis
      unfolding path_elems_def split_slash_word [of ?q] q(2) by simp
  qed
  then show "path_elems p = name # path_elems rest"
    using q(3) by (simp add: path_elems_slashes)
  have "length rest \<le> length cs"
    unfolding q(3) using c by (simp add: order.trans [OF length_dropWhile_le length_dropWhile_le])
  also have "length cs < length ?q"
    using c by simp
  also have "length ?q \<le> length p"
    by (rule length_dropWhile_le)
  finally show "length rest < length p" .
qed

text \<open>The walk of \<^verbatim>\<open>namex\<close> over a list of elements.\<close>

fun namex_elems :: "('a fstate_scheme) devsw \<Rightarrow> string list \<Rightarrow> bool \<Rightarrow> string \<Rightarrow> nat \<Rightarrow> 'a fstate_scheme \<Rightarrow>
    (nat option \<times> string \<times> 'a fstate_scheme) option" where
  "namex_elems dv [] par name ip s =
     (if par then do { s \<leftarrow> iput ip s; Some (None, name, s) } else Some (Some ip, name, s))"
| "namex_elems dv (e # es) par name ip s = do {
     s \<leftarrow> ilock (Some ip) s;
     if i_type (icache s ip) \<noteq> T_DIR then do {
       s \<leftarrow> iunlockput ip s;
       Some (None, e, s)
     } else if par \<and> es = [] then do {
       s \<leftarrow> iunlock (Some ip) s;
       Some (Some ip, e, s)
     } else do {
       (r, _, s) \<leftarrow> dirlookup dv ip e s;
       s \<leftarrow> iunlockput ip s;
       (case r of None \<Rightarrow> Some (None, e, s) | Some nx \<Rightarrow> namex_elems dv es par e nx s)
     }
   }"

lemma skipelem_rest: "skipelem p = Some (name, rest) \<Longrightarrow> rest = [] \<longleftrightarrow> path_elems rest = []"
proof -
  assume p: "skipelem p = Some (name, rest)"
  have "path_elems rest = [] \<Longrightarrow> rest = []"
  proof (rule ccontr)
    assume "path_elems rest = []" "rest \<noteq> []"
    moreover have "rest = dropWhile (\<lambda>c. c = CHR ''/'') rest"
      using p by (auto simp: skipelem_def Let_def split: if_splits)
    ultimately show False
      using skipelem_None [of rest] by (simp add: skipelem_def Let_def split: if_splits)
  qed
  then show ?thesis
    by (auto simp: path_elems_def)
qed

lemma namex_loop_walk:
  "namex_loop dv path par name ip s = namex_elems dv (path_elems path) par name ip s"
proof (induction "length path" arbitrary: path name ip s rule: less_induct)
  case less
  show ?case
  proof (cases "skipelem path")
    case None
    then show ?thesis
      using skipelem_None [of path] by (simp add: namex_loop.simps [of dv path])
  next
    case (Some a)
    then obtain e rest where e: "skipelem path = Some (e, rest)"
      by (cases a) auto
    note sp = skipelem_Some [OF e] skipelem_rest [OF e]
    have IH: "namex_loop dv rest par e nx s = namex_elems dv (path_elems rest) par e nx s" for nx s
      using less [OF sp(2)] .
    show ?thesis
      unfolding sp(1) namex_elems.simps
      by (subst namex_loop.simps) (simp add: e IH sp(3) cong: if_cong option.case_cong)
  qed
qed

text \<open>
  C19: path walking.  The loop of \<^verbatim>\<open>namex\<close> over the characters of a path is the walk over its elements: the
  non-empty pieces between slashes, each cut to fourteen characters, visited one at a time from the left.  So the loop
  ends for every path, leading, trailing and repeated slashes make no difference to the elements, and with the
  parent flag the walk stops exactly before the last element.
\<close>

theorem namex_loop_elems:
  "namex_loop dv path par name ip s = namex_elems dv (path_elems path) par name ip s"
  by (rule namex_loop_walk)

text \<open>The examples in the comment above \<^verbatim>\<open>skipelem\<close>.\<close>

lemma skipelem_examples:
  "skipelem ''a/bb/c'' = Some (''a'', ''bb/c'')" "skipelem ''///a//bb'' = Some (''a'', ''bb'')"
  "skipelem ''a'' = Some (''a'', [])" "skipelem [] = None" "skipelem ''////'' = None"
  by (simp_all add: skipelem_def DIRSIZ_def)

end
