(* ===== verification/SysArgs.thy ===== *)
theory SysArgs
  imports Dir
begin

text \<open>
  \<^verbatim>\<open>src/kernel/syscall.c\<close>: how the kernel fetches the arguments of a system call from the memory of the calling process.
  \<open>umem\<close> is that memory as the kernel sees it through the page table of the process, \<open>psz\<close> its size, \<open>tf_esp\<close> the saved
  stack pointer.  A failed fetch (\<^verbatim>\<open>-1\<close> in the code) is \<open>None\<close>; none of these routines changes the state.
\<close>

record ustate = dstate +
  psz :: uint
  tf_esp :: uint
  umem :: "uint \<Rightarrow> uchar"

definition get_word :: "(uint \<Rightarrow> uchar) \<Rightarrow> uint \<Rightarrow> uint" where
  "get_word m a = ucast (m a) OR push_bit 8 (ucast (m (a + 1))) OR push_bit 16 (ucast (m (a + 2))) OR
     push_bit 24 (ucast (m (a + 3)))"

definition fetchint :: "uint \<Rightarrow> 'a ustate_scheme \<Rightarrow> uint option" where
  "fetchint addr s = (if addr \<ge> psz s \<or> addr + 4 > psz s then None else Some (get_word (umem s) addr))"

text \<open>The string at \<open>a\<close>, looked for in the next \<open>n\<close> bytes.\<close>

fun scan_str :: "(uint \<Rightarrow> uchar) \<Rightarrow> nat \<Rightarrow> uint \<Rightarrow> string option" where
  "scan_str m 0 a = None"
| "scan_str m (Suc n) a = (if m a = 0 then Some [] else map_option ((#) (char_of (unat (m a)))) (scan_str m n (a + 1)))"

definition fetchstr :: "uint \<Rightarrow> 'a ustate_scheme \<Rightarrow> string option" where
  "fetchstr addr s = (if addr \<ge> psz s then None else scan_str (umem s) (unat (psz s - addr)) addr)"

definition argint :: "nat \<Rightarrow> 'a ustate_scheme \<Rightarrow> uint option" where
  "argint n s = fetchint (tf_esp s + 4 + 4 * of_nat n) s"

definition argptr :: "nat \<Rightarrow> uint \<Rightarrow> 'a ustate_scheme \<Rightarrow> uint option" where
  "argptr n len s =
     (case argint n s of
        None \<Rightarrow> None
      | Some i \<Rightarrow> if sint len < 0 \<or> i \<ge> psz s \<or> i + len > psz s then None else Some i)"

definition argstr :: "nat \<Rightarrow> 'a ustate_scheme \<Rightarrow> string option" where
  "argstr n s = Option.bind (argint n s) (\<lambda>addr. fetchstr addr s)"

text \<open>Storing bytes into the memory of the process, and the four bytes of an int.\<close>

fun put_bytes :: "uint \<Rightarrow> uchar list \<Rightarrow> (uint \<Rightarrow> uchar) \<Rightarrow> uint \<Rightarrow> uchar" where
  "put_bytes a [] m = m"
| "put_bytes a (b # bs) m = put_bytes (a + 1) bs (m(a := b))"

definition word_bytes :: "uint \<Rightarrow> uchar list" where
  "word_bytes w = map (\<lambda>k. ucast (drop_bit (8 * k) w)) [0..<4]"

section \<open>What a fetch can reach\<close>

definition user_space :: uint where "user_space = 0x80000000"

lemma unat_add_low:
  assumes "a < z" "z \<le> user_space" "unat n < 2 ^ 31"
  shows "unat (a + n) = unat a + unat n"
proof -
  have "unat a < 2 ^ 31"
    using assms(1,2) by (simp add: user_space_def word_le_nat_alt word_less_nat_alt)
  then have "unat a + unat n < 2 ^ 32"
    using assms(3) by simp
  then show ?thesis
    by (simp add: unat_word_ariths(1))
qed

lemma fetchint_bounds:
  assumes "psz s \<le> user_space"
  shows "fetchint a s = Some v \<longleftrightarrow> unat a + 4 \<le> unat (psz s) \<and> v = get_word (umem s) a"
proof (cases "a < psz s")
  case True
  then have "unat (a + 4) = unat a + 4"
    using unat_add_low [OF _ assms, of a 4] by simp
  then show ?thesis
    using True by (auto simp: fetchint_def word_le_nat_alt not_le word_less_nat_alt)
next
  case False
  then show ?thesis
    by (auto simp: fetchint_def word_le_nat_alt not_less)
qed

lemma sint_nonneg: "0 \<le> sint (w :: uint) \<longleftrightarrow> unat w < 2 ^ 31"
proof -
  have "0 \<le> sint w \<longleftrightarrow> \<not> bit (unat w) 31"
    by (simp add: sint_uint signed_take_bit_nonnegative_iff bit_simps)
  also have "bit (unat w) 31 \<longleftrightarrow> 2 ^ 31 \<le> unat w"
  proof -
    have "unat w div 2 ^ 31 < 2"
      using unat_uint_less [of w] by (simp add: less_mult_imp_div_less)
    then have "unat w div 2 ^ 31 = 0 \<or> unat w div 2 ^ 31 = 1"
      by linarith
    then have "odd (unat w div 2 ^ 31) \<longleftrightarrow> 0 < unat w div 2 ^ 31"
      by (elim disjE) (simp_all only: odd_one dvd_0_right less_irrefl not_True_eq_False not_False_eq_True zero_less_one)
    then show ?thesis
      unfolding bit_iff_odd div_greater_zero_iff by simp
  qed
  finally show ?thesis
    by (simp add: not_le)
qed

lemma argptr_bounds:
  assumes "psz s \<le> user_space"
  shows "argptr n len s = Some p \<longleftrightarrow>
    argint n s = Some p \<and> unat len < 2 ^ 31 \<and> unat p < unat (psz s) \<and> unat p + unat len \<le> unat (psz s)"
proof (cases "p < psz s \<and> 0 \<le> sint len")
  case True
  then have "unat (p + len) = unat p + unat len"
    using unat_add_low [OF _ assms] sint_nonneg by blast
  then show ?thesis
    using True sint_nonneg [of len]
    by (auto simp: argptr_def word_le_nat_alt word_less_nat_alt not_le split: option.splits)
next
  case False
  then show ?thesis
    using sint_nonneg [of len]
    by (auto simp: argptr_def word_le_nat_alt word_less_nat_alt not_le split: option.splits)
qed

lemma scan_str_iff:
  "scan_str m n a = Some cs \<longleftrightarrow> length cs < n \<and> m (a + of_nat (length cs)) = 0 \<and>
     (\<forall>i<length cs. m (a + of_nat i) \<noteq> 0 \<and> cs ! i = char_of (unat (m (a + of_nat i))))"
proof (induction n arbitrary: a cs)
  case (Suc n)
  show ?case
  proof (cases cs)
    case (Cons c ds)
    have "(\<forall>i<length cs. m (a + of_nat i) \<noteq> 0 \<and> cs ! i = char_of (unat (m (a + of_nat i)))) \<longleftrightarrow>
        m a \<noteq> 0 \<and> c = char_of (unat (m a)) \<and>
        (\<forall>i<length ds. m (a + 1 + of_nat i) \<noteq> 0 \<and> ds ! i = char_of (unat (m (a + 1 + of_nat i))))"
      unfolding Cons by (auto simp: All_less_Suc2 add.assoc)
    then show ?thesis
      using Suc.IH [of "a + 1" ds] by (auto simp: Cons add.assoc)
  qed auto
qed simp

lemma fetchstr_bounds:
  "fetchstr a s = Some cs \<longleftrightarrow> unat a + length cs < unat (psz s) \<and> umem s (a + of_nat (length cs)) = 0 \<and>
     (\<forall>i<length cs. umem s (a + of_nat i) \<noteq> 0 \<and> cs ! i = char_of (unat (umem s (a + of_nat i))))"
proof (cases "a < psz s")
  case True
  then have "unat (psz s - a) = unat (psz s) - unat a"
    by (simp add: unat_sub)
  moreover have "unat a < unat (psz s)"
    using True by (simp add: word_less_nat_alt)
  ultimately show ?thesis
    using True by (auto simp: fetchstr_def scan_str_iff)
next
  case False
  then show ?thesis
    by (auto simp: fetchstr_def word_le_nat_alt not_less)
qed

text \<open>
  C12: system call arguments stay inside the process.  While the size of a process is at most \<^verbatim>\<open>KERNBASE\<close>, an integer
  argument is fetched exactly when its four bytes lie below the size; a pointer with a length is accepted exactly when
  the length is not negative and the whole block lies below the size, although the sums of the code wrap at 32 bits; and a
  string is accepted exactly when its terminating NUL is found below the size, and then it is the bytes before that NUL.
\<close>

theorem args_in_bounds:
  assumes "psz s \<le> user_space"
  shows "(argint n s = Some v \<longleftrightarrow> (let a = tf_esp s + 4 + 4 * of_nat n in
      unat a + 4 \<le> unat (psz s) \<and> v = get_word (umem s) a)) \<and>
    (argptr n len s = Some p \<longleftrightarrow>
      argint n s = Some p \<and> 0 \<le> sint len \<and> unat p < unat (psz s) \<and> unat p + unat len \<le> unat (psz s)) \<and>
    (argstr n s = Some cs \<longleftrightarrow> (\<exists>a. argint n s = Some a \<and> unat a + length cs < unat (psz s) \<and>
      umem s (a + of_nat (length cs)) = 0 \<and>
      (\<forall>i<length cs. umem s (a + of_nat i) \<noteq> 0 \<and> cs ! i = char_of (unat (umem s (a + of_nat i))))))"
proof (intro conjI)
  show "argint n s = Some v \<longleftrightarrow> (let a = tf_esp s + 4 + 4 * of_nat n in
      unat a + 4 \<le> unat (psz s) \<and> v = get_word (umem s) a)"
    by (simp add: argint_def fetchint_bounds [OF assms] Let_def)
  show "argptr n len s = Some p \<longleftrightarrow>
      argint n s = Some p \<and> 0 \<le> sint len \<and> unat p < unat (psz s) \<and> unat p + unat len \<le> unat (psz s)"
    unfolding sint_nonneg by (rule argptr_bounds [OF assms])
  show "argstr n s = Some cs \<longleftrightarrow> (\<exists>a. argint n s = Some a \<and> unat a + length cs < unat (psz s) \<and>
      umem s (a + of_nat (length cs)) = 0 \<and>
      (\<forall>i<length cs. umem s (a + of_nat i) \<noteq> 0 \<and> cs ! i = char_of (unat (umem s (a + of_nat i)))))"
    by (auto simp: argstr_def bind_eq_Some_conv fetchstr_bounds)
qed

text \<open>A process with 64 bytes of memory, one argument 40 on its stack and the string \<^verbatim>\<open>hi\<close> there.\<close>

definition sample_args :: ustate where
  "sample_args = boot_fs \<lparr>icache = (\<lambda>_. \<lparr>i_dev = 0, inum = 0, iref = 0, ilk = initsleeplock, ivalid = False, i_uid = 0,
       i_gid = 0, i_mode = 0, i_type = 0, major = 0, minor = 0, nlink = 0, i_size = 0, addrs = (\<lambda>_. 0)\<rparr>), cwd = 0,
     psz = 64, tf_esp = 16, umem = (\<lambda>_. 0)(20 := 40, 40 := 104, 41 := 105)\<rparr> (\<lambda>_ _. 0)"

lemma sample_args_sel [simp]:
  "psz sample_args = 64" "tf_esp sample_args = 16" "umem sample_args = (\<lambda>_. 0)(20 := 40, 40 := 104, 41 := 105)"
  by (simp_all add: sample_args_def boot_fs_def boot_log_def binit_eq)

theorem args_in_bounds_witness:
  "argint 0 sample_args = Some 40 \<and> argptr 0 24 sample_args = Some 40 \<and> argptr 0 25 sample_args = None \<and>
   argstr 0 sample_args = Some ''hi''"
proof -
  have le: "psz sample_args \<le> user_space"
    by (simp add: user_space_def)
  note B = args_in_bounds [OF le]
  have i: "argint 0 sample_args = Some 40"
    using B [of 0 40, THEN conjunct1] by (simp add: Let_def get_word_def)
  moreover have "argptr 0 24 sample_args = Some 40"
    using B [where n = 0 and len = 24 and p = 40, THEN conjunct2, THEN conjunct1] i by simp
  moreover have "argptr 0 25 sample_args \<noteq> Some p" for p
    using B [where n = 0 and len = 25 and p = p, THEN conjunct2, THEN conjunct1] i by auto
  moreover have "argstr 0 sample_args = Some ''hi''"
    using B [where n = 0 and cs = "''hi''", THEN conjunct2, THEN conjunct2] i
    by (auto simp: less_Suc_eq char_of_def bit_0)
  ultimately show ?thesis
    by auto
qed

end
