(* ===== verification/Kalloc.thy ===== *)
theory Kalloc
  imports Disk
begin

text \<open>
  \<^verbatim>\<open>src/kernel/kalloc.c\<close>: the allocator of physical pages.  Memory is a map from the kernel address of a page to its
  4096 bytes; the free list is threaded through the free pages themselves, each holding the address of the next in
  its first word.  \<open>kend\<close> is the linker's symbol \<^verbatim>\<open>end\<close>, the first address behind the kernel.
\<close>

definition PGSIZE :: uint where "PGSIZE = 4096"
definition KERNBASE :: uint where "KERNBASE = 0x80000000"
definition PHYSTOP :: uint where "PHYSTOP = 0xE000000"
definition EXTMEM :: uint where "EXTMEM = 0x100000"
definition DEVSPACE :: uint where "DEVSPACE = 0xFE000000"
definition KERNLINK :: uint where "KERNLINK = KERNBASE + EXTMEM"

definition V2P :: "uint \<Rightarrow> uint" where "V2P a = a - KERNBASE"
definition P2V :: "uint \<Rightarrow> uint" where "P2V a = a + KERNBASE"

definition PGROUNDUP :: "uint \<Rightarrow> uint" where
  "PGROUNDUP sz = (sz + PGSIZE - 1) AND NOT (PGSIZE - 1)"

definition PGROUNDDOWN :: "uint \<Rightarrow> uint" where
  "PGROUNDDOWN a = a AND NOT (PGSIZE - 1)"

record kmem =
  freelist :: uint
  page :: "uint \<Rightarrow> block"
  kend :: uint
  use_lock :: bool

definition kfree :: "uint \<Rightarrow> kmem \<Rightarrow> kmem option" where
  "kfree v k =
     (if v mod PGSIZE \<noteq> 0 \<or> v < kend k \<or> V2P v \<ge> PHYSTOP then panic ''kfree''
      else Some (k\<lparr>page := (page k)(v := put32 (\<lambda>_. 1) 0 (freelist k)), freelist := v\<rparr>))"

definition kalloc :: "kmem \<Rightarrow> uint \<times> kmem" where
  "kalloc k =
     (let r = freelist k in
      (r, if r \<noteq> 0 then k\<lparr>freelist := get32 (page k r) 0\<rparr> else k))"

partial_function (option) freerange_loop :: "uint \<Rightarrow> uint \<Rightarrow> kmem \<Rightarrow> kmem option" where
  "freerange_loop p vend k =
     (if p + PGSIZE \<le> vend then do {
        k \<leftarrow> kfree p k;
        freerange_loop (p + PGSIZE) vend k
      } else Some k)"

definition freerange :: "uint \<Rightarrow> uint \<Rightarrow> kmem \<Rightarrow> kmem option" where
  "freerange vstart vend k = freerange_loop (PGROUNDUP vstart) vend k"

definition kinit1 :: "uint \<Rightarrow> uint \<Rightarrow> kmem \<Rightarrow> kmem option" where
  "kinit1 vstart vend k = freerange vstart vend (k\<lparr>use_lock := False\<rparr>)"

definition kinit2 :: "uint \<Rightarrow> uint \<Rightarrow> kmem \<Rightarrow> kmem option" where
  "kinit2 vstart vend k = do { k \<leftarrow> freerange vstart vend k; Some (k\<lparr>use_lock := True\<rparr>) }"

section \<open>The free list\<close>

text \<open>The pages on the list that starts at \<open>r\<close>, in order.\<close>

fun chain :: "kmem \<Rightarrow> uint \<Rightarrow> uint list \<Rightarrow> bool" where
  "chain k r [] \<longleftrightarrow> r = 0"
| "chain k r (p # ps) \<longleftrightarrow> r = p \<and> p \<noteq> 0 \<and> chain k (get32 (page k p) 0) ps"

definition valid_page :: "kmem \<Rightarrow> uint \<Rightarrow> bool" where
  "valid_page k p \<longleftrightarrow> p mod PGSIZE = 0 \<and> kend k \<le> p \<and> V2P p < PHYSTOP \<and> p \<noteq> 0"

definition kmem_ok :: "kmem \<Rightarrow> uint list \<Rightarrow> bool" where
  "kmem_ok k ps \<longleftrightarrow> chain k (freelist k) ps \<and> distinct ps \<and> (\<forall>p \<in> set ps. valid_page k p)"

lemma chain_cong: "(\<And>p. p \<in> set ps \<Longrightarrow> page k' p = page k p) \<Longrightarrow> chain k' r ps = chain k r ps"
  by (induction ps arbitrary: r) auto

lemma valid_page_cong: "kend k' = kend k \<Longrightarrow> valid_page k' = valid_page k"
  by (simp add: valid_page_def fun_eq_iff)

lemma kmem_ok_cong:
  "freelist k' = freelist k \<Longrightarrow> kend k' = kend k \<Longrightarrow> (\<And>p. p \<in> set ps \<Longrightarrow> page k' p = page k p) \<Longrightarrow>
   kmem_ok k' ps = kmem_ok k ps"
  unfolding kmem_ok_def using valid_page_cong [of k' k] chain_cong [of ps k' k "freelist k"] by metis

lemma kfree_ok:
  assumes "kmem_ok k ps" "valid_page k v" "v \<notin> set ps"
  shows "ok (kfree v k) (\<lambda>k'. kmem_ok k' (v # ps) \<and> kend k' = kend k \<and> (\<forall>p. p \<noteq> v \<longrightarrow> page k' p = page k p))"
proof -
  let ?k = "k\<lparr>page := (page k)(v := put32 (\<lambda>_. 1) 0 (freelist k)), freelist := v\<rparr>"
  have "chain ?k (freelist k) ps = chain k (freelist k) ps"
    by (rule chain_cong) (use assms(3) in auto)
  then have "kmem_ok ?k (v # ps)"
    using assms valid_page_cong [of ?k k] by (auto simp: kmem_ok_def valid_page_def)
  moreover have "kfree v k = Some ?k"
    using assms(2) by (auto simp: kfree_def valid_page_def)
  ultimately show ?thesis
    by simp
qed

lemma kalloc_ok:
  assumes "kmem_ok k ps" "kalloc k = (r, k')"
  shows "ps = [] \<Longrightarrow> r = 0 \<and> k' = k"
    and "ps = p # qs \<Longrightarrow> r = p \<and> kmem_ok k' qs \<and> page k' = page k \<and> kend k' = kend k \<and> valid_page k p \<and> p \<notin> set qs"
proof -
  show "ps = [] \<Longrightarrow> r = 0 \<and> k' = k"
    using assms by (simp add: kmem_ok_def kalloc_def)
  assume ps: "ps = p # qs"
  then have "r = p" "k' = k\<lparr>freelist := get32 (page k p) 0\<rparr>"
    using assms by (auto simp: kmem_ok_def kalloc_def)
  moreover from this have "chain k' (get32 (page k p) 0) qs = chain k (get32 (page k p) 0) qs"
    by (intro chain_cong) simp
  moreover have "valid_page k' = valid_page k"
    using \<open>k' = _\<close> by (intro valid_page_cong) simp
  ultimately have "kmem_ok k' qs"
    using assms(1) ps by (simp add: kmem_ok_def)
  with \<open>r = p\<close> \<open>k' = _\<close> show "r = p \<and> kmem_ok k' qs \<and> page k' = page k \<and> kend k' = kend k \<and> valid_page k p \<and> p \<notin> set qs"
    using assms(1) ps by (simp add: kmem_ok_def)
qed

text \<open>
  C13: the page allocator.  With the free list threaded through the pages \<open>ps\<close>, \<^verbatim>\<open>kalloc\<close> fails exactly when \<open>ps\<close> is
  empty, and otherwise returns the first page, which is page-aligned, inside physical memory and no longer on the
  list; giving a page back with \<^verbatim>\<open>kfree\<close> keeps the list well formed, touches no other page and makes it the next one
  that \<^verbatim>\<open>kalloc\<close> returns.
\<close>

theorem kalloc_kfree_correct:
  assumes "kmem_ok k ps"
  shows "(case kalloc k of (r, k') \<Rightarrow> if r = 0 then ps = [] \<and> k' = k
      else ps \<noteq> [] \<and> r = hd ps \<and> valid_page k r \<and> r \<notin> set (tl ps) \<and> kmem_ok k' (tl ps) \<and> page k' = page k) \<and>
    (\<forall>v. valid_page k v \<and> v \<notin> set ps \<longrightarrow> ok (kfree v k) (\<lambda>k'. kmem_ok k' (v # ps) \<and>
      (\<forall>p. p \<noteq> v \<longrightarrow> page k' p = page k p) \<and> fst (kalloc k') = v \<and> kmem_ok (snd (kalloc k')) ps))"
proof (intro conjI allI impI)
  obtain r k' where r: "kalloc k = (r, k')"
    by (cases "kalloc k")
  show "case kalloc k of (r, k') \<Rightarrow> if r = 0 then ps = [] \<and> k' = k
      else ps \<noteq> [] \<and> r = hd ps \<and> valid_page k r \<and> r \<notin> set (tl ps) \<and> kmem_ok k' (tl ps) \<and> page k' = page k"
    using kalloc_ok [OF assms r] r by (cases ps) (auto simp: valid_page_def)
next
  fix v
  assume "valid_page k v \<and> v \<notin> set ps"
  then have v: "valid_page k v" "v \<notin> set ps"
    by auto
  show "ok (kfree v k) (\<lambda>k'. kmem_ok k' (v # ps) \<and>
      (\<forall>p. p \<noteq> v \<longrightarrow> page k' p = page k p) \<and> fst (kalloc k') = v \<and> kmem_ok (snd (kalloc k')) ps)"
    using kfree_ok [OF assms v]
  proof (rule ok_mono, elim conjE)
    fix k'
    assume k': "kmem_ok k' (v # ps)" "\<forall>p. p \<noteq> v \<longrightarrow> page k' p = page k p"
    obtain r k'' where r: "kalloc k' = (r, k'')"
      by (cases "kalloc k'")
    show "kmem_ok k' (v # ps) \<and> (\<forall>p. p \<noteq> v \<longrightarrow> page k' p = page k p) \<and> fst (kalloc k') = v \<and> kmem_ok (snd (kalloc k')) ps"
      using kalloc_ok(2) [OF k'(1) r refl] k' r by simp
  qed
qed

text \<open>Three free pages of a small machine.\<close>

definition sample_kmem :: kmem where
  "sample_kmem = \<lparr>freelist = 0x80400000,
     page = (\<lambda>_ _. 0)(0x80400000 := put32 (\<lambda>_. 1) 0 0x80402000, 0x80402000 := put32 (\<lambda>_. 1) 0 0x80401000,
       0x80401000 := put32 (\<lambda>_. 1) 0 0),
     kend = 0x80300000, use_lock = True\<rparr>"

lemma sample_kmem_ok: "kmem_ok sample_kmem [0x80400000, 0x80402000, 0x80401000]"
  by (simp add: kmem_ok_def sample_kmem_def valid_page_def PGSIZE_def V2P_def KERNBASE_def PHYSTOP_def)

theorem kalloc_kfree_correct_witness:
  "fst (kalloc sample_kmem) = 0x80400000 \<and> ok (kfree 0x80500000 sample_kmem) (\<lambda>k'. fst (kalloc k') = 0x80500000)"
proof -
  have "valid_page sample_kmem 0x80500000"
    by (simp add: sample_kmem_def valid_page_def PGSIZE_def V2P_def KERNBASE_def PHYSTOP_def)
  moreover have "fst (kalloc sample_kmem) = 0x80400000"
    by (simp add: kalloc_def sample_kmem_def)
  ultimately show ?thesis
    using kalloc_kfree_correct [OF sample_kmem_ok] by (auto elim!: ok_mono)
qed

end
