(* ===== verification/Pipe.thy ===== *)
theory Pipe
  imports Prelude
begin

text \<open>
  \<^verbatim>\<open>src/kernel/pipe.c\<close>: pipes.  A pipe is a ring of 512 bytes with two 32-bit counters that only grow and wrap around.
  A reader or writer that has to wait releases the pipe's lock, so a call is modelled as what it does until it
  returns or sleeps; a woken call goes on with what it had left.  Waking and locking are not visible here: every run
  between two sleeps happens under the lock.
\<close>

definition PIPESIZE :: uint where "PIPESIZE = 512"

record pipe =
  pdata :: "nat \<Rightarrow> uchar"
  nread :: uint
  nwrite :: uint
  readopen :: bool
  writeopen :: bool

datatype outcome = Returned | Failed | Sleeping

definition new_pipe :: "(nat \<Rightarrow> uchar) \<Rightarrow> pipe" where
  "new_pipe junk = \<lparr>pdata = junk, nread = 0, nwrite = 0, readopen = True, writeopen = True\<rparr>"

text \<open>The pipe after one end is closed, and whether its page is freed.\<close>

definition pipeclose :: "bool \<Rightarrow> pipe \<Rightarrow> pipe \<times> bool" where
  "pipeclose writable p =
     (let p = (if writable then p\<lparr>writeopen := False\<rparr> else p\<lparr>readopen := False\<rparr>) in
      (p, \<not> readopen p \<and> \<not> writeopen p))"

definition put_byte :: "uchar \<Rightarrow> pipe \<Rightarrow> pipe" where
  "put_byte c p = p\<lparr>pdata := (pdata p)(unat (nwrite p mod PIPESIZE) := c), nwrite := nwrite p + 1\<rparr>"

definition get_byte :: "pipe \<Rightarrow> uchar \<times> pipe" where
  "get_byte p = (pdata p (unat (nread p mod PIPESIZE)), p\<lparr>nread := nread p + 1\<rparr>)"

text \<open>\<^verbatim>\<open>pipewrite\<close>: how it stops, the bytes it has left, and the pipe.\<close>

fun pipewrite :: "bool \<Rightarrow> uchar list \<Rightarrow> pipe \<Rightarrow> outcome \<times> uchar list \<times> pipe" where
  "pipewrite killed [] p = (Returned, [], p)"
| "pipewrite killed (c # cs) p =
     (if nwrite p = nread p + PIPESIZE then
        (if \<not> readopen p \<or> killed then (Failed, c # cs, p) else (Sleeping, c # cs, p))
      else pipewrite killed cs (put_byte c p))"

fun piperead_copy :: "nat \<Rightarrow> pipe \<Rightarrow> uchar list \<times> pipe" where
  "piperead_copy 0 p = ([], p)"
| "piperead_copy (Suc n) p =
     (if nread p = nwrite p then ([], p)
      else (case get_byte p of (c, p) \<Rightarrow> case piperead_copy n p of (cs, p) \<Rightarrow> (c # cs, p)))"

text \<open>\<^verbatim>\<open>piperead\<close>: how it stops, the bytes it has copied, and the pipe.\<close>

definition piperead :: "bool \<Rightarrow> nat \<Rightarrow> pipe \<Rightarrow> outcome \<times> uchar list \<times> pipe" where
  "piperead killed n p =
     (if nread p = nwrite p \<and> writeopen p then
        (if killed then (Failed, [], p) else (Sleeping, [], p))
      else case piperead_copy n p of (cs, p) \<Rightarrow> (Returned, cs, p))"

section \<open>Bounded queues\<close>

text \<open>What a client of a bounded first-in first-out buffer relies on.\<close>

locale bounded_queue =
  fixes inv :: "'s \<Rightarrow> bool"
    and contents :: "'s \<Rightarrow> 'a list"
    and put :: "'a \<Rightarrow> 's \<Rightarrow> 's"
    and get :: "'s \<Rightarrow> 'a \<times> 's"
    and cap :: nat
  assumes put_law: "inv s \<Longrightarrow> length (contents s) < cap \<Longrightarrow> inv (put x s) \<and> contents (put x s) = contents s @ [x]"
    and get_law: "inv s \<Longrightarrow> contents s = x # xs \<Longrightarrow> fst (get s) = x \<and> inv (snd (get s)) \<and> contents (snd (get s)) = xs"
    and bound: "inv s \<Longrightarrow> length (contents s) \<le> cap"
begin

lemma put_many:
  "inv s \<Longrightarrow> length (contents s) + length xs \<le> cap \<Longrightarrow>
   inv (fold put xs s) \<and> contents (fold put xs s) = contents s @ xs"
proof (induction xs arbitrary: s)
  case (Cons x xs)
  then have "inv (put x s)" "contents (put x s) = contents s @ [x]"
    using put_law [of s x] by auto
  with Cons.IH [of "put x s"] Cons.prems(2) show ?case
    by simp
qed simp

lemma put_then_get:
  assumes "inv s" "contents s = []" "0 < cap"
  shows "fst (get (put x s)) = x" "contents (snd (get (put x s))) = []"
proof -
  have "inv (put x s)" "contents (put x s) = [x]"
    using put_law [of s x] assms by auto
  then show "fst (get (put x s)) = x" "contents (snd (get (put x s))) = []"
    using get_law [of "put x s" x "[]"] by auto
qed

end

section \<open>The ring is a bounded queue\<close>

definition contents :: "pipe \<Rightarrow> uchar list" where
  "contents p = map (\<lambda>i. pdata p (unat ((nread p + of_nat i) mod PIPESIZE))) [0..<unat (nwrite p - nread p)]"

definition pipe_ok :: "pipe \<Rightarrow> bool" where
  "pipe_ok p \<longleftrightarrow> unat (nwrite p - nread p) \<le> 512"

lemma length_contents: "length (contents p) = unat (nwrite p - nread p)"
  by (simp add: contents_def)

lemma full_iff: "nwrite p = nread p + PIPESIZE \<longleftrightarrow> length (contents p) = 512"
proof -
  have "unat x = 512 \<longleftrightarrow> x = 512" for x :: uint
    using word_unat_eq_iff [of x 512] by simp
  then show ?thesis
    by (simp add: length_contents PIPESIZE_def diff_eq_eq add.commute)
qed

lemma empty_iff: "nread p = nwrite p \<longleftrightarrow> contents p = []"
  using length_contents [of p] by (metis diff_eq_eq add_0 length_0_conv unat_eq_0)

text \<open>Slots of the ring that are at most 511 apart are different, even when the counters wrap around.\<close>

lemma slot_inj:
  assumes "i < 512" "j < 512" "unat ((r + of_nat i) mod PIPESIZE) = unat ((r + of_nat j) mod PIPESIZE)"
  shows "i = j"
  using ring_slot_inj [of PIPESIZE i j r] assms by (simp add: PIPESIZE_def)

lemma put_byte_queue:
  assumes "pipe_ok p" "length (contents p) < 512"
  shows "pipe_ok (put_byte c p)" "contents (put_byte c p) = contents p @ [c]"
proof -
  let ?n = "unat (nwrite p - nread p)"
  have n: "?n < 512"
    using assms(2) by (simp add: length_contents)
  have len: "unat (nwrite (put_byte c p) - nread (put_byte c p)) = Suc ?n"
  proof -
    have "nwrite p - nread p \<noteq> - 1"
      using n by auto
    then have "1 + (nwrite p - nread p) \<noteq> 0"
      by (simp add: eq_neg_iff_add_eq_0 add.commute)
    then have "unat (1 + (nwrite p - nread p)) = Suc ?n"
      by (rule unatSuc)
    moreover have "nwrite (put_byte c p) - nread (put_byte c p) = 1 + (nwrite p - nread p)"
      by (simp add: put_byte_def)
    ultimately show ?thesis
      by (simp only:)
  qed
  show "pipe_ok (put_byte c p)"
    using n len by (simp add: pipe_ok_def)
  have w: "nread p + of_nat ?n = nwrite p"
    by simp
  have "(if unat ((nread p + of_nat i) mod PIPESIZE) = unat (nwrite p mod PIPESIZE) then c
      else pdata p (unat ((nread p + of_nat i) mod PIPESIZE))) = pdata p (unat ((nread p + of_nat i) mod PIPESIZE))"
    if "i < ?n" for i
    using slot_inj [of i ?n "nread p"] that n w by auto
  then show "contents (put_byte c p) = contents p @ [c]"
    unfolding contents_def len using w by (simp add: put_byte_def)
qed

lemma get_byte_queue:
  assumes "contents p = c # cs" "pipe_ok p"
  shows "fst (get_byte p) = c" "pipe_ok (snd (get_byte p))" "contents (snd (get_byte p)) = cs"
proof -
  let ?n = "unat (nwrite p - nread p)"
  have n: "?n = Suc (length cs)"
    using assms(1) length_contents [of p] by simp
  have "nwrite p - nread p \<noteq> 0"
    using n by (metis unat_0 nat.distinct(1))
  then have len: "unat (nwrite (snd (get_byte p)) - nread (snd (get_byte p))) = length cs"
    using n unat_minus_one [of "nwrite p - nread p"] by (simp add: get_byte_def diff_diff_eq)
  show "pipe_ok (snd (get_byte p))"
    using len n assms(2) by (simp add: pipe_ok_def)
  have list: "c # cs = map (\<lambda>i. pdata p (unat ((nread p + of_nat i) mod PIPESIZE))) [0..<Suc (length cs)]"
    using assms(1) n by (simp add: contents_def)
  then show "fst (get_byte p) = c"
    by (simp add: get_byte_def map_upt_Suc del: upt_Suc)
  show "contents (snd (get_byte p)) = cs"
    unfolding contents_def len using list by (simp add: get_byte_def map_upt_Suc add.assoc del: upt_Suc)
qed

interpretation ring: bounded_queue pipe_ok contents put_byte get_byte 512
proof
  fix p :: pipe and c cs
  show "pipe_ok p \<Longrightarrow> length (contents p) < 512 \<Longrightarrow> pipe_ok (put_byte c p) \<and> contents (put_byte c p) = contents p @ [c]"
    using put_byte_queue by blast
  show "pipe_ok p \<Longrightarrow> contents p = c # cs \<Longrightarrow>
      fst (get_byte p) = c \<and> pipe_ok (snd (get_byte p)) \<and> contents (snd (get_byte p)) = cs"
    using get_byte_queue by blast
  show "pipe_ok p \<Longrightarrow> length (contents p) \<le> 512"
    by (simp add: pipe_ok_def length_contents)
qed

section \<open>Reading and writing\<close>

lemma pipewrite_queue:
  "pipe_ok p \<Longrightarrow> pipewrite killed src p = (r, rest, p') \<Longrightarrow>
   pipe_ok p' \<and> (\<exists>done. src = done @ rest \<and> contents p' = contents p @ done) \<and>
   readopen p' = readopen p \<and> writeopen p' = writeopen p \<and>
   (r = Returned \<longleftrightarrow> rest = []) \<and> (rest \<noteq> [] \<longrightarrow> length (contents p') = 512) \<and>
   (r = Sleeping \<longrightarrow> readopen p \<and> \<not> killed) \<and> (r = Failed \<longrightarrow> \<not> readopen p \<or> killed)"
proof (induction killed src p rule: pipewrite.induct)
  case (2 killed c cs p)
  show ?case
  proof (cases "nwrite p = nread p + PIPESIZE")
    case True
    then have "length (contents p) = 512"
      by (simp only: full_iff)
    with 2 True show ?thesis
      by (auto split: if_splits)
  next
    case False
    then have "length (contents p) < 512"
      using "2.prems"(1) by (simp add: full_iff pipe_ok_def length_contents)
    then have put: "pipe_ok (put_byte c p)" "contents (put_byte c p) = contents p @ [c]"
      using put_byte_queue "2.prems"(1) by auto
    have "pipewrite killed cs (put_byte c p) = (r, rest, p')"
      using "2.prems"(2) False by simp
    from "2.IH" [OF False put(1) this] put(2) show ?thesis
      by (auto simp: put_byte_def)
  qed
qed auto

lemma piperead_copy_queue:
  "pipe_ok p \<Longrightarrow> piperead_copy n p = (cs, p') \<Longrightarrow>
   pipe_ok p' \<and> contents p = cs @ contents p' \<and> length cs = min n (length (contents p)) \<and>
   readopen p' = readopen p \<and> writeopen p' = writeopen p"
proof (induction n p arbitrary: cs p' rule: piperead_copy.induct)
  case (2 n p)
  show ?case
  proof (cases "contents p")
    case Nil
    then have "nread p = nwrite p"
      by (simp add: empty_iff)
    with 2 Nil show ?thesis
      by simp
  next
    case (Cons c ds)
    then have ne: "nread p \<noteq> nwrite p"
      by (simp add: empty_iff)
    note g = get_byte_queue [OF Cons "2.prems"(1)]
    obtain q where q: "get_byte p = (c, q)"
      using g(1) by (cases "get_byte p") auto
    obtain es q' where es: "piperead_copy n q = (es, q')"
      by (cases "piperead_copy n q")
    have "cs = c # es" "p' = q'"
      using "2.prems"(2) ne q es by auto
    moreover have okq: "pipe_ok q" "contents q = ds" "readopen q = readopen p" "writeopen q = writeopen p"
      using g(2,3) q by (auto simp: get_byte_def)
    moreover have "pipe_ok q' \<and> contents q = es @ contents q' \<and> length es = min n (length (contents q)) \<and>
        readopen q' = readopen q \<and> writeopen q' = writeopen q"
      by (rule "2.IH" [OF ne q [symmetric] okq(1) es])
    ultimately show ?thesis
      unfolding Cons by simp
  qed
qed auto

lemma piperead_queue:
  assumes "pipe_ok p" "piperead killed n p = (r, cs, p')"
  shows "pipe_ok p' \<and> contents p = cs @ contents p' \<and> readopen p' = readopen p \<and> writeopen p' = writeopen p \<and>
    (r = Returned \<longrightarrow> length cs = min n (length (contents p))) \<and>
    (r \<noteq> Returned \<longleftrightarrow> contents p = [] \<and> writeopen p) \<and> (r = Failed \<longrightarrow> killed)"
proof (cases "contents p = [] \<and> writeopen p")
  case True
  then show ?thesis
    using assms by (auto simp: piperead_def empty_iff split: if_splits)
next
  case False
  obtain ds q where q: "piperead_copy n p = (ds, q)"
    by (cases "piperead_copy n p")
  then have r: "r = Returned" "cs = ds" "p' = q"
    using assms(2) False by (auto simp: piperead_def empty_iff)
  from piperead_copy_queue [OF assms(1) q] False show ?thesis
    unfolding r by blast
qed

lemma pipewrite_fits:
  assumes "pipe_ok p" "pipewrite k src p = (r, rest, p')" "length (contents p) + length src \<le> 512"
  shows "r = Returned \<and> pipe_ok p' \<and> contents p' = contents p @ src"
proof -
  note W = pipewrite_queue [OF assms(1,2)]
  then obtain d where d: "src = d @ rest" "contents p' = contents p @ d"
    by (elim conjE exE)
  have "rest = []"
  proof (rule ccontr)
    assume "rest \<noteq> []"
    then have "length (contents p') = 512"
      using W by blast
    with d \<open>rest \<noteq> []\<close> assms(3) show False
      by (cases rest) simp_all
  qed
  then show ?thesis
    using W d by simp
qed

lemma piperead_some:
  assumes "pipe_ok p" "piperead k n p = (r, cs, p')" "contents p \<noteq> [] \<or> \<not> writeopen p"
  shows "r = Returned \<and> cs = take n (contents p)"
proof -
  note R = piperead_queue [OF assms(1,2)]
  then have r: "r = Returned"
    using assms(3) by blast
  with R have c: "contents p = cs @ contents p'" and l: "length cs = min n (length (contents p))"
    by blast+
  have "take n (contents p) = take (min n (length (contents p))) (contents p)"
    by (cases "n \<le> length (contents p)") simp_all
  also have "\<dots> = cs"
    unfolding l [symmetric] by (subst c) simp
  finally show ?thesis
    using r by simp
qed

text \<open>
  All that can happen to a pipe: calls, parts of calls between two sleeps, and the closing of its ends, in any order
  and by any number of processes.  The two lists are the bytes taken from writers and given to readers so far.
\<close>

inductive pipe_run :: "pipe \<Rightarrow> uchar list \<Rightarrow> uchar list \<Rightarrow> bool" where
  start: "pipe_run (new_pipe junk) [] []"
| wr: "pipe_run p ws rs \<Longrightarrow> pipewrite killed src p = (r, rest, p') \<Longrightarrow>
    pipe_run p' (ws @ take (length src - length rest) src) rs"
| rd: "pipe_run p ws rs \<Longrightarrow> piperead killed n p = (r, cs, p') \<Longrightarrow> pipe_run p' ws (rs @ cs)"
| cl: "pipe_run p ws rs \<Longrightarrow> pipe_run (fst (pipeclose b p)) ws rs"

lemma pipeclose_queue: "contents (fst (pipeclose b p)) = contents p" "pipe_ok (fst (pipeclose b p)) = pipe_ok p"
  by (simp_all add: pipeclose_def contents_def pipe_ok_def Let_def)

lemma pipe_run_queue: "pipe_run p ws rs \<Longrightarrow> pipe_ok p \<and> ws = rs @ contents p"
proof (induction rule: pipe_run.induct)
  case (start junk)
  show ?case
    by (simp add: new_pipe_def pipe_ok_def contents_def)
next
  case (wr p ws rs killed src r rest p')
  then obtain d where "pipe_ok p'" "src = d @ rest" "contents p' = contents p @ d"
    using pipewrite_queue by blast
  with wr show ?case
    by simp
next
  case (rd p ws rs killed n r cs p')
  then show ?case
    using piperead_queue by fastforce
next
  case (cl p ws rs b)
  then show ?case
    by (simp add: pipeclose_queue)
qed

text \<open>
  C8: a pipe is a first-in first-out channel.  However reads, writes (whole or interrupted by sleeping) and closes are
  interleaved, the bytes read so far are the oldest of the bytes written so far, in order, with none lost,
  duplicated or invented; the bytes still to be read are those of the ring buffer, at most 512 of them, also after
  the 32-bit counters have wrapped around.
\<close>

theorem pipe_fifo:
  assumes "pipe_run p ws rs"
  shows "ws = rs @ contents p \<and> length (contents p) \<le> 512"
  using pipe_run_queue [OF assms] ring.bound by blast

theorem pipe_fifo_witness:
  "\<exists>p. pipe_run p [1, 2, 3] [1, 2] \<and> [1, 2, 3] = [1, 2] @ contents p"
proof -
  let ?p = "new_pipe (\<lambda>_. 0)"
  obtain r rest p1 where w: "pipewrite False [1, 2, 3] ?p = (r, rest, p1)"
    by (cases "pipewrite False [1, 2, 3] ?p")
  have new: "pipe_ok ?p" "contents ?p = []"
    by (simp_all add: new_pipe_def pipe_ok_def contents_def)
  obtain d where d: "pipe_ok p1" "[1, 2, 3] = d @ rest" "contents p1 = d" "rest \<noteq> [] \<longrightarrow> length d = 512"
    using pipewrite_queue [OF new(1) w] new(2) by auto
  have "length d \<le> 3"
    using arg_cong [OF d(2), of length] by simp
  then have p1: "rest = []" "contents p1 = [1, 2, 3]"
    using d(2-4) by auto
  have run1: "pipe_run p1 [1, 2, 3] []"
    using pipe_run.wr [OF pipe_run.start w] p1(1) by simp
  obtain r' cs p2 where rd: "piperead False 2 p1 = (r', cs, p2)"
    by (cases "piperead False 2 p1")
  have "[1, 2, 3] = cs @ contents p2" "length cs = 2"
    using piperead_queue [OF d(1) rd] p1(2) by auto
  then have "cs = take 2 [1, 2, 3]"
    by (metis append_eq_conv_conj)
  then have "cs = [1, 2]"
    by simp
  with pipe_run.rd [OF run1 rd] have "pipe_run p2 [1, 2, 3] [1, 2]"
    by simp
  then show ?thesis
    using pipe_fifo by blast
qed

text \<open>
  C23: nobody waits for nothing.  In no reachable state of a pipe would a writer and a reader both go to sleep; a reader
  sleeps only on an empty pipe with its write end open, so after the write end is closed a read returns at once with
  what is left (nothing at the end); and a writer sleeps only on a full pipe with its read end open.
\<close>

theorem pipe_no_deadlock:
  assumes "pipe_run p ws rs"
  shows "(case pipewrite k src p of (r, rest, p') \<Rightarrow>
      (r = Sleeping \<longrightarrow> readopen p \<and> length (contents p') = 512 \<and>
        (0 < n \<longrightarrow> fst (piperead k' n p') = Returned \<and> fst (snd (piperead k' n p')) \<noteq> []))) \<and>
    (case piperead k' n p of (r, cs, p') \<Rightarrow>
      (r = Sleeping \<longrightarrow> writeopen p \<and> contents p = [] \<and> (length src \<le> 512 \<longrightarrow> fst (pipewrite k src p) = Returned)) \<and>
      (\<not> writeopen p \<longrightarrow> r = Returned \<and> cs = take n (contents p)))"
proof -
  have p: "pipe_ok p"
    using pipe_run_queue [OF assms] by simp
  obtain r rest p1 where w: "pipewrite k src p = (r, rest, p1)"
    by (cases "pipewrite k src p")
  obtain r' cs p2 where rd: "piperead k' n p = (r', cs, p2)"
    by (cases "piperead k' n p")
  note W = pipewrite_queue [OF p w] and R = piperead_queue [OF p rd]
  have wake: "fst (piperead k' n p1) = Returned \<and> fst (snd (piperead k' n p1)) \<noteq> []" if "r = Sleeping" "0 < n"
  proof -
    have full: "length (contents p1) = 512" "pipe_ok p1"
      using W that(1) by blast+
    obtain r2 ds p3 where rd2: "piperead k' n p1 = (r2, ds, p3)"
      by (cases "piperead k' n p1")
    have ne: "contents p1 \<noteq> []"
      using full(1) by auto
    with piperead_queue [OF full(2) rd2] have "r2 = Returned" "length ds = min n 512"
      unfolding full(1) by blast+
    with that(2) show ?thesis
      unfolding rd2 by auto
  qed
  have fits: "r = Returned" if "contents p = []" "length src \<le> 512"
    using pipewrite_fits [OF p w] that by simp
  have eof: "r' = Returned \<and> cs = take n (contents p)" if "\<not> writeopen p"
    using piperead_some [OF p rd] that by blast
  have full: "readopen p \<and> length (contents p1) = 512" if "r = Sleeping"
    using W that by blast
  have empty: "writeopen p \<and> contents p = []" if "r' = Sleeping"
    using R that by blast
  show ?thesis
    unfolding w rd prod.case fst_conv
  proof (intro conjI impI)
    assume "r = Sleeping"
    from full [OF this] show "readopen p" "length (contents p1) = 512"
      by simp_all
    assume "0 < n"
    from wake [OF \<open>r = Sleeping\<close> this] show "fst (piperead k' n p1) = Returned" "fst (snd (piperead k' n p1)) \<noteq> []"
      by simp_all
  next
    assume "r' = Sleeping"
    from empty [OF this] show e: "writeopen p" "contents p = []"
      by simp_all
    assume "length src \<le> 512"
    from fits [OF e(2) this] show "r = Returned" .
  next
    assume "\<not> writeopen p"
    from eof [OF this] show "r' = Returned" "cs = take n (contents p)"
      by simp_all
  qed
qed

theorem pipe_no_deadlock_witness:
  "fst (piperead False 1 (new_pipe (\<lambda>_. 0))) = Sleeping \<and> fst (pipewrite False [7] (new_pipe (\<lambda>_. 0))) = Returned"
proof -
  have "fst (piperead False 1 (new_pipe (\<lambda>_. 0))) = Sleeping"
    by (simp add: piperead_def new_pipe_def)
  then show ?thesis
    using pipe_no_deadlock [OF pipe_run.start [of "\<lambda>_. 0"], where k = False and src = "[7]" and n = 1 and k' = False]
    by (cases "piperead False 1 (new_pipe (\<lambda>_. 0))") simp
qed

end
