(* ===== verification/File.thy ===== *)
theory File
  imports SysArgs Kalloc Pipe
begin

text \<open>
  \<^verbatim>\<open>src/kernel/file.c\<close> and the allocation of pipes: the table of open files, shared by all processes, and reading, writing and
  closing through it.  \<open>ofile\<close> is the descriptor table of the running process; the fields of \<open>pstate\<close> up to \<open>p_killed\<close> are
  that process, the others belong to the kernel.  A pipe lives in a page of its own, so it is named by the page's address.
\<close>

datatype fdtype = FD_NONE | FD_PIPE | FD_INODE

record open_file =
  f_type :: fdtype
  f_ref :: int
  readable :: bool
  writable :: bool
  f_pipe :: uint
  f_ip :: "nat option"
  f_off :: nat

record pstate = ustate +
  p_uid :: uint
  p_euid :: uint
  p_killed :: bool
  ofile :: "nat \<Rightarrow> nat option"
  ftable :: "nat \<Rightarrow> open_file"
  pipes :: "uint \<Rightarrow> pipe"
  km :: kmem
  stack_junk :: string

definition NFILE :: nat where "NFILE = 100"
definition NOFILE :: nat where "NOFILE = 16"

definition set_file :: "nat \<Rightarrow> open_file \<Rightarrow> 'a pstate_scheme \<Rightarrow> 'a pstate_scheme" where
  "set_file f v s = s\<lparr>ftable := (ftable s)(f := v)\<rparr>"

definition filealloc :: "'a pstate_scheme \<Rightarrow> nat option \<times> 'a pstate_scheme" where
  "filealloc s =
     (case find (\<lambda>f. f_ref (ftable s f) = 0) [0..<NFILE] of
        Some f \<Rightarrow> (Some f, set_file f ((ftable s f)\<lparr>f_ref := 1\<rparr>) s)
      | None \<Rightarrow> (None, s))"

definition filedup :: "nat \<Rightarrow> 'a pstate_scheme \<Rightarrow> 'a pstate_scheme option" where
  "filedup f s =
     (if f_ref (ftable s f) < 1 then panic ''filedup''
      else Some (set_file f ((ftable s f)\<lparr>f_ref := f_ref (ftable s f) + 1\<rparr>) s))"

text \<open>Closing one end of the pipe at \<open>p\<close>; its page is freed with the second end.\<close>

definition close_pipe :: "uint \<Rightarrow> bool \<Rightarrow> 'a pstate_scheme \<Rightarrow> 'a pstate_scheme option" where
  "close_pipe p w s =
     (case pipeclose w (pipes s p) of (v, freed) \<Rightarrow>
        let s = s\<lparr>pipes := (pipes s)(p := v)\<rparr> in
        if freed then map_option (\<lambda>k. s\<lparr>km := k\<rparr>) (kfree p (km s)) else Some s)"

definition fileclose :: "nat \<Rightarrow> 'a pstate_scheme \<Rightarrow> 'a pstate_scheme option" where
  "fileclose f s =
     (let ff = ftable s f in
      if f_ref ff < 1 then panic ''fileclose''
      else if f_ref ff - 1 > 0 then Some (set_file f (ff\<lparr>f_ref := f_ref ff - 1\<rparr>) s)
      else
        let s = set_file f (ff\<lparr>f_ref := 0, f_type := FD_NONE\<rparr>) s in
        case f_type ff of
          FD_PIPE \<Rightarrow> close_pipe (f_pipe ff) (writable ff) s
        | FD_INODE \<Rightarrow>
            (case f_ip ff of
               None \<Rightarrow> undefined_behaviour ''fileclose: null i-node''
             | Some ip \<Rightarrow> do {
                 s \<leftarrow> begin_op s;
                 s \<leftarrow> iput ip s;
                 end_op s
               })
        | FD_NONE \<Rightarrow> Some s)"

definition filestat :: "nat \<Rightarrow> 'a pstate_scheme \<Rightarrow> (int \<times> stat option \<times> 'a pstate_scheme) option" where
  "filestat f s =
     (if f_type (ftable s f) = FD_INODE then do {
        ip \<leftarrow> f_ip (ftable s f);
        s \<leftarrow> ilock (Some ip) s;
        let st = stati ip s;
        s \<leftarrow> iunlock (Some ip) s;
        Some (0, Some st, s)
      } else Some (-1, None, s))"

text \<open>\<^verbatim>\<open>f->off += r\<close>\<close>

definition advance :: "nat \<Rightarrow> int \<Rightarrow> 'a pstate_scheme \<Rightarrow> 'a pstate_scheme" where
  "advance f r s = set_file f ((ftable s f)\<lparr>f_off := (f_off (ftable s f) + nat r) mod 2 ^ 32\<rparr>) s"

definition fileread :: "('a pstate_scheme) devsw \<Rightarrow> nat \<Rightarrow> nat \<Rightarrow> 'a pstate_scheme \<Rightarrow>
    (int \<times> uchar list \<times> 'a pstate_scheme) option" where
  "fileread dv f n s =
     (if \<not> readable (ftable s f) then Some (-1, [], s)
      else case f_type (ftable s f) of
        FD_PIPE \<Rightarrow>
          (let p = f_pipe (ftable s f) in
           case piperead (p_killed s) n (pipes s p) of (r, bytes, v) \<Rightarrow>
             let s = s\<lparr>pipes := (pipes s)(p := v)\<rparr> in
             case r of
               Returned \<Rightarrow> Some (int (length bytes), bytes, s)
             | Failed \<Rightarrow> Some (-1, [], s)
             | Sleeping \<Rightarrow> blocked ''piperead'')
      | FD_INODE \<Rightarrow> do {
          ip \<leftarrow> f_ip (ftable s f);
          s \<leftarrow> ilock (Some ip) s;
          (r, bytes, s) \<leftarrow> readi dv ip (f_off (ftable s f)) n s;
          let s = (if r > 0 then advance f r s else s);
          s \<leftarrow> iunlock (Some ip) s;
          Some (r, bytes, s)
        }
      | FD_NONE \<Rightarrow> panic ''fileread'')"

text \<open>\<^verbatim>\<open>((MAXOPBLOCKS-1-1-2) / 2) * 512\<close>\<close>

definition max_write :: nat where
  "max_write = (MAXOPBLOCKS - 1 - 1 - 2) div 2 * 512"

lemma max_write_pos: "0 < max_write"
  by (simp add: max_write_def MAXOPBLOCKS_def)

function (sequential) filewrite_loop :: "('a pstate_scheme) devsw \<Rightarrow> nat \<Rightarrow> nat \<Rightarrow> uchar list \<Rightarrow> 'a pstate_scheme \<Rightarrow>
    (bool \<times> 'a pstate_scheme) option" where
  "filewrite_loop dv f ip src s =
     (if src = [] then Some (True, s)
      else do {
        let n1 = min (length src) max_write;
        s \<leftarrow> begin_op s;
        s \<leftarrow> ilock (Some ip) s;
        (r, s) \<leftarrow> writei dv ip (take n1 src) (f_off (ftable s f)) s;
        let s = (if r > 0 then advance f r s else s);
        s \<leftarrow> iunlock (Some ip) s;
        s \<leftarrow> end_op s;
        if r < 0 then Some (False, s)
        else if r \<noteq> int n1 then panic ''short filewrite''
        else filewrite_loop dv f ip (drop n1 src) s
      })"
  by pat_completeness auto
termination
  by (relation "measure (\<lambda>(dv, f, ip, src, s). length src)") (use max_write_pos in \<open>auto simp: min_def\<close>)

declare filewrite_loop.simps [simp del]

definition filewrite :: "('a pstate_scheme) devsw \<Rightarrow> nat \<Rightarrow> uchar list \<Rightarrow> 'a pstate_scheme \<Rightarrow>
    (int \<times> 'a pstate_scheme) option" where
  "filewrite dv f src s =
     (if \<not> writable (ftable s f) then Some (-1, s)
      else case f_type (ftable s f) of
        FD_PIPE \<Rightarrow>
          (let p = f_pipe (ftable s f) in
           case pipewrite (p_killed s) src (pipes s p) of (r, _, v) \<Rightarrow>
             let s = s\<lparr>pipes := (pipes s)(p := v)\<rparr> in
             case r of
               Returned \<Rightarrow> Some (int (length src), s)
             | Failed \<Rightarrow> Some (-1, s)
             | Sleeping \<Rightarrow> blocked ''pipewrite'')
      | FD_INODE \<Rightarrow> do {
          ip \<leftarrow> f_ip (ftable s f);
          (all, s) \<leftarrow> filewrite_loop dv f ip src s;
          Some (if all then int (length src) else -1, s)
        }
      | FD_NONE \<Rightarrow> panic ''filewrite'')"

text \<open>\<^verbatim>\<open>pipealloc\<close>: the two files, the reading and the writing end, or nothing.\<close>

definition pipealloc :: "'a pstate_scheme \<Rightarrow> ((nat \<times> nat) option \<times> 'a pstate_scheme) option" where
  "pipealloc s =
     (case filealloc s of
        (None, s) \<Rightarrow> Some (None, s)
      | (Some f0, s) \<Rightarrow>
          (case filealloc s of
             (None, s) \<Rightarrow> do { s \<leftarrow> fileclose f0 s; Some (None, s) }
           | (Some f1, s) \<Rightarrow>
               (case kalloc (km s) of (p, k) \<Rightarrow>
                  if p = 0 then do {
                    s \<leftarrow> fileclose f0 (s\<lparr>km := k\<rparr>);
                    s \<leftarrow> fileclose f1 s;
                    Some (None, s)
                  } else
                    let s = s\<lparr>km := k, pipes := (pipes s)(p := new_pipe (pdata (pipes s p)))\<rparr>;
                        s = set_file f0 ((ftable s f0)\<lparr>f_type := FD_PIPE, readable := True, writable := False, f_pipe := p\<rparr>) s;
                        s = set_file f1 ((ftable s f1)\<lparr>f_type := FD_PIPE, readable := False, writable := True, f_pipe := p\<rparr>) s
                    in Some (Some (f0, f1), s))))"

text \<open>\<^verbatim>\<open>fdalloc\<close> of \<^verbatim>\<open>src/kernel/sysfile.c\<close>: the lowest free descriptor.\<close>

definition fdalloc :: "nat \<Rightarrow> 'a pstate_scheme \<Rightarrow> nat option \<times> 'a pstate_scheme" where
  "fdalloc f s =
     (case find (\<lambda>fd. ofile s fd = None) [0..<NOFILE] of
        Some fd \<Rightarrow> (Some fd, s\<lparr>ofile := (ofile s)(fd := Some f)\<rparr>)
      | None \<Rightarrow> (None, s))"

section \<open>The file table\<close>

lemma set_file_sel [simp]:
  "ftable (set_file f v s) = (ftable s)(f := v)" "ofile (set_file f v s) = ofile s" "pipes (set_file f v s) = pipes s"
  "km (set_file f v s) = km s" "p_killed (set_file f v s) = p_killed s" "p_uid (set_file f v s) = p_uid s"
  "umem (set_file f v s) = umem s"
  by (simp_all add: set_file_def)

lemma filealloc_Some:
  assumes "filealloc s = (Some f, s')"
  shows "f < NFILE" "f_ref (ftable s f) = 0" "s' = set_file f ((ftable s f)\<lparr>f_ref := 1\<rparr>) s"
  using assms by (auto simp: filealloc_def find_upt_Some split: option.splits)

lemma filealloc_None: "filealloc s = (None, s') \<Longrightarrow> s' = s \<and> (\<forall>f<NFILE. f_ref (ftable s f) \<noteq> 0)"
  by (auto simp: filealloc_def find_None_iff split: option.splits)

lemma fdalloc_Some:
  assumes "fdalloc f s = (Some fd, s')"
  shows "fd < NOFILE" "ofile s fd = None" "\<And>i. i < fd \<Longrightarrow> ofile s i \<noteq> None" "s' = s\<lparr>ofile := (ofile s)(fd := Some f)\<rparr>"
  using assms by (auto simp: fdalloc_def find_upt_Some split: option.splits)

lemma fdalloc_None: "fdalloc f s = (None, s') \<Longrightarrow> s' = s \<and> (\<forall>fd<NOFILE. ofile s fd \<noteq> None)"
  by (auto simp: fdalloc_def find_None_iff split: option.splits)

section \<open>A pipe seen through the file table\<close>

lemma pipealloc_Some:
  assumes "pipealloc s = Some (Some (f0, f1), s')"
  obtains p where "f0 \<noteq> f1" "f_type (ftable s' f0) = FD_PIPE" "f_type (ftable s' f1) = FD_PIPE"
    "readable (ftable s' f0)" "\<not> writable (ftable s' f0)" "writable (ftable s' f1)" "\<not> readable (ftable s' f1)"
    "f_pipe (ftable s' f0) = p" "f_pipe (ftable s' f1) = p" "pipes s' p = new_pipe (pdata (pipes s p))"
    "p_killed s' = p_killed s" "ofile s' = ofile s"
    "\<And>f. f \<noteq> f0 \<Longrightarrow> f \<noteq> f1 \<Longrightarrow> ftable s' f = ftable s f" "f_ref (ftable s' f0) = 1" "f_ref (ftable s' f1) = 1"
    "f_ref (ftable s f0) = 0" "f_ref (ftable s f1) = 0" "f0 < NFILE" "f1 < NFILE"
proof -
  obtain s1 where a: "filealloc s = (Some f0, s1)"
    using assms by (auto simp: pipealloc_def bind_eq_Some_conv Let_def split: prod.splits option.splits if_splits)
  then obtain s2 where b: "filealloc s1 = (Some f1, s2)"
    using assms by (auto simp: pipealloc_def bind_eq_Some_conv Let_def split: prod.splits option.splits if_splits)
  note fa = filealloc_Some [OF a] filealloc_Some [OF b]
  obtain p k where k: "kalloc (km s2) = (p, k)"
    by (cases "kalloc (km s2)")
  have ne: "f0 \<noteq> f1"
    using fa(3,5) by auto
  have "p \<noteq> 0"
    using assms a b k by (auto simp: pipealloc_def bind_eq_Some_conv)
  then have "s' = (let s = s2\<lparr>km := k, pipes := (pipes s2)(p := new_pipe (pdata (pipes s2 p)))\<rparr>;
      s = set_file f0 ((ftable s f0)\<lparr>f_type := FD_PIPE, readable := True, writable := False, f_pipe := p\<rparr>) s
      in set_file f1 ((ftable s f1)\<lparr>f_type := FD_PIPE, readable := False, writable := True, f_pipe := p\<rparr>) s)"
    using assms a b k by (simp add: pipealloc_def Let_def)
  then show ?thesis
    using ne fa by (intro that [of p]) (auto simp: Let_def)
qed

text \<open>
  C32: bytes through a pipe.  After \<^verbatim>\<open>pipealloc\<close> has made two files, writing at most 512 bytes to the second returns their
  number at once, and reading from the first then returns at once with the first bytes written, in order; the ends cannot
  be used the other way round.
\<close>

theorem pipe_roundtrip:
  assumes "pipealloc s = Some (Some (f0, f1), s1)" "src \<noteq> []" "length src \<le> 512"
  shows "(\<exists>s2 s3. filewrite dv f1 src s1 = Some (int (length src), s2) \<and>
      fileread dv f0 n s2 = Some (int (min n (length src)), take n src, s3)) \<and>
    filewrite dv f0 src s1 = Some (-1, s1) \<and> fileread dv f1 n s1 = Some (-1, [], s1)"
proof -
  obtain p where p: "f0 \<noteq> f1" "f_type (ftable s1 f0) = FD_PIPE" "f_type (ftable s1 f1) = FD_PIPE"
    "readable (ftable s1 f0)" "\<not> writable (ftable s1 f0)" "writable (ftable s1 f1)" "\<not> readable (ftable s1 f1)"
    "f_pipe (ftable s1 f0) = p" "f_pipe (ftable s1 f1) = p" "pipes s1 p = new_pipe (pdata (pipes s p))"
    by (rule pipealloc_Some [OF assms(1)]) blast
  let ?v = "new_pipe (pdata (pipes s p))"
  have new: "pipe_ok ?v" "contents ?v = []"
    using pipe_run_queue [OF pipe_run.start] by simp_all
  obtain r rest v where w: "pipewrite (p_killed s1) src ?v = (r, rest, v)"
    by (cases "pipewrite (p_killed s1) src ?v")
  have v: "r = Returned \<and> pipe_ok v \<and> contents v = src"
    using pipewrite_fits [OF new(1) w] new(2) assms(3) by simp
  let ?s2 = "s1\<lparr>pipes := (pipes s1)(p := v)\<rparr>"
  obtain r' cs q where rd: "piperead (p_killed s1) n v = (r', cs, q)"
    by (cases "piperead (p_killed s1) n v")
  have q: "r' = Returned \<and> cs = take n src"
    using piperead_some [of v "p_killed s1" n r' cs q] v rd assms(2) by simp
  have "filewrite dv f1 src s1 = Some (int (length src), ?s2)"
    using p w v by (simp add: filewrite_def Let_def)
  moreover have "\<exists>s3. fileread dv f0 n ?s2 = Some (int (min n (length src)), take n src, s3)"
    using p rd q by (simp add: fileread_def Let_def)
  ultimately show ?thesis
    using p by (auto simp: filewrite_def fileread_def)
qed

definition no_drivers :: "'s devsw" where
  "no_drivers = \<lparr>dev_read = (\<lambda>_. None), dev_write = (\<lambda>_. None)\<rparr>"

text \<open>A process of user 1000 on a freshly booted machine.\<close>

definition closed_file :: open_file where
  "closed_file = \<lparr>f_type = FD_NONE, f_ref = 0, readable = False, writable = False, f_pipe = 0, f_ip = None, f_off = 0\<rparr>"

definition boot_proc :: "(nat \<Rightarrow> block) \<Rightarrow> (uint \<Rightarrow> uchar) \<Rightarrow> pstate" where
  "boot_proc d m = boot_fs \<lparr>icache = (\<lambda>_. \<lparr>i_dev = 0, inum = 0, iref = 0, ilk = initsleeplock, ivalid = False, i_uid = 0,
       i_gid = 0, i_mode = 0, i_type = 0, major = 0, minor = 0, nlink = 0, i_size = 0, addrs = (\<lambda>_. 0)\<rparr>), cwd = 0,
     psz = 64, tf_esp = 16, umem = m, p_uid = 1000, p_euid = 1000, p_killed = False, ofile = (\<lambda>_. None),
     ftable = (\<lambda>_. closed_file), pipes = (\<lambda>_. new_pipe (\<lambda>_. 0)), km = sample_kmem, stack_junk = []\<rparr> d"

lemma boot_proc_sel [simp]:
  "cwd (boot_proc d m) = 0" "psz (boot_proc d m) = 64" "tf_esp (boot_proc d m) = 16" "umem (boot_proc d m) = m"
  "p_uid (boot_proc d m) = 1000" "p_killed (boot_proc d m) = False" "ofile (boot_proc d m) = (\<lambda>_. None)"
  "ftable (boot_proc d m) = (\<lambda>_. closed_file)" "pipes (boot_proc d m) = (\<lambda>_. new_pipe (\<lambda>_. 0))"
  "km (boot_proc d m) = sample_kmem" "stack_junk (boot_proc d m) = []"
  by (simp_all add: boot_proc_def boot_fs_def boot_log_def binit_eq)

lemma boot_pipealloc: "\<exists>s1. pipealloc (boot_proc d m) = Some (Some (0, 1), s1)"
  by (simp add: pipealloc_def filealloc_def NFILE_def upt_conv_Cons closed_file_def kalloc_def sample_kmem_def Let_def)

theorem pipe_roundtrip_witness:
  "\<exists>s1. pipealloc (boot_proc (\<lambda>_ _. 0) (\<lambda>_. 0)) = Some (Some (0, 1), s1) \<and>
     (\<exists>s2 s3. filewrite no_drivers 1 [1, 2, 3] s1 = Some (3, s2) \<and> fileread no_drivers 0 2 s2 = Some (2, [1, 2], s3))"
proof -
  obtain s1 where "pipealloc (boot_proc (\<lambda>_ _. 0) (\<lambda>_. 0)) = Some (Some (0, 1), s1)"
    using boot_pipealloc by blast
  then show ?thesis
    using pipe_roundtrip [of _ 0 1 s1 "[1, 2, 3]" no_drivers 2] by fastforce
qed

end
