(* ===== verification/Frames.thy ===== *)
theory Frames
  imports Dir
begin

text \<open>
  What the file system leaves alone.  The operations of \<^verbatim>\<open>bio.c\<close>, \<^verbatim>\<open>log.c\<close> and \<^verbatim>\<open>fs.c\<close> change the buffer cache, the disk, the
  log and the i-node cache; everything a later layer adds to the state (the process, the file table, the pipes) keeps its
  value.  \<open>keeps s s'\<close> says so of two states.
\<close>

definition keeps :: "'a kstate_scheme \<Rightarrow> 'a kstate_scheme \<Rightarrow> bool" where
  "keeps s s' \<longleftrightarrow> mypid s' = mypid s \<and> sb s' = sb s \<and> kstate.more s' = kstate.more s"

named_theorems frames \<open>calls that keep the outer state\<close>

declare keeps_def [simp]

lemma set_outer [simp]:
  "mypid (set_buf i b s) = mypid s" "sb (set_buf i b t) = sb t" "kstate.more (set_buf i b t) = kstate.more t"
  "mypid (set_data i d s) = mypid s" "sb (set_data i d t) = sb t" "kstate.more (set_data i d t) = kstate.more t"
  by (simp_all add: set_buf_def set_data_def)

lemma keeps_mfold:
  assumes "mfold f xs s = Some s'" "\<And>x s s'. f x s = Some s' \<Longrightarrow> keeps s s'"
  shows "keeps s s'"
  using assms(1)
proof (induction xs arbitrary: s)
  case (Cons x xs)
  then obtain t where "f x s = Some t" "mfold f xs t = Some s'"
    by (auto simp: bind_eq_Some_conv)
  then show ?case
    using Cons.IH [of t] assms(2) [of x s t] by simp
qed simp

section \<open>Buffers and the log\<close>

lemma iderw_keeps [frames]: "iderw i s = Some s' \<Longrightarrow> keeps s s'"
  by (auto simp: iderw_def Let_def split: if_splits)

lemma bget_keeps [frames]: "bget d n s = Some (i, s') \<Longrightarrow> keeps s s'"
  by (auto simp: bget_def Let_def bind_eq_Some_conv split: option.splits)

lemma bread_keeps [frames]: "bread d n s = Some (i, s') \<Longrightarrow> keeps s s'"
  by (auto simp: bread_def bind_eq_Some_conv split: if_splits dest!: frames)

lemma bwrite_keeps [frames]: "bwrite i s = Some s' \<Longrightarrow> keeps s s'"
  by (auto simp: bwrite_def split: if_splits dest!: frames)

lemma brelse_keeps [frames]: "brelse i s = Some s' \<Longrightarrow> keeps s s'"
  by (auto simp: brelse_def Let_def split: if_splits)

lemma install_trans_keeps [frames]: "install_trans s = Some s' \<Longrightarrow> keeps s s'"
  unfolding install_trans_def
  by (erule keeps_mfold) (auto simp: install_step_def Let_def bind_eq_Some_conv dest!: frames)

lemma write_log_keeps [frames]: "write_log s = Some s' \<Longrightarrow> keeps s s'"
  unfolding write_log_def
  by (erule keeps_mfold) (auto simp: write_log_step_def Let_def bind_eq_Some_conv dest!: frames)

lemma write_head_keeps [frames]: "write_head s = Some s' \<Longrightarrow> keeps s s'"
  by (auto simp: write_head_def Let_def bind_eq_Some_conv dest!: frames)

lemma log_write_keeps [frames]: "log_write b s = Some s' \<Longrightarrow> keeps s s'"
  by (auto simp: log_write_def Let_def split: if_splits)

lemma commit_keeps [frames]: "commit s = Some s' \<Longrightarrow> keeps s s'"
  by (auto simp: commit_def bind_eq_Some_conv split: if_splits dest!: frames)

lemma begin_op_keeps [frames]: "begin_op s = Some s' \<Longrightarrow> keeps s s'"
  by (auto simp: begin_op_def split: if_splits)

lemma end_op_keeps [frames]: "end_op s = Some s' \<Longrightarrow> keeps s s'"
  by (auto simp: end_op_def Let_def bind_eq_Some_conv split: if_splits dest!: frames)

section \<open>Blocks and i-nodes\<close>

lemma bzero_keeps [frames]: "bzero d n s = Some s' \<Longrightarrow> keeps s s'"
  by (auto simp: bzero_def Let_def bind_eq_Some_conv dest!: frames)

lemma balloc_found_keeps [frames]: "balloc_found d b bp bi s = Some (a, s') \<Longrightarrow> keeps s s'"
  by (auto simp: balloc_found_def Let_def bind_eq_Some_conv dest!: frames)

lemma balloc_from_keeps: "balloc_from d b s = Some r \<Longrightarrow> keeps s (snd r)"
proof (erule balloc_from.raw_induct [where P = "\<lambda>d b s r. keeps s (snd r)", rotated])
  fix f d b s r
  assume IH: "\<And>d b (s :: 'a kstate_scheme) r. f d b s = Some r \<Longrightarrow> keeps s (snd r)"
    and "(if b < sb_size (sb s) then do {
        (bp, s) \<leftarrow> bread d (BBLOCK b (sb s)) s;
        (case find (\<lambda>bi. \<not> bit_used (data (bufs s bp)) bi) [0..<min BPB (sb_size (sb s) - b)] of
           Some bi \<Rightarrow> balloc_found d b bp bi s
         | None \<Rightarrow> do { s \<leftarrow> brelse bp s; f d (b + BPB) s })
      } else panic ''balloc: out of blocks'') = Some r"
  then show "keeps s (snd r)"
    by (cases r) (auto simp: bind_eq_Some_conv split: if_splits option.splits dest!: frames IH)
qed

lemma balloc_keeps [frames]: "balloc d s = Some (a, s') \<Longrightarrow> keeps s s'"
  using balloc_from_keeps [of d 0 s "(a, s')"] by (simp add: balloc_def)

lemma bfree_keeps [frames]: "bfree d b s = Some s' \<Longrightarrow> keeps s s'"
  by (auto simp: bfree_def Let_def bind_eq_Some_conv split: if_splits dest!: frames)

section \<open>I-nodes\<close>

text \<open>One layer up the i-node cache changes too.\<close>

definition outer :: "'a fstate_scheme \<Rightarrow> 'a fstate_scheme \<Rightarrow> bool" where
  "outer s s' \<longleftrightarrow> mypid s' = mypid s \<and> sb s' = sb s \<and> fstate.more s' = fstate.more s"

declare outer_def [simp]

lemma keepsD: "keeps s (s' :: 'a fstate_scheme) \<Longrightarrow> outer s s' \<and> icache s' = icache s"
  by (cases s; cases s') simp

lemmas block_frames = frames [THEN keepsD, THEN conjunct1]

lemma set_inode_outer [simp]:
  "mypid (set_inode ip v s) = mypid s" "sb (set_inode ip v s) = sb s" "fstate.more (set_inode ip v s) = fstate.more s"
  "icache (set_inode ip v s) = (icache s)(ip := v)"
  "mypid (set_addr ip k a s) = mypid s" "sb (set_addr ip k a s) = sb s" "fstate.more (set_addr ip k a s) = fstate.more s"
  by (simp_all add: set_inode_def set_addr_def)

lemma set_buf_icache [simp]:
  "icache (set_buf i b s) = icache s" "fstate.more (set_buf i b s) = fstate.more s"
  "icache (set_data i d s) = icache s" "fstate.more (set_data i d s) = fstate.more s"
  by (simp_all add: set_data_def set_buf_def)

named_theorems iframes \<open>calls that keep the outer state and may change i-nodes\<close>

lemma iget_outer [iframes]: "iget d i s = Some (ip, s') \<Longrightarrow> outer s s'"
  by (auto simp: iget_def split: option.splits)

lemma iupdate_outer [iframes]: "iupdate ip s = Some s' \<Longrightarrow> outer s s'"
  by (auto simp: iupdate_def Let_def bind_eq_Some_conv dest!: block_frames)

lemma ialloc_loop_outer: "ialloc_loop d t is s = Some (ip, s') \<Longrightarrow> outer s s'"
proof (induction "is" arbitrary: s)
  case (Cons i "is")
  from Cons.prems show ?case
    by (auto simp: Let_def bind_eq_Some_conv split: if_splits dest!: block_frames iframes Cons.IH)
qed simp

lemma ialloc_outer [iframes]: "ialloc d t s = Some (ip, s') \<Longrightarrow> outer s s'"
  unfolding ialloc_def by (rule ialloc_loop_outer)

lemma idup_outer [simp]: "mypid (idup ip s) = mypid s" "sb (idup ip s) = sb s" "fstate.more (idup ip s) = fstate.more s"
  by (simp_all add: idup_def)

lemma ilock_outer [iframes]: "ilock p s = Some s' \<Longrightarrow> outer s s'"
proof (cases p)
  case (Some ip)
  assume "ilock p s = Some s'"
  then show ?thesis
    using Some
    by (cases "ivalid (icache s ip)") (auto simp: ilock_def Let_def bind_eq_Some_conv split: if_splits dest!: block_frames)
qed (simp add: ilock_def)

lemma iunlock_outer [iframes]: "iunlock p s = Some s' \<Longrightarrow> outer s s'"
  by (auto simp: iunlock_def split: option.splits if_splits)

lemma outer_mfold:
  assumes "mfold f xs s = Some s'" "\<And>x s s'. f x s = Some s' \<Longrightarrow> outer s s'"
  shows "outer s s'"
  using assms(1)
proof (induction xs arbitrary: s)
  case (Cons x xs)
  then obtain t where "f x s = Some t" "mfold f xs t = Some s'"
    by (auto simp: bind_eq_Some_conv)
  then show ?case
    using Cons.IH [of t] assms(2) [of x s t] by simp
qed simp

lemma free_direct_outer: "mfold (free_direct ip) is s = Some s' \<Longrightarrow> outer s s'"
  by (erule outer_mfold) (auto simp: free_direct_def bind_eq_Some_conv split: if_splits dest!: block_frames)

lemma free_indirect_outer: "mfold (free_indirect d bp) is s = Some s' \<Longrightarrow> outer s s'"
  by (erule outer_mfold) (auto simp: free_indirect_def Let_def split: if_splits dest!: block_frames)

lemma itrunc_outer [iframes]: "itrunc ip s = Some s' \<Longrightarrow> outer s s'"
  by (auto simp: itrunc_def Let_def bind_eq_Some_conv split: if_splits
    dest!: block_frames iframes free_direct_outer free_indirect_outer)

lemma iput_outer [iframes]: "iput ip s = Some s' \<Longrightarrow> outer s s'"
  by (auto simp: iput_def Let_def bind_eq_Some_conv split: if_splits dest!: iframes)

lemma iunlockput_outer [iframes]: "iunlockput ip s = Some s' \<Longrightarrow> outer s s'"
  by (auto simp: iunlockput_def bind_eq_Some_conv dest!: iframes)

section \<open>Files and directories\<close>

text \<open>Reading and writing a file also keep the type of every cached i-node; a driver runs only for a device file.\<close>

definition contents_only :: "'a fstate_scheme \<Rightarrow> 'a fstate_scheme \<Rightarrow> bool" where
  "contents_only s s' \<longleftrightarrow> outer s s' \<and> (\<forall>ip. i_type (icache s' ip) = i_type (icache s ip))"

lemma contents_only_refl [simp]: "contents_only s s"
  by (simp add: contents_only_def)

lemma contents_only_trans: "contents_only s t \<Longrightarrow> contents_only t u \<Longrightarrow> contents_only s u"
  by (simp add: contents_only_def)

lemma keeps_contents: "keeps s s' \<Longrightarrow> contents_only s s'"
  using keepsD [of s s'] by (simp add: contents_only_def)

lemma contents_only_set [simp]:
  "contents_only s (set_data i d t) = contents_only s t" "contents_only (set_data i d t) s = contents_only t s"
  "contents_only s (set_addr ip k a t) = contents_only s t"
  by (auto simp: contents_only_def set_addr_def)

lemmas content_frames = frames [THEN keeps_contents]

lemma bmap_slot_contents: "bmap_slot ip i s = Some (a, s') \<Longrightarrow> contents_only s s'"
  by (auto simp: bmap_slot_def bind_eq_Some_conv split: if_splits dest!: content_frames)

lemma bmap_indirect_contents: "bmap_indirect d bp n s = Some (a, s') \<Longrightarrow> contents_only s s'"
  by (auto simp: bmap_indirect_def Let_def bind_eq_Some_conv split: if_splits dest!: content_frames
    intro: contents_only_trans)

lemma bmap_contents: "bmap ip n s = Some (a, s') \<Longrightarrow> contents_only s s'"
  unfolding bmap_def
  by (auto simp: bind_eq_Some_conv split: if_splits
    dest!: content_frames bmap_slot_contents bmap_indirect_contents intro: contents_only_trans)

lemma readi_loop_contents: "readi_loop ip off n s = Some (bs, s') \<Longrightarrow> contents_only s s'"
proof (induction n arbitrary: off s bs rule: less_induct)
  case (less n)
  show ?case
  proof (cases "n = 0")
    case False
    with less.prems obtain a s1 bp s2 s3 rest where
      "bmap ip (off div BSIZE) s = Some (a, s1)" "bread (i_dev (icache s1 ip)) a s1 = Some (bp, s2)"
      "brelse bp s2 = Some s3" "readi_loop ip (off + chunk n off) (n - chunk n off) s3 = Some (rest, s')"
      by (subst (asm) readi_loop.simps) (auto simp: bind_eq_Some_conv Let_def)
    moreover from this(4) have "contents_only s3 s'"
      by (rule less.IH [rotated]) (use False chunk_pos [of n off] in simp)
    ultimately show ?thesis
      by (auto dest!: content_frames bmap_contents) (simp add: contents_only_def)
  qed (use less.prems in \<open>simp add: readi_loop.simps\<close>)
qed

lemma writei_loop_contents: "writei_loop ip src off s = Some (r, s') \<Longrightarrow> contents_only s s'"
proof (induction "length src" arbitrary: src off s rule: less_induct)
  case less
  show ?case
  proof (cases "src = []")
    case False
    let ?n = "chunk (length src) off"
    from False less.prems obtain a s1 bp s2 s3 s4 where
      "bmap ip (off div BSIZE) s = Some (a, s1)" "bread (i_dev (icache s1 ip)) a s1 = Some (bp, s2)"
      "log_write bp (set_data bp (write_bytes (data (bufs s2 bp)) (off mod BSIZE) (take ?n src)) s2) = Some s3"
      "brelse bp s3 = Some s4" "writei_loop ip (drop ?n src) (off + ?n) s4 = Some (r, s')"
      by (subst (asm) writei_loop.simps) (auto simp: bind_eq_Some_conv Let_def)
    moreover from this(5) have "contents_only s4 s'"
      by (rule less.hyps [rotated]) (use False chunk_pos [of "length src" off] in simp)
    ultimately show ?thesis
      by (auto dest!: content_frames bmap_contents) (simp add: contents_only_def)
  qed (use less.prems in \<open>simp add: writei_loop.simps\<close>)
qed

lemma readi_contents:
  "readi dv ip off n s = Some (r, bs, s') \<Longrightarrow> i_type (icache s ip) \<noteq> T_DEV \<Longrightarrow> contents_only s s'"
  by (auto simp: readi_def Let_def bind_eq_Some_conv split: if_splits dest!: readi_loop_contents)

lemma iupdate_contents: "iupdate ip s = Some s' \<Longrightarrow> contents_only s s'"
  by (auto simp: iupdate_def Let_def bind_eq_Some_conv dest!: content_frames) (simp add: contents_only_def)

lemma writei_contents:
  "writei dv ip src off s = Some (r, s') \<Longrightarrow> i_type (icache s ip) \<noteq> T_DEV \<Longrightarrow> contents_only s s'"
  by (auto simp: writei_def Let_def bind_eq_Some_conv split: if_splits dest!: writei_loop_contents iupdate_contents)
    (auto simp: contents_only_def)

lemma iget_types: "iget d i s = Some (ip, s') \<Longrightarrow> contents_only s s'"
  by (auto simp: iget_def contents_only_def split: option.splits)

lemma dirlookup_loop_contents:
  "dirlookup_loop dv dp name offs s = Some (r, off, s') \<Longrightarrow> i_type (icache s dp) = T_DIR \<Longrightarrow> contents_only s s'"
proof (induction offs arbitrary: s)
  case (Cons o' offs)
  obtain n bs s1 where rd: "readi dv dp o' 16 s = Some (n, bs, s1)"
    using Cons.prems(1) by (auto simp: bind_eq_Some_conv)
  then have c: "contents_only s s1"
    using Cons.prems(2) by (auto intro: readi_contents simp: T_DIR_def T_DEV_def)
  then have t: "i_type (icache s1 dp) = T_DIR"
    using Cons.prems(2) by (simp add: contents_only_def)
  from Cons.prems(1) rd c show ?case
    by (auto simp: bind_eq_Some_conv Let_def split: if_splits
      dest!: iget_types Cons.IH [OF _ t] intro: contents_only_trans)
qed simp

lemma dirlookup_contents:
  "dirlookup dv dp name s = Some (r, off, s') \<Longrightarrow> contents_only s s' \<and> i_type (icache s dp) = T_DIR"
  by (auto simp: dirlookup_def split: if_splits dest!: dirlookup_loop_contents)

lemma contents_outer: "contents_only s s' \<Longrightarrow> outer s s'"
  by (simp add: contents_only_def)

lemma dirlookup_outer [iframes]: "dirlookup dv dp name s = Some (r, off, s') \<Longrightarrow> outer s s'"
  using dirlookup_contents contents_outer by blast

lemma empty_entry_outer:
  "empty_entry dv dp offs s = Some (off, s') \<Longrightarrow> i_type (icache s dp) = T_DIR \<Longrightarrow> contents_only s s'"
proof (induction offs arbitrary: s)
  case (Cons o' offs)
  obtain n bs s1 where rd: "readi dv dp o' 16 s = Some (n, bs, s1)"
    using Cons.prems(1) by (auto simp: bind_eq_Some_conv)
  then have c: "contents_only s s1"
    using Cons.prems(2) by (auto intro: readi_contents simp: T_DIR_def T_DEV_def)
  then have t: "i_type (icache s1 dp) = T_DIR"
    using Cons.prems(2) by (simp add: contents_only_def)
  from Cons.prems(1) rd c show ?case
    by (auto split: if_splits dest: Cons.IH [OF _ t] contents_only_trans)
qed simp

lemma dirlink_outer [iframes]: "dirlink dv dp name i s = Some (r, s') \<Longrightarrow> outer s s'"
proof -
  assume d: "dirlink dv dp name i s = Some (r, s')"
  then obtain q off s1 where l: "dirlookup dv dp name s = Some (q, off, s1)"
    by (auto simp: dirlink_def bind_eq_Some_conv)
  note c = dirlookup_contents [OF l]
  show ?thesis
  proof (cases q)
    case None
    with d l obtain off s2 where e: "empty_entry dv dp (entry_offs 0 (i_size (icache s1 dp))) s1 = Some (off, s2)"
      and w: "\<exists>n. writei dv dp (dirent_bytes i name) off s2 = Some (n, s')"
      by (auto simp: dirlink_def bind_eq_Some_conv split: if_splits)
    have c2: "contents_only s1 s2"
      using empty_entry_outer [OF e] c by (simp add: contents_only_def)
    then have "i_type (icache s2 dp) \<noteq> T_DEV"
      using c by (simp add: contents_only_def T_DIR_def T_DEV_def)
    then have "contents_only s2 s'"
      using w writei_contents by blast
    then show ?thesis
      using c c2 by (simp add: contents_only_def)
  next
    case (Some ip)
    with d l c show ?thesis
      by (auto simp: dirlink_def bind_eq_Some_conv contents_only_def dest!: iframes)
  qed
qed

lemma namex_elems_outer: "namex_elems dv es par name ip s = Some (r, n, s') \<Longrightarrow> outer s s'"
proof (induction es arbitrary: name ip s)
  case (Cons e es)
  from Cons.prems show ?case
    by (auto simp: bind_eq_Some_conv split: if_splits option.splits dest!: iframes Cons.IH)
qed (auto simp: bind_eq_Some_conv split: if_splits dest!: iframes)

lemma namex_outer [iframes]: "namex dv path par name s = Some (r, n, s') \<Longrightarrow> outer s s'"
  by (auto simp: namex_def namex_loop_walk bind_eq_Some_conv split: if_splits dest!: iframes namex_elems_outer)

lemma namei_outer [iframes]: "namei dv path s = Some (r, s') \<Longrightarrow> outer s s'"
  by (auto simp: namei_def bind_eq_Some_conv dest!: iframes)

lemma nameiparent_outer [iframes]: "nameiparent dv path name s = Some (r, n, s') \<Longrightarrow> outer s s'"
  by (auto simp: nameiparent_def dest!: iframes)

end
