(* ===== verification/SysFile.thy ===== *)
theory SysFile
  imports File Frames
begin

text \<open>
  \<^verbatim>\<open>src/kernel/sysfile.c\<close>: the file-system calls.  A handler fetches its arguments from the memory of the process, as the code
  does, and returns the value left in \<^verbatim>\<open>%eax\<close> with the new state; \<open>None\<close> means that the kernel panics, dereferences a null
  pointer or waits.  \<open>dv\<close> is the table of device drivers.  The permission checks that this variant of xv6 adds are part of
  the handlers.
\<close>

section \<open>Descriptors\<close>

definition argfd :: "nat \<Rightarrow> 'a pstate_scheme \<Rightarrow> (nat \<times> nat) option" where
  "argfd n s =
     (case argint n s of
        None \<Rightarrow> None
      | Some w \<Rightarrow>
          if sint w < 0 \<or> sint w \<ge> int NOFILE then None
          else map_option (\<lambda>f. (nat (sint w), f)) (ofile s (nat (sint w))))"

definition sys_dup :: "'a pstate_scheme \<Rightarrow> (int \<times> 'a pstate_scheme) option" where
  "sys_dup s =
     (case argfd 0 s of
        None \<Rightarrow> Some (-1, s)
      | Some (_, f) \<Rightarrow>
          (case fdalloc f s of
             (None, s) \<Rightarrow> Some (-1, s)
           | (Some fd, s) \<Rightarrow> do { s \<leftarrow> filedup f s; Some (int fd, s) }))"

text \<open>The three arguments of \<^verbatim>\<open>read\<close> and \<^verbatim>\<open>write\<close>: file, buffer and length.\<close>

definition rw_args :: "'a pstate_scheme \<Rightarrow> (nat \<times> uint \<times> uint) option" where
  "rw_args s = do {
     (_, f) \<leftarrow> argfd 0 s;
     n \<leftarrow> argint 2 s;
     p \<leftarrow> argptr 1 n s;
     Some (f, p, n)
   }"

definition sys_read :: "('a pstate_scheme) devsw \<Rightarrow> 'a pstate_scheme \<Rightarrow> (int \<times> 'a pstate_scheme) option" where
  "sys_read dv s =
     (case rw_args s of
        None \<Rightarrow> Some (-1, s)
      | Some (f, p, n) \<Rightarrow> do {
          (r, bytes, s) \<leftarrow> fileread dv f (unat n) s;
          Some (r, s\<lparr>umem := put_bytes p bytes (umem s)\<rparr>)
        })"

definition sys_write :: "('a pstate_scheme) devsw \<Rightarrow> 'a pstate_scheme \<Rightarrow> (int \<times> 'a pstate_scheme) option" where
  "sys_write dv s =
     (case rw_args s of
        None \<Rightarrow> Some (-1, s)
      | Some (f, p, n) \<Rightarrow> filewrite dv f (map (\<lambda>i. umem s (p + of_nat i)) [0..<unat n]) s)"

definition sys_close :: "'a pstate_scheme \<Rightarrow> (int \<times> 'a pstate_scheme) option" where
  "sys_close s =
     (case argfd 0 s of
        None \<Rightarrow> Some (-1, s)
      | Some (fd, f) \<Rightarrow> do {
          s \<leftarrow> fileclose f (s\<lparr>ofile := (ofile s)(fd := None)\<rparr>);
          Some (0, s)
        })"

text \<open>The fields of a \<^verbatim>\<open>struct stat\<close> stored at \<open>p\<close>; the padding after the two shorts is not written.\<close>

definition put_stat :: "uint \<Rightarrow> stat \<Rightarrow> (uint \<Rightarrow> uchar) \<Rightarrow> uint \<Rightarrow> uchar" where
  "put_stat p st m =
     (let m = put_bytes p (take 2 (word_bytes (ucast (st_type st)))) m;
          m = put_bytes (p + 4) (word_bytes (of_nat (st_dev st))) m;
          m = put_bytes (p + 8) (word_bytes (of_nat (st_ino st))) m;
          m = put_bytes (p + 12) (take 2 (word_bytes (ucast (st_nlink st)))) m;
          m = put_bytes (p + 16) (word_bytes (of_nat (st_size st))) m;
          m = put_bytes (p + 20) (word_bytes (st_uid st)) m;
          m = put_bytes (p + 24) (word_bytes (st_gid st)) m
      in put_bytes (p + 28) (word_bytes (st_mode st)) m)"

definition sys_fstat :: "'a pstate_scheme \<Rightarrow> (int \<times> 'a pstate_scheme) option" where
  "sys_fstat s =
     (case argfd 0 s of
        None \<Rightarrow> Some (-1, s)
      | Some (_, f) \<Rightarrow>
          (case argptr 1 32 s of
             None \<Rightarrow> Some (-1, s)
           | Some p \<Rightarrow> do {
               (r, st, s) \<leftarrow> filestat f s;
               Some (r, case st of None \<Rightarrow> s | Some st \<Rightarrow> s\<lparr>umem := put_stat p st (umem s)\<rparr>)
             }))"

section \<open>Owners and modes\<close>

definition ROOT :: uint where "ROOT = 0"
definition READ :: uint where "READ = 4"
definition WRITE :: uint where "WRITE = 2"
definition EXECUTE :: uint where "EXECUTE = 1"

definition sys_chmod :: "('a pstate_scheme) devsw \<Rightarrow> 'a pstate_scheme \<Rightarrow> (int \<times> 'a pstate_scheme) option" where
  "sys_chmod dv s =
     (case (argstr 0 s, argint 1 s) of
        (Some path, Some mode) \<Rightarrow> do {
          (p, s) \<leftarrow> namei dv path s;
          (case p of
             None \<Rightarrow> undefined_behaviour ''sys_chmod: null i-node''
           | Some ip \<Rightarrow>
               if p_uid s \<noteq> i_uid (icache s ip) \<and> p_uid s \<noteq> ROOT then Some (-1, s)
               else do {
                 s \<leftarrow> ilock (Some ip) s;
                 let s = set_inode ip ((icache s ip)\<lparr>i_mode := mode\<rparr>) s;
                 s \<leftarrow> iunlock (Some ip) s;
                 Some (1, s)
               })
        }
      | _ \<Rightarrow> Some (-1, s))"

definition changeOwnerGroup :: "uint \<Rightarrow> uint \<Rightarrow> nat option \<Rightarrow> 'a fstate_scheme \<Rightarrow> 'a fstate_scheme option" where
  "changeOwnerGroup uid gid p s = do {
     s \<leftarrow> ilock p s;
     ip \<leftarrow> p;
     let s = set_inode ip ((icache s ip)\<lparr>i_uid := uid, i_gid := gid\<rparr>) s;
     iunlock p s
   }"

definition sys_chown :: "('a pstate_scheme) devsw \<Rightarrow> 'a pstate_scheme \<Rightarrow> (int \<times> 'a pstate_scheme) option" where
  "sys_chown dv s =
     (case (argstr 0 s, argint 1 s, argint 2 s) of
        (Some path, Some uid, Some gid) \<Rightarrow> do {
          (p, s) \<leftarrow> namei dv path s;
          if p_uid s \<noteq> ROOT then Some (-1, s)
          else do {
            s \<leftarrow> changeOwnerGroup uid gid p s;
            Some (1, s)
          }
        }
      | _ \<Rightarrow> Some (-1, s))"

text \<open>A name of fourteen characters is not terminated inside the entry, so using it as a string reads past the entry.\<close>

fun chown_entries :: "('a pstate_scheme) devsw \<Rightarrow> nat \<Rightarrow> uint \<Rightarrow> uint \<Rightarrow> nat list \<Rightarrow> 'a pstate_scheme \<Rightarrow>
    'a pstate_scheme option" where
  "chown_entries dv dp uid gid [] s = Some s"
| "chown_entries dv dp uid gid (off # offs) s = do {
     (r, bs, s) \<leftarrow> readi dv dp off 16 s;
     if r \<noteq> 16 then panic ''updateDirOwner''
     else if length (de_name (dirent_of bs)) = DIRSIZ then undefined_behaviour ''updateDirOwner: name not terminated''
     else do {
       (p, s) \<leftarrow> namei dv (de_name (dirent_of bs)) s;
       s \<leftarrow> changeOwnerGroup uid gid p s;
       chown_entries dv dp uid gid offs s
     }
   }"

definition sys_updateDirOwner :: "('a pstate_scheme) devsw \<Rightarrow> 'a pstate_scheme \<Rightarrow> (int \<times> 'a pstate_scheme) option" where
  "sys_updateDirOwner dv s =
     (case (argstr 0 s, argint 1 s, argint 2 s) of
        (Some path, Some uid, Some gid) \<Rightarrow> do {
          (p, s) \<leftarrow> namei dv path s;
          s \<leftarrow> changeOwnerGroup uid gid p s;
          dp \<leftarrow> p;
          s \<leftarrow> chown_entries dv dp uid gid (entry_offs 2 (i_size (icache s dp))) s;
          Some (1, s)
        }
      | _ \<Rightarrow> Some (-1, s))"

section \<open>Links\<close>

text \<open>The exit of \<^verbatim>\<open>sys_link\<close> at the label \<^verbatim>\<open>bad\<close>.\<close>

definition link_bad :: "nat \<Rightarrow> 'a fstate_scheme \<Rightarrow> (int \<times> 'a fstate_scheme) option" where
  "link_bad ip s = do {
     s \<leftarrow> ilock (Some ip) s;
     s \<leftarrow> iupdate ip (set_inode ip ((icache s ip)\<lparr>nlink := nlink (icache s ip) - 1\<rparr>) s);
     s \<leftarrow> iunlockput ip s;
     s \<leftarrow> end_op s;
     Some (-1, s)
   }"

definition sys_link :: "('a pstate_scheme) devsw \<Rightarrow> 'a pstate_scheme \<Rightarrow> (int \<times> 'a pstate_scheme) option" where
  "sys_link dv s =
     (case (argstr 0 s, argstr 1 s) of
        (Some old, Some new) \<Rightarrow> do {
          s \<leftarrow> begin_op s;
          (p, s) \<leftarrow> namei dv old s;
          (case p of
             None \<Rightarrow> do { s \<leftarrow> end_op s; Some (-1, s) }
           | Some ip \<Rightarrow> do {
               s \<leftarrow> ilock (Some ip) s;
               if i_type (icache s ip) = T_DIR then do {
                 s \<leftarrow> iunlockput ip s;
                 s \<leftarrow> end_op s;
                 Some (-1, s)
               } else do {
                 s \<leftarrow> iupdate ip (set_inode ip ((icache s ip)\<lparr>nlink := nlink (icache s ip) + 1\<rparr>) s);
                 s \<leftarrow> iunlock (Some ip) s;
                 (q, name, s) \<leftarrow> nameiparent dv new (stack_junk s) s;
                 (case q of
                    None \<Rightarrow> link_bad ip s
                  | Some dp \<Rightarrow> do {
                      s \<leftarrow> ilock (Some dp) s;
                      (r, s) \<leftarrow> (if i_dev (icache s dp) \<noteq> i_dev (icache s ip) then Some (-1, s)
                                else dirlink dv dp name (inum (icache s ip)) s);
                      s \<leftarrow> iunlockput dp s;
                      if r < 0 then link_bad ip s
                      else do {
                        s \<leftarrow> iput ip s;
                        s \<leftarrow> end_op s;
                        Some (0, s)
                      }
                    })
               }
             })
        }
      | _ \<Rightarrow> Some (-1, s))"

fun isdirempty_loop :: "('a fstate_scheme) devsw \<Rightarrow> nat \<Rightarrow> nat list \<Rightarrow> 'a fstate_scheme \<Rightarrow>
    (bool \<times> 'a fstate_scheme) option" where
  "isdirempty_loop dv dp [] s = Some (True, s)"
| "isdirempty_loop dv dp (off # offs) s = do {
     (r, bs, s) \<leftarrow> readi dv dp off 16 s;
     if r \<noteq> 16 then panic ''isdirempty: readi''
     else if de_inum (dirent_of bs) \<noteq> 0 then Some (False, s)
     else isdirempty_loop dv dp offs s
   }"

definition isdirempty :: "('a fstate_scheme) devsw \<Rightarrow> nat \<Rightarrow> 'a fstate_scheme \<Rightarrow> (bool \<times> 'a fstate_scheme) option" where
  "isdirempty dv dp s = isdirempty_loop dv dp (entry_offs 2 (i_size (icache s dp))) s"

text \<open>The exit of \<^verbatim>\<open>sys_unlink\<close> at the label \<^verbatim>\<open>bad\<close>, and what it does with an entry that may go.\<close>

definition unlink_bad :: "nat \<Rightarrow> 'a fstate_scheme \<Rightarrow> (int \<times> 'a fstate_scheme) option" where
  "unlink_bad dp s = do {
     s \<leftarrow> iunlockput dp s;
     s \<leftarrow> end_op s;
     Some (-1, s)
   }"

definition unlink_entry :: "('a fstate_scheme) devsw \<Rightarrow> nat \<Rightarrow> nat \<Rightarrow> nat \<Rightarrow> 'a fstate_scheme \<Rightarrow>
    (int \<times> 'a fstate_scheme) option" where
  "unlink_entry dv dp ip off s = do {
     (r, s) \<leftarrow> writei dv dp (replicate 16 0) off s;
     if r \<noteq> 16 then panic ''unlink: writei''
     else do {
       s \<leftarrow> (if i_type (icache s ip) = T_DIR
            then iupdate dp (set_inode dp ((icache s dp)\<lparr>nlink := nlink (icache s dp) - 1\<rparr>) s) else Some s);
       s \<leftarrow> iunlockput dp s;
       s \<leftarrow> iupdate ip (set_inode ip ((icache s ip)\<lparr>nlink := nlink (icache s ip) - 1\<rparr>) s);
       s \<leftarrow> iunlockput ip s;
       s \<leftarrow> end_op s;
       Some (0, s)
     }
   }"

definition sys_unlink :: "('a pstate_scheme) devsw \<Rightarrow> 'a pstate_scheme \<Rightarrow> (int \<times> 'a pstate_scheme) option" where
  "sys_unlink dv s =
     (case argstr 0 s of
        None \<Rightarrow> Some (-1, s)
      | Some path \<Rightarrow> do {
          s \<leftarrow> begin_op s;
          (q, name, s) \<leftarrow> nameiparent dv path (stack_junk s) s;
          (case q of
             None \<Rightarrow> do { s \<leftarrow> end_op s; Some (-1, s) }
           | Some dp \<Rightarrow> do {
               s \<leftarrow> ilock (Some dp) s;
               if namecmp name ''.'' = 0 \<or> namecmp name ''..'' = 0 then unlink_bad dp s
               else do {
                 (p, off, s) \<leftarrow> dirlookup dv dp name s;
                 (case p of
                    None \<Rightarrow> unlink_bad dp s
                  | Some ip \<Rightarrow> do {
                      s \<leftarrow> ilock (Some ip) s;
                      if sint (nlink (icache s ip)) < 1 then panic ''unlink: nlink < 1''
                      else do {
                        (empty, s) \<leftarrow> (if i_type (icache s ip) = T_DIR then isdirempty dv ip s else Some (True, s));
                        if \<not> empty then do { s \<leftarrow> iunlockput ip s; unlink_bad dp s }
                        else unlink_entry dv dp ip off s
                      }
                    })
               }
             })
        })"

section \<open>Creating and opening\<close>

text \<open>
  The permission checks look at the directory that holds the name.  Its owner's bit and the bit for others decide,
  except for names that begin with \<^verbatim>\<open>passwd\<close> or \<^verbatim>\<open>group\<close>.
\<close>

definition bypass :: "string \<Rightarrow> bool" where
  "bypass name \<longleftrightarrow> strncmp_str 6 name ''passwd'' = 0 \<or> strncmp_str 5 name ''group'' = 0"

definition may :: "uint \<Rightarrow> uint \<Rightarrow> uint \<Rightarrow> uint \<Rightarrow> bool" where
  "may perm user owner mode \<longleftrightarrow> (mode AND push_bit 6 perm \<noteq> 0 \<and> owner = user) \<or> mode AND perm \<noteq> 0"

definition validate :: "uint \<Rightarrow> ('a pstate_scheme) devsw \<Rightarrow> string \<Rightarrow> 'a pstate_scheme \<Rightarrow> (bool \<times> 'a pstate_scheme) option" where
  "validate perm dv path s = do {
     (p, name, s) \<leftarrow> nameiparent dv path (stack_junk s) s;
     if bypass name then Some (True, s)
     else do {
       s \<leftarrow> ilock p s;
       ip \<leftarrow> p;
       let uidParent = i_uid (icache s ip);
       let modeParent = i_mode (icache s ip);
       s \<leftarrow> iunlock p s;
       Some (may perm (p_uid s) uidParent modeParent, s)
     }
   }"

definition validateWrite :: "('a pstate_scheme) devsw \<Rightarrow> string \<Rightarrow> 'a pstate_scheme \<Rightarrow> (bool \<times> 'a pstate_scheme) option" where
  "validateWrite dv path s = validate WRITE dv path s"

definition validateRead :: "('a pstate_scheme) devsw \<Rightarrow> string \<Rightarrow> 'a pstate_scheme \<Rightarrow> (bool \<times> 'a pstate_scheme) option" where
  "validateRead dv path s = validate READ dv path s"

text \<open>The part of \<^verbatim>\<open>create\<close> that makes a new file in the locked directory \<open>dp\<close>.\<close>

definition create_new :: "('a pstate_scheme) devsw \<Rightarrow> nat \<Rightarrow> string \<Rightarrow> ushort \<Rightarrow> ushort \<Rightarrow> ushort \<Rightarrow> 'a pstate_scheme \<Rightarrow>
    (nat option \<times> 'a pstate_scheme) option" where
  "create_new dv dp name t mj mn s = do {
     (ip, s) \<leftarrow> ialloc (i_dev (icache s dp)) t s;
     s \<leftarrow> ilock (Some ip) s;
     s \<leftarrow> iupdate ip (set_inode ip ((icache s ip)\<lparr>major := mj, minor := mn, nlink := 1, i_mode := 0x1A4\<rparr>) s);
     s \<leftarrow> (if t = T_DIR then do {
            s \<leftarrow> iupdate dp (set_inode dp ((icache s dp)\<lparr>nlink := nlink (icache s dp) + 1\<rparr>) s);
            (r, s) \<leftarrow> dirlink dv ip ''.'' (inum (icache s ip)) s;
            if r < 0 then panic ''create dots''
            else do {
              (r, s) \<leftarrow> dirlink dv ip ''..'' (inum (icache s dp)) s;
              if r < 0 then panic ''create dots'' else Some s
            }
          } else Some s);
     (r, s) \<leftarrow> dirlink dv dp name (inum (icache s ip)) s;
     if r < 0 then panic ''create: dirlink''
     else do {
       s \<leftarrow> iunlockput dp s;
       Some (Some ip, s)
     }
   }"

definition create :: "('a pstate_scheme) devsw \<Rightarrow> string \<Rightarrow> ushort \<Rightarrow> ushort \<Rightarrow> ushort \<Rightarrow> 'a pstate_scheme \<Rightarrow>
    (nat option \<times> 'a pstate_scheme) option" where
  "create dv path t mj mn s = do {
     (good, s) \<leftarrow> (if p_uid s \<noteq> ROOT then validateWrite dv path s else Some (True, s));
     if \<not> good then Some (None, s)
     else do {
       (q, name, s) \<leftarrow> nameiparent dv path (stack_junk s) s;
       (case q of
          None \<Rightarrow> Some (None, s)
        | Some dp \<Rightarrow> do {
            s \<leftarrow> ilock (Some dp) s;
            (p, _, s) \<leftarrow> dirlookup dv dp name s;
            (case p of
               Some ip \<Rightarrow> do {
                 s \<leftarrow> iunlockput dp s;
                 s \<leftarrow> ilock (Some ip) s;
                 if (t = T_FILE \<and> i_type (icache s ip) = T_FILE) \<or> i_type (icache s ip) = T_DEV then Some (Some ip, s)
                 else do {
                   s \<leftarrow> iunlockput ip s;
                   Some (None, s)
                 }
               }
             | None \<Rightarrow> create_new dv dp name t mj mn s)
          })
     }
   }"

definition O_RDONLY :: uint where "O_RDONLY = 0"
definition O_WRONLY :: uint where "O_WRONLY = 1"
definition O_RDWR :: uint where "O_RDWR = 2"
definition O_CREATE :: uint where "O_CREATE = 0x200"

text \<open>The permission checks of \<^verbatim>\<open>sys_open\<close>, and the file it goes on with, locked.\<close>

definition open_allowed :: "('a pstate_scheme) devsw \<Rightarrow> string \<Rightarrow> uint \<Rightarrow> 'a pstate_scheme \<Rightarrow>
    (bool \<times> 'a pstate_scheme) option" where
  "open_allowed dv path omode s =
     (if p_uid s \<noteq> ROOT then do {
        (good, s) \<leftarrow> (if omode = O_RDONLY \<or> omode = O_RDWR then validateRead dv path s else Some (True, s));
        if \<not> good then Some (False, s)
        else if omode = O_WRONLY \<or> omode = O_RDWR \<or> omode = O_CREATE then validateWrite dv path s
        else Some (True, s)
      } else Some (True, s))"

definition open_inode :: "('a pstate_scheme) devsw \<Rightarrow> string \<Rightarrow> uint \<Rightarrow> 'a pstate_scheme \<Rightarrow>
    (nat option \<times> 'a pstate_scheme) option" where
  "open_inode dv path omode s =
     (if omode AND O_CREATE \<noteq> 0 then create dv path T_FILE 0 0 s
      else do {
        (p, s) \<leftarrow> namei dv path s;
        (case p of
           None \<Rightarrow> Some (None, s)
         | Some ip \<Rightarrow> do {
             s \<leftarrow> ilock (Some ip) s;
             if i_type (icache s ip) = T_DIR \<and> omode \<noteq> O_RDONLY then do {
               s \<leftarrow> iunlockput ip s;
               Some (None, s)
             } else Some (Some ip, s)
           })
      })"

definition open_fail :: "nat \<Rightarrow> 'a fstate_scheme \<Rightarrow> (int \<times> 'a fstate_scheme) option" where
  "open_fail ip s = do {
     s \<leftarrow> iunlockput ip s;
     s \<leftarrow> end_op s;
     Some (-1, s)
   }"

definition sys_open :: "('a pstate_scheme) devsw \<Rightarrow> 'a pstate_scheme \<Rightarrow> (int \<times> 'a pstate_scheme) option" where
  "sys_open dv s =
     (case (argstr 0 s, argint 1 s) of
        (Some path, Some omode) \<Rightarrow> do {
          (good, s) \<leftarrow> open_allowed dv path omode s;
          if \<not> good then Some (-1, s)
          else do {
            s \<leftarrow> begin_op s;
            (p, s) \<leftarrow> open_inode dv path omode s;
            (case p of
               None \<Rightarrow> do { s \<leftarrow> end_op s; Some (-1, s) }
             | Some ip \<Rightarrow>
                 (case filealloc s of
                    (None, s) \<Rightarrow> open_fail ip s
                  | (Some f, s) \<Rightarrow>
                      (case fdalloc f s of
                         (None, s) \<Rightarrow> do { s \<leftarrow> fileclose f s; open_fail ip s }
                       | (Some fd, s) \<Rightarrow> do {
                           s \<leftarrow> iunlock (Some ip) s;
                           s \<leftarrow> end_op s;
                           Some (int fd, set_file f ((ftable s f)\<lparr>f_type := FD_INODE, f_ip := Some ip, f_off := 0,
                             readable := (omode AND O_WRONLY = 0),
                             writable := (omode AND O_WRONLY \<noteq> 0 \<or> omode AND O_RDWR \<noteq> 0)\<rparr>) s)
                         })))
          }
        }
      | _ \<Rightarrow> Some (-1, s))"

text \<open>The common part of \<^verbatim>\<open>sys_mkdir\<close> and \<^verbatim>\<open>sys_mknod\<close> after the arguments are fetched.\<close>

definition make_node :: "('a pstate_scheme) devsw \<Rightarrow> string \<Rightarrow> ushort \<Rightarrow> ushort \<Rightarrow> ushort \<Rightarrow> 'a pstate_scheme \<Rightarrow>
    (int \<times> 'a pstate_scheme) option" where
  "make_node dv path t mj mn s = do {
     (p, s) \<leftarrow> create dv path t mj mn s;
     (case p of
        None \<Rightarrow> do { s \<leftarrow> end_op s; Some (-1, s) }
      | Some ip \<Rightarrow> do {
          s \<leftarrow> iunlockput ip s;
          s \<leftarrow> end_op s;
          Some (0, s)
        })
   }"

definition sys_mkdir :: "('a pstate_scheme) devsw \<Rightarrow> 'a pstate_scheme \<Rightarrow> (int \<times> 'a pstate_scheme) option" where
  "sys_mkdir dv s = do {
     s \<leftarrow> begin_op s;
     (case argstr 0 s of
        None \<Rightarrow> do { s \<leftarrow> end_op s; Some (-1, s) }
      | Some path \<Rightarrow> make_node dv path T_DIR 0 0 s)
   }"

definition sys_mknod :: "('a pstate_scheme) devsw \<Rightarrow> 'a pstate_scheme \<Rightarrow> (int \<times> 'a pstate_scheme) option" where
  "sys_mknod dv s = do {
     s \<leftarrow> begin_op s;
     (case (argstr 0 s, argint 1 s, argint 2 s) of
        (Some path, Some mj, Some mn) \<Rightarrow> make_node dv path T_DEV (ucast mj) (ucast mn) s
      | _ \<Rightarrow> do { s \<leftarrow> end_op s; Some (-1, s) })
   }"

definition validateExecute :: "nat \<Rightarrow> 'a pstate_scheme \<Rightarrow> (bool \<times> 'a pstate_scheme) option" where
  "validateExecute ip s = do {
     s \<leftarrow> ilock (Some ip) s;
     let uidChield = i_uid (icache s ip);
     let modeChield = i_mode (icache s ip);
     s \<leftarrow> iunlock (Some ip) s;
     Some (may EXECUTE (p_uid s) uidChield modeChield, s)
   }"

definition sys_chdir :: "('a pstate_scheme) devsw \<Rightarrow> 'a pstate_scheme \<Rightarrow> (int \<times> 'a pstate_scheme) option" where
  "sys_chdir dv s = do {
     s \<leftarrow> begin_op s;
     (p, s) \<leftarrow> (case argstr 0 s of None \<Rightarrow> Some (None, s) | Some path \<Rightarrow> namei dv path s);
     (case p of
        None \<Rightarrow> do { s \<leftarrow> end_op s; Some (-1, s) }
      | Some ip \<Rightarrow> do {
          (good, s) \<leftarrow> (if p_uid s \<noteq> ROOT then validateExecute ip s else Some (True, s));
          if \<not> good then do { s \<leftarrow> end_op s; Some (-1, s) }
          else do {
            s \<leftarrow> ilock (Some ip) s;
            if i_type (icache s ip) \<noteq> T_DIR then do {
              s \<leftarrow> iunlockput ip s;
              s \<leftarrow> end_op s;
              Some (-1, s)
            } else do {
              s \<leftarrow> iunlock (Some ip) s;
              s \<leftarrow> iput (cwd s) s;
              s \<leftarrow> end_op s;
              Some (0, s\<lparr>cwd := ip\<rparr>)
            }
          }
        })
   }"

section \<open>Pipes and sizes\<close>

definition sys_pipe :: "'a pstate_scheme \<Rightarrow> (int \<times> 'a pstate_scheme) option" where
  "sys_pipe s =
     (case argptr 0 8 s of
        None \<Rightarrow> Some (-1, s)
      | Some a \<Rightarrow> do {
          (r, s) \<leftarrow> pipealloc s;
          (case r of
             None \<Rightarrow> Some (-1, s)
           | Some (rf, w) \<Rightarrow>
               (case fdalloc rf s of
                  (None, s) \<Rightarrow> do { s \<leftarrow> fileclose rf s; s \<leftarrow> fileclose w s; Some (-1, s) }
                | (Some fd0, s) \<Rightarrow>
                    (case fdalloc w s of
                       (None, s) \<Rightarrow> do {
                         s \<leftarrow> fileclose rf (s\<lparr>ofile := (ofile s)(fd0 := None)\<rparr>);
                         s \<leftarrow> fileclose w s;
                         Some (-1, s)
                       }
                     | (Some fd1, s) \<Rightarrow>
                         Some (0, s\<lparr>umem := put_bytes (a + 4) (word_bytes (of_nat fd1))
                           (put_bytes a (word_bytes (of_nat fd0)) (umem s))\<rparr>))))
        })"

definition sys_fsize :: "'a pstate_scheme \<Rightarrow> (int \<times> 'a pstate_scheme) option" where
  "sys_fsize s =
     (case argfd 0 s of
        None \<Rightarrow> Some (-1, s)
      | Some (_, f) \<Rightarrow>
          (case f_ip (ftable s f) of
             None \<Rightarrow> undefined_behaviour ''sys_fsize: null i-node''
           | Some ip \<Rightarrow> Some (as_int (i_size (icache s ip)), s)))"

section \<open>Reference counts of open files\<close>

text \<open>What a call of the file system leaves of the process and the kernel's tables.\<close>

definition proc_same :: "'a pstate_scheme \<Rightarrow> 'a pstate_scheme \<Rightarrow> bool" where
  "proc_same s s' \<longleftrightarrow> ftable s' = ftable s \<and> ofile s' = ofile s \<and> pipes s' = pipes s \<and> km s' = km s \<and> p_uid s' = p_uid s \<and>
     p_euid s' = p_euid s \<and> p_killed s' = p_killed s \<and> umem s' = umem s \<and> psz s' = psz s \<and> tf_esp s' = tf_esp s \<and>
     cwd s' = cwd s \<and> stack_junk s' = stack_junk s"

lemma outerD: "outer s (s' :: 'a pstate_scheme) \<Longrightarrow> proc_same s s'"
  by (cases s; cases s'; simp add: proc_same_def)

lemma outer_files: "outer s (s' :: 'a pstate_scheme) \<Longrightarrow> ftable s' = ftable s \<and> ofile s' = ofile s"
  using outerD [of s s'] unfolding proc_same_def by blast

lemmas file_frames = block_frames [THEN outer_files] iframes [THEN outer_files]

text \<open>
  The descriptors of the running process that refer to a file.  The other processes hold \<open>others f\<close> references; the
  invariant says that the count of a file is the number of its holders, so that a file is free exactly when nobody uses it.
\<close>

definition fd_refs :: "'a pstate_scheme \<Rightarrow> nat \<Rightarrow> nat" where
  "fd_refs s f = card {fd. fd < NOFILE \<and> ofile s fd = Some f}"

definition files_ok :: "(nat \<Rightarrow> nat) \<Rightarrow> 'a pstate_scheme \<Rightarrow> bool" where
  "files_ok others s \<longleftrightarrow> (\<forall>f. f_ref (ftable s f) = int (fd_refs s f + others f))"

definition counts :: "'a pstate_scheme \<Rightarrow> nat \<Rightarrow> int" where
  "counts s f = f_ref (ftable s f) - int (fd_refs s f)"

lemma files_ok_counts: "files_ok others s \<longleftrightarrow> counts s = (\<lambda>f. int (others f))"
  by (simp add: files_ok_def counts_def fun_eq_iff diff_eq_eq add.commute)

lemma fd_refs_alloc:
  assumes "fdalloc f s = (Some fd, s')"
  shows "fd_refs s' g = fd_refs s g + (if g = f then 1 else 0)" "ftable s' = ftable s"
proof -
  note a = fdalloc_Some [OF assms]
  have "{i. i < NOFILE \<and> ofile s' i = Some f} = insert fd {i. i < NOFILE \<and> ofile s i = Some f}"
    using a(1,4) by auto
  moreover have "g \<noteq> f \<Longrightarrow> {i. i < NOFILE \<and> ofile s' i = Some g} = {i. i < NOFILE \<and> ofile s i = Some g}"
    using a(2,4) by auto
  ultimately show "fd_refs s' g = fd_refs s g + (if g = f then 1 else 0)"
    using a(2) by (cases "g = f") (simp_all add: fd_refs_def)
  show "ftable s' = ftable s"
    using a(4) by simp
qed

lemma fd_refs_drop:
  assumes "ofile s fd = Some f" "fd < NOFILE"
  shows "int (fd_refs (s\<lparr>ofile := (ofile s)(fd := None)\<rparr>) g) = int (fd_refs s g) - (if g = f then 1 else 0)"
proof -
  let ?A = "{i. i < NOFILE \<and> ofile s i = Some f}"
  have "{i. i < NOFILE \<and> ((ofile s)(fd := None)) i = Some g} = (if g = f then ?A - {fd} else {i. i < NOFILE \<and> ofile s i = Some g})"
    using assms(1) by auto
  moreover have "int (card (?A - {fd})) = int (card ?A) - 1"
  proof -
    have "fd \<in> ?A" "finite ?A"
      using assms by auto
    then show ?thesis
      using card_Suc_Diff1 [of ?A fd] by linarith
  qed
  ultimately show ?thesis
    by (simp add: fd_refs_def)
qed

lemma fd_refs_cong: "ofile s' = ofile s \<Longrightarrow> fd_refs s' = fd_refs s"
  by (simp add: fd_refs_def fun_eq_iff)

lemma close_pipe_files: "close_pipe p w s = Some s' \<Longrightarrow> ftable s' = ftable s \<and> ofile s' = ofile s"
  by (auto simp: close_pipe_def Let_def split: prod.splits if_splits)

lemma fileclose_files:
  assumes "fileclose f s = Some s'"
  shows "ofile s' = ofile s" "f_ref (ftable s' g) = f_ref (ftable s g) - (if g = f then 1 else 0)" "1 \<le> f_ref (ftable s f)"
proof -
  have "ofile s' = ofile s \<and> f_ref (ftable s' g) = f_ref (ftable s g) - (if g = f then 1 else 0) \<and> 1 \<le> f_ref (ftable s f)"
    using assms
    by (auto simp: fileclose_def Let_def bind_eq_Some_conv split: if_splits fdtype.splits option.splits
      dest!: close_pipe_files file_frames)
  then show "ofile s' = ofile s" "f_ref (ftable s' g) = f_ref (ftable s g) - (if g = f then 1 else 0)" "1 \<le> f_ref (ftable s f)"
    by simp_all
qed

definition one :: "nat \<Rightarrow> nat \<Rightarrow> int" where
  "one f g = (if g = f then 1 else 0)"

lemma counts_cong: "ftable s' = ftable s \<Longrightarrow> ofile s' = ofile s \<Longrightarrow> counts s' = counts s"
  by (simp add: counts_def fd_refs_def fun_eq_iff)

lemma counts_upd [simp]:
  "counts (s\<lparr>umem := m\<rparr>) = counts s" "counts (s\<lparr>pipes := p\<rparr>) = counts s" "counts (s\<lparr>km := k\<rparr>) = counts s"
  "counts (s\<lparr>cwd := c\<rparr>) = counts s"
  by (rule counts_cong; simp)+

lemma counts_set_file: "counts (set_file f v s) g = counts s g + one f g * (f_ref v - f_ref (ftable s f))"
  by (simp add: counts_def one_def fd_refs_cong [of "set_file f v s" s])

lemma counts_filealloc: "filealloc s = (Some f, s') \<Longrightarrow> counts s' g = counts s g + one f g"
  using filealloc_Some [of s f s'] by (simp add: counts_set_file)

lemma counts_fdalloc: "fdalloc f s = (Some fd, s') \<Longrightarrow> counts s' g = counts s g - one f g"
  using fd_refs_alloc(1) [of f s fd s' g] fd_refs_alloc(2) [of f s fd s'] by (simp add: counts_def one_def)

lemma counts_fileclose: "fileclose f s = Some s' \<Longrightarrow> counts s' g = counts s g - one f g"
  using fileclose_files(1) [of f s s'] fileclose_files(2) [of f s s' g] fd_refs_cong [of s' s] by (simp add: counts_def one_def)

lemma counts_filedup: "filedup f s = Some s' \<Longrightarrow> counts s' g = counts s g + one f g"
  by (auto simp: filedup_def counts_set_file split: if_splits)

lemma counts_drop:
  "ofile s fd = Some f \<Longrightarrow> fd < NOFILE \<Longrightarrow> counts (s\<lparr>ofile := (ofile s)(fd := None)\<rparr>) g = counts s g + one f g"
  using fd_refs_drop [of s fd f g] by (simp add: counts_def one_def)

lemma counts_outer: "outer s s' \<Longrightarrow> counts s' = counts s"
  using outer_files [of s s'] counts_cong [of s' s] by blast

text \<open>The handlers' parts that only use the file system.\<close>

lemma validate_outer [iframes]: "validate perm dv path s = Some (b, s') \<Longrightarrow> outer s s'"
  by (auto simp: validate_def Let_def bind_eq_Some_conv split: if_splits dest!: iframes)

lemma create_new_outer [iframes]: "create_new dv dp name t mj mn s = Some (p, s') \<Longrightarrow> outer s s'"
  by (auto simp: create_new_def bind_eq_Some_conv split: if_splits dest!: iframes)

lemma create_outer [iframes]: "create dv path t mj mn s = Some (p, s') \<Longrightarrow> outer s s'"
  by (auto simp: create_def validateWrite_def bind_eq_Some_conv split: if_splits option.splits dest!: iframes)

lemma open_allowed_outer [iframes]: "open_allowed dv path m s = Some (b, s') \<Longrightarrow> outer s s'"
  by (auto simp: open_allowed_def validateRead_def validateWrite_def bind_eq_Some_conv split: if_splits dest!: iframes)

lemma open_inode_outer [iframes]: "open_inode dv path m s = Some (p, s') \<Longrightarrow> outer s s'"
  by (auto simp: open_inode_def bind_eq_Some_conv split: if_splits option.splits dest!: iframes)

lemma open_fail_outer [iframes]: "open_fail ip s = Some (r, s') \<Longrightarrow> outer s s'"
  by (auto simp: open_fail_def bind_eq_Some_conv dest!: iframes block_frames)

lemmas count_frames = block_frames [THEN counts_outer] iframes [THEN counts_outer]

lemma argfd_Some: "argfd n s = Some (fd, f) \<Longrightarrow> fd < NOFILE \<and> ofile s fd = Some f"
  by (auto simp: argfd_def split: option.splits if_splits)

lemma sys_dup_counts:
  assumes "sys_dup s = Some (r, s')"
  shows "counts s' = counts s"
proof (cases "argfd 0 s")
  case (Some a)
  obtain fd f where a: "argfd 0 s = Some (fd, f)"
    using Some by (cases a) simp
  obtain p s1 where p: "fdalloc f s = (p, s1)"
    by (cases "fdalloc f s")
  show ?thesis
  proof (cases p)
    case None
    then show ?thesis
      using assms a p fdalloc_None [of f s s1] by (simp add: sys_dup_def)
  next
    case (Some nfd)
    then obtain s2 where d: "filedup f s1 = Some s2" "s' = s2"
      using assms a p by (auto simp: sys_dup_def bind_eq_Some_conv)
    show ?thesis
      using counts_fdalloc [of f s nfd s1] counts_filedup [OF d(1)] p Some d(2) by (simp add: fun_eq_iff)
  qed
qed (use assms in \<open>simp add: sys_dup_def\<close>)

lemma sys_close_counts:
  assumes "sys_close s = Some (r, s')"
  shows "counts s' = counts s"
proof (cases "argfd 0 s")
  case (Some a)
  obtain fd f where a: "argfd 0 s = Some (fd, f)"
    using Some by (cases a) simp
  note fd = argfd_Some [OF a]
  have "fileclose f (s\<lparr>ofile := (ofile s)(fd := None)\<rparr>) = Some s'"
    using assms a by (auto simp: sys_close_def bind_eq_Some_conv)
  from counts_fileclose [OF this] counts_drop [of s fd f] fd show ?thesis
    by (simp add: fun_eq_iff)
qed (use assms in \<open>simp add: sys_close_def\<close>)

lemma pipealloc_counts:
  assumes "pipealloc s = Some (p, s')"
  shows "counts s' g = counts s g + (case p of None \<Rightarrow> 0 | Some (f0, f1) \<Rightarrow> one f0 g + one f1 g)"
proof -
  obtain a s1 where a: "filealloc s = (a, s1)"
    by (cases "filealloc s")
  show ?thesis
  proof (cases a)
    case None
    then show ?thesis
      using assms a filealloc_None [of s s1] by (simp add: pipealloc_def)
  next
    case (Some f0)
    note a0 = counts_filealloc [OF a [unfolded Some]]
    obtain b s2 where b: "filealloc s1 = (b, s2)"
      by (cases "filealloc s1")
    show ?thesis
    proof (cases b)
      case None
      then obtain "s2 = s1" "fileclose f0 s1 = Some s'" "p = None"
        using assms a b Some filealloc_None [of s1 s2] by (auto simp: pipealloc_def bind_eq_Some_conv)
      then show ?thesis
        using counts_fileclose [of f0 s1 s' g] a0 by simp
    next
      case (Some f1)
      note a1 = counts_filealloc [OF b [unfolded Some]]
      obtain q k where k: "kalloc (km s2) = (q, k)"
        by (cases "kalloc (km s2)")
      show ?thesis
      proof (cases "q = 0")
        case True
        then obtain s3 where "fileclose f0 (s2\<lparr>km := k\<rparr>) = Some s3" "fileclose f1 s3 = Some s'" "p = None"
          using assms a b k \<open>a = Some f0\<close> \<open>b = Some f1\<close> by (auto simp: pipealloc_def bind_eq_Some_conv)
        then show ?thesis
          using counts_fileclose [of f0 "s2\<lparr>km := k\<rparr>" s3 g] counts_fileclose [of f1 s3 s' g] a0 a1 by simp
      next
        case False
        then have "p = Some (f0, f1)" "counts s' g = counts s2 g"
          using assms a b k \<open>a = Some f0\<close> \<open>b = Some f1\<close> by (auto simp: pipealloc_def Let_def counts_set_file)
        then show ?thesis
          using a0 a1 by simp
      qed
    qed
  qed
qed

lemma sys_pipe_counts:
  assumes "sys_pipe s = Some (r, s')"
  shows "counts s' = counts s"
proof (cases "argptr 0 8 s")
  case (Some a)
  then obtain p s1 where p: "pipealloc s = Some (p, s1)"
    using assms by (auto simp: sys_pipe_def bind_eq_Some_conv)
  note c = pipealloc_counts [OF p]
  show ?thesis
  proof (cases p)
    case None
    then have "s' = s1"
      using assms Some p by (simp add: sys_pipe_def)
    then show ?thesis
      using c None by (simp add: fun_eq_iff)
  next
    case (Some fs)
    obtain f0 f1 where f: "p = Some (f0, f1)"
      using Some by (cases fs) simp
    obtain b0 s2 where b0: "fdalloc f0 s1 = (b0, s2)"
      by (cases "fdalloc f0 s1")
    obtain b1 s3 where b1: "fdalloc f1 s2 = (b1, s3)"
      by (cases "fdalloc f1 s2")
    note run = assms \<open>argptr 0 8 s = Some a\<close> p f b0 b1
    show ?thesis
    proof (cases b0)
      case None
      with run obtain s4 where "fileclose f0 s1 = Some s4" "fileclose f1 s4 = Some s'"
        using fdalloc_None [of f0 s1 s2] by (auto simp: sys_pipe_def bind_eq_Some_conv)
      then show ?thesis
        using counts_fileclose [of f0 s1 s4] counts_fileclose [of f1 s4 s'] c f by (simp add: fun_eq_iff)
    next
      case (Some fd0)
      note c0 = counts_fdalloc [OF b0 [unfolded Some]]
      have s2: "fd0 < NOFILE" "ofile s2 fd0 = Some f0"
        using fdalloc_Some [OF b0 [unfolded Some]] by simp_all
      show ?thesis
      proof (cases b1)
        case None
        with run Some obtain s4 where
          cl: "fileclose f0 (s2\<lparr>ofile := (ofile s2)(fd0 := None)\<rparr>) = Some s4" "fileclose f1 s4 = Some s'"
          using fdalloc_None [of f1 s2 s3] by (auto simp: sys_pipe_def bind_eq_Some_conv)
        show ?thesis
          using counts_fileclose [OF cl(1)] counts_fileclose [OF cl(2)] counts_drop [OF s2(2,1)] c c0 f
          by (simp add: fun_eq_iff)
      next
        case (Some fd1)
        then have "counts s' = counts s3"
          using run \<open>b0 = Some fd0\<close> by (auto simp: sys_pipe_def)
        then show ?thesis
          using counts_fdalloc [OF b1 [unfolded Some]] c c0 f by (simp add: fun_eq_iff)
      qed
    qed
  qed
qed (use assms in \<open>simp add: sys_pipe_def\<close>)

text \<open>The ways through \<^verbatim>\<open>sys_open\<close>: it fails, keeping the tables, or it goes the whole way.\<close>

lemma sys_open_cases:
  assumes "sys_open dv s = Some (r, s')"
  obtains (fails) "r = -1" "counts s' = counts s"
  | (opens) path omode s1 s2 ip s3 f s4 fd s5 s6 s7 where
    "argstr 0 s = Some path" "argint 1 s = Some omode" "open_allowed dv path omode s = Some (True, s1)"
    "begin_op s1 = Some s2" "open_inode dv path omode s2 = Some (Some ip, s3)" "filealloc s3 = (Some f, s4)"
    "fdalloc f s4 = (Some fd, s5)" "iunlock (Some ip) s5 = Some s6" "end_op s6 = Some s7" "r = int fd"
    "s' = set_file f ((ftable s7 f)\<lparr>f_type := FD_INODE, f_ip := Some ip, f_off := 0,
       readable := (omode AND O_WRONLY = 0), writable := (omode AND O_WRONLY \<noteq> 0 \<or> omode AND O_RDWR \<noteq> 0)\<rparr>) s7"
proof (cases "argstr 0 s")
  case (Some path)
  note path = Some
  show ?thesis
  proof (cases "argint 1 s")
    case (Some omode)
    note args = path Some
    then obtain b s1 where ok: "open_allowed dv path omode s = Some (b, s1)"
      using assms by (auto simp: sys_open_def bind_eq_Some_conv)
    note c1 = counts_outer [OF open_allowed_outer [OF ok]]
    show ?thesis
    proof (cases b)
      case False
      then show ?thesis
        using assms args ok c1 fails by (simp add: sys_open_def)
    next
      case True
      then obtain s2 p s3 where bo: "begin_op s1 = Some s2" and oi: "open_inode dv path omode s2 = Some (p, s3)"
        using assms args ok by (auto simp: sys_open_def bind_eq_Some_conv)
      note c3 = counts_outer [OF open_inode_outer [OF oi]] counts_outer [OF keepsD [OF begin_op_keeps [OF bo], THEN conjunct1]]
      note run = assms args ok True bo oi
      show ?thesis
      proof (cases p)
        case None
        with run have "r = -1" "end_op s3 = Some s'"
          by (auto simp: sys_open_def bind_eq_Some_conv)
        then show ?thesis
          using c1 c3 fails by (auto dest: count_frames)
      next
        case (Some ip)
        obtain a s4 where a: "filealloc s3 = (a, s4)"
          by (cases "filealloc s3")
        show ?thesis
        proof (cases a)
          case None
          with run \<open>p = Some ip\<close> a have of: "open_fail ip s3 = Some (r, s')"
            using filealloc_None [of s3 s4] by (simp add: sys_open_def)
          then have "r = -1"
            by (auto simp: open_fail_def bind_eq_Some_conv)
          then show ?thesis
            using c1 c3 counts_outer [OF open_fail_outer [OF of]] fails by simp
        next
          case (Some f)
          obtain d s5 where d: "fdalloc f s4 = (d, s5)"
            by (cases "fdalloc f s4")
          show ?thesis
          proof (cases d)
            case None
            with run \<open>p = Some ip\<close> a Some d obtain t where t: "fileclose f s4 = Some t" "open_fail ip t = Some (r, s')"
              using fdalloc_None [of f s4 s5] by (auto simp: sys_open_def bind_eq_Some_conv)
            then have "r = -1"
              by (auto simp: open_fail_def bind_eq_Some_conv)
            then show ?thesis
              using c1 c3 counts_outer [OF open_fail_outer [OF t(2)]] counts_fileclose [OF t(1)]
                counts_filealloc [OF a [unfolded Some]] by (intro fails) (simp_all add: fun_eq_iff)
          next
            case (Some fd)
            with run \<open>p = Some ip\<close> a \<open>a = Some f\<close> d obtain s6 s7 where s7:
              "iunlock (Some ip) s5 = Some s6" "end_op s6 = Some s7" "r = int fd"
              "s' = set_file f ((ftable s7 f)\<lparr>f_type := FD_INODE, f_ip := Some ip, f_off := 0,
                 readable := (omode AND O_WRONLY = 0), writable := (omode AND O_WRONLY \<noteq> 0 \<or> omode AND O_RDWR \<noteq> 0)\<rparr>) s7"
              by (auto simp: sys_open_def bind_eq_Some_conv)
            show ?thesis
              by (rule opens [of path omode s1 s2 ip s3 f s4 fd s5 s6 s7])
                (use s7 run \<open>p = Some ip\<close> a \<open>a = Some f\<close> d Some in simp_all)
          qed
        qed
      qed
    qed
  qed (use assms fails path in \<open>simp add: sys_open_def\<close>)
qed (use assms fails in \<open>simp add: sys_open_def\<close>)

lemma sys_open_counts: "sys_open dv s = Some (r, s') \<Longrightarrow> counts s' = counts s"
proof (erule sys_open_cases)
  fix path omode s1 s2 ip s3 f s4 fd s5 s6 s7
  assume run: "open_allowed dv path omode s = Some (True, s1)" "begin_op s1 = Some s2"
    "open_inode dv path omode s2 = Some (Some ip, s3)" "filealloc s3 = (Some f, s4)" "fdalloc f s4 = (Some fd, s5)"
    "iunlock (Some ip) s5 = Some s6" "end_op s6 = Some s7"
    "s' = set_file f ((ftable s7 f)\<lparr>f_type := FD_INODE, f_ip := Some ip, f_off := 0,
       readable := (omode AND O_WRONLY = 0), writable := (omode AND O_WRONLY \<noteq> 0 \<or> omode AND O_RDWR \<noteq> 0)\<rparr>) s7"
  have "counts s3 = counts s"
    using counts_outer [OF open_allowed_outer [OF run(1)]] counts_outer [OF open_inode_outer [OF run(3)]]
      counts_outer [OF keepsD [OF begin_op_keeps [OF run(2)], THEN conjunct1]] by simp
  moreover have "counts s7 = counts s5"
    using counts_outer [OF iunlock_outer [OF run(6)]] counts_outer [OF keepsD [OF end_op_keeps [OF run(7)], THEN conjunct1]]
    by simp
  moreover have "counts s' = counts s7"
    unfolding run(8) by (simp add: counts_set_file fun_eq_iff)
  ultimately show "counts s' = counts s"
    using counts_filealloc [OF run(4)] counts_fdalloc [OF run(5)] by (simp add: fun_eq_iff)
qed

text \<open>A process that opens, duplicates and closes files, with any computation in between.\<close>

inductive fd_call :: "('a pstate_scheme) devsw \<Rightarrow> 'a pstate_scheme \<Rightarrow> 'a pstate_scheme \<Rightarrow> bool" for dv where
  dup: "sys_dup s = Some (r, s') \<Longrightarrow> fd_call dv s s'"
| close: "sys_close s = Some (r, s') \<Longrightarrow> fd_call dv s s'"
| pipe: "sys_pipe s = Some (r, s') \<Longrightarrow> fd_call dv s s'"
| open_call: "sys_open dv s = Some (r, s') \<Longrightarrow> fd_call dv s s'"
| user: "fd_call dv s (s\<lparr>umem := m, tf_esp := e\<rparr>)"

inductive_cases fd_callE: "fd_call dv s s'"

lemma fd_call_counts: "fd_call dv s s' \<Longrightarrow> counts s' = counts s"
  by (erule fd_callE)
    (auto simp: sys_dup_counts sys_close_counts sys_pipe_counts sys_open_counts intro: counts_cong)

lemma fd_refs_0: "fd_refs s f = 0 \<longleftrightarrow> (\<forall>fd<NOFILE. ofile s fd \<noteq> Some f)"
  unfolding fd_refs_def by (subst card_0_eq) auto

text \<open>
  C2: the counts in the file table.  Whatever sequence of opening, duplicating, piping and closing a process performs,
  failing calls included, the reference count of every file stays the number of descriptors that refer to it, those
  of the process and those of the others; so a file is handed out again exactly when no descriptor refers to it any more.
\<close>

theorem fd_calls_refs:
  assumes "files_ok others s" "(fd_call dv)\<^sup>*\<^sup>* s s'"
  shows "files_ok others s' \<and>
    (f_ref (ftable s' f) = 0 \<longleftrightarrow> others f = 0 \<and> (\<forall>fd<NOFILE. ofile s' fd \<noteq> Some f))"
proof -
  have "counts s' = counts s"
    using assms(2) by induction (simp_all add: fd_call_counts)
  then have "files_ok others s'"
    using assms(1) by (simp add: files_ok_counts)
  moreover from this have "f_ref (ftable s' f) = int (fd_refs s' f + others f)"
    unfolding files_ok_def by blast
  ultimately show ?thesis
    using fd_refs_0 [of s' f] by auto
qed

lemma boot_files_ok: "files_ok (\<lambda>_. 0) (boot_proc d m)"
  by (simp add: files_ok_def fd_refs_def closed_file_def)

lemma boot_sys_pipe: "\<exists>s'. sys_pipe (boot_proc d ((\<lambda>_. 0)(20 := 40))) = Some (0, s')"
proof -
  let ?s = "boot_proc d ((\<lambda>_. 0)(20 := 40))"
  have a: "argptr 0 8 ?s = Some 40"
    by (simp add: argptr_def argint_def fetchint_def get_word_def)
  obtain s1 where p: "pipealloc ?s = Some (Some (0, 1), s1)"
    using boot_pipealloc by blast
  have o: "ofile s1 = (\<lambda>_. None)"
    by (rule pipealloc_Some [OF p]) simp
  show ?thesis
    using a p o by (simp add: sys_pipe_def fdalloc_def NOFILE_def upt_conv_Cons)
qed

theorem fd_calls_refs_witness:
  "\<exists>s'. sys_pipe (boot_proc (\<lambda>_ _. 0) ((\<lambda>_. 0)(20 := 40))) = Some (0, s') \<and> files_ok (\<lambda>_. 0) s'"
proof -
  obtain s' where "sys_pipe (boot_proc (\<lambda>_ _. 0) ((\<lambda>_. 0)(20 := 40))) = Some (0, s')"
    using boot_sys_pipe by blast
  moreover from this have "fd_call no_drivers (boot_proc (\<lambda>_ _. 0) ((\<lambda>_. 0)(20 := 40))) s'"
    by (rule fd_call.pipe)
  ultimately show ?thesis
    using fd_calls_refs [OF boot_files_ok r_into_rtranclp] by blast
qed

text \<open>What the frame of the file system means for a process.\<close>

lemma open_frame:
  assumes "open_allowed dv path omode s = Some (b, s1)" "begin_op s1 = Some s2" "open_inode dv path omode s2 = Some (p, s3)"
  shows "ftable s3 = ftable s \<and> ofile s3 = ofile s"
  using outer_files [OF open_allowed_outer [OF assms(1)]] outer_files [OF open_inode_outer [OF assms(3)]]
    outer_files [OF keepsD [OF begin_op_keeps [OF assms(2)], THEN conjunct1]] by simp

text \<open>
  C22: a successful \<^verbatim>\<open>open\<close>.  If \<^verbatim>\<open>sys_open\<close> returns a descriptor, it is the lowest one that was free, it refers to a table entry
  that nobody used, and that entry is fresh: offset zero, one reference, readable unless the mode has the write-only bit,
  writable if it has a write bit.  No other descriptor and no other entry changes.
\<close>

theorem sys_open_fresh:
  assumes "sys_open dv s = Some (r, s')" "0 \<le> r"
  shows "\<exists>fd f ip omode. r = int fd \<and> fd < NOFILE \<and> ofile s fd = None \<and> (\<forall>i<fd. ofile s i \<noteq> None) \<and>
    argint 1 s = Some omode \<and> f < NFILE \<and> f_ref (ftable s f) = 0 \<and> ofile s' = (ofile s)(fd := Some f) \<and>
    ftable s' = (ftable s)(f := (ftable s f)\<lparr>f_type := FD_INODE, f_ref := 1, readable := (omode AND O_WRONLY = 0),
      writable := (omode AND O_WRONLY \<noteq> 0 \<or> omode AND O_RDWR \<noteq> 0), f_ip := Some ip, f_off := 0\<rparr>)"
  using assms(1)
proof (cases rule: sys_open_cases)
  case (opens path omode s1 s2 ip s3 f s4 fd s5 s6 s7)
  note fr = open_frame [OF opens(3-5)]
  note fa = filealloc_Some [OF opens(6)] and fd = fdalloc_Some [OF opens(7)]
  have s7: "ftable s7 = ftable s5" "ofile s7 = ofile s5"
    using outer_files [OF iunlock_outer [OF opens(8)]] outer_files [OF keepsD [OF end_op_keeps [OF opens(9)], THEN conjunct1]]
    by simp_all
  have of4: "ofile s4 = ofile s"
    using fa(3) fr by simp
  show ?thesis
    by (intro exI [of _ fd] exI [of _ f] exI [of _ ip] exI [of _ omode])
      (use opens(2,10,11) fa fd fr s7 of4 in \<open>auto simp: fun_upd_def fun_eq_iff\<close>)
qed (use assms(2) in simp)

text \<open>The superuser opens the root directory, whose i-node is cached.\<close>

definition root_inode :: inode where
  "root_inode = \<lparr>i_dev = ROOTDEV, inum = ROOTINO, iref = 1, ilk = initsleeplock, ivalid = True, i_uid = 0, i_gid = 0,
     i_mode = 0x1A4, i_type = T_DIR, major = 0, minor = 0, nlink = 1, i_size = 0, addrs = (\<lambda>_. 0)\<rparr>"

definition root_shell :: "uint \<Rightarrow> pstate" where
  "root_shell u = (boot_proc (\<lambda>_ _. 0) ((\<lambda>_. 0)(20 := 40, 40 := 47)))\<lparr>p_uid := u, icache := (\<lambda>_. root_inode\<lparr>iref := 0\<rparr>)(0 := root_inode)\<rparr>"

lemma root_shell_sel [simp]:
  "icache (root_shell u) = (\<lambda>_. root_inode\<lparr>iref := 0\<rparr>)(0 := root_inode)" "mypid (root_shell u) = 1" "committing (root_shell u) = False"
  "lh_n (root_shell u) = 0" "outstanding (root_shell u) = 1" "p_uid (root_shell u) = u" "stack_junk (root_shell u) = []"
  "ftable (root_shell u) = (\<lambda>_. closed_file)" "ofile (root_shell u) = (\<lambda>_. None)"
  "psz (root_shell u) = 64" "tf_esp (root_shell u) = 16" "umem (root_shell u) = (\<lambda>_. 0)(20 := 40, 40 := 47)"
  by (simp_all add: root_shell_def boot_proc_def boot_fs_def boot_log_def binit_eq)

lemma root_shell_args: "argstr 0 (root_shell u) = Some ''/''" "argint 1 (root_shell u) = Some 0"
  by (simp_all add: argstr_def argint_def fetchint_def get_word_def fetchstr_def scan_str_iff char_of_def bit_0)

lemma root_shell_open: "\<exists>s'. sys_open no_drivers (root_shell 0) = Some (0, s')"
proof -
  let ?s = "(root_shell 0)\<lparr>outstanding := 2\<rparr>"
  have "namei no_drivers ''/'' ?s = Some (Some 0, set_inode 0 (root_inode\<lparr>iref := 2\<rparr>) ?s)"
    by (simp add: namei_def namex_def namex_loop_walk path_elems_def iget_def NINODE_def upt_conv_Cons root_inode_def)
  then show ?thesis
    by (simp add: sys_open_def root_shell_args [unfolded One_nat_def] open_allowed_def ROOT_def begin_op_def
      MAXOPBLOCKS_def LOGSIZE_def open_inode_def O_RDONLY_def ilock_def root_inode_def acquiresleep_def initsleeplock_def
      filealloc_def closed_file_def NFILE_def upt_conv_Cons set_inode_def fdalloc_def NOFILE_def set_file_def iunlock_def
      holdingsleep_def end_op_def)
qed


theorem sys_open_fresh_witness:
  "\<exists>s'. sys_open no_drivers (root_shell 0) = Some (0, s') \<and> (\<exists>f. ofile s' 0 = Some f \<and> f_type (ftable s' f) = FD_INODE)"
proof -
  obtain s' where s': "sys_open no_drivers (root_shell 0) = Some (0, s')"
    using root_shell_open by blast
  from sys_open_fresh [OF this] obtain f ip omode where
    "ofile s' = (ofile (root_shell 0))(0 := Some f)" "ftable s' = (ftable (root_shell 0))(f :=
      (ftable (root_shell 0) f)\<lparr>f_type := FD_INODE, f_ref := 1, readable := (omode AND O_WRONLY = 0),
      writable := (omode AND O_WRONLY \<noteq> 0 \<or> omode AND O_RDWR \<noteq> 0), f_ip := Some ip, f_off := 0\<rparr>)"
    by auto
  then show ?thesis
    using s' by simp
qed

section \<open>Permissions\<close>

text \<open>
  What the directory that holds the name of \<open>path\<close> says in the state \<open>s\<close>: the name is exempt, or the directory has the bit
  \<open>own\<close> and belongs to the user, or it has the bit \<open>oth\<close>.
\<close>

definition dir_allows :: "('a pstate_scheme) devsw \<Rightarrow> string \<Rightarrow> uint \<Rightarrow> uint \<Rightarrow> 'a pstate_scheme \<Rightarrow> bool" where
  "dir_allows dv path own oth s =
     (case nameiparent dv path (stack_junk s) s of
        None \<Rightarrow> False
      | Some (p, name, s1) \<Rightarrow>
          take 6 name = ''passwd'' \<or> take 5 name = ''group'' \<or>
          (case p of
             None \<Rightarrow> False
           | Some d \<Rightarrow>
               (case ilock (Some d) s1 of
                  None \<Rightarrow> False
                | Some s2 \<Rightarrow>
                    i_mode (icache s2 d) AND own \<noteq> 0 \<and> i_uid (icache s2 d) = p_uid s \<or> i_mode (icache s2 d) AND oth \<noteq> 0)))"

lemma strncmp_prefix: "CHR 0x00 \<notin> set q \<Longrightarrow> strncmp_str (length q) p q = 0 \<longleftrightarrow> take (length q) p = q"
proof (induction q arbitrary: p)
  case (Cons d q)
  then show ?case
    using of_char_eq_iff [of d "CHR 0x00"] by (cases p) (auto simp: of_char_eq_iff)
qed simp

lemma bypass_iff: "bypass name \<longleftrightarrow> take 6 name = ''passwd'' \<or> take 5 name = ''group''"
  using strncmp_prefix [of "''passwd''" name] strncmp_prefix [of "''group''" name]
  by (simp add: bypass_def numeral_eq_Suc)

text \<open>The verdict of the two checks, when they return.\<close>

lemma validate_verdict:
  assumes "validate perm dv path s = Some (b, s')"
  shows "b \<longleftrightarrow> dir_allows dv path (push_bit 6 perm) perm s"
proof -
  obtain p name s1 where n: "nameiparent dv path (stack_junk s) s = Some (p, name, s1)"
    using assms by (auto simp: validate_def bind_eq_Some_conv)
  show ?thesis
  proof (cases "bypass name")
    case False
    with assms n obtain s2 d s3 where l: "ilock p s1 = Some s2" "p = Some d" "iunlock p s2 = Some s3"
      and b: "b = may perm (p_uid s3) (i_uid (icache s2 d)) (i_mode (icache s2 d))"
      by (auto simp: validate_def bind_eq_Some_conv Let_def)
    have "p_uid s3 = p_uid s"
      using outerD [OF nameiparent_outer [OF n]] outerD [OF ilock_outer [OF l(1)]] outerD [OF iunlock_outer [OF l(3)]]
      by (simp add: proc_same_def)
    then show ?thesis
      using n l b False by (auto simp: dir_allows_def may_def bypass_iff)
  next
    case True
    then show ?thesis
      using n assms by (auto simp: validate_def dir_allows_def bypass_iff)
  qed
qed

lemma validateRead_verdict: "validateRead dv path s = Some (b, s') \<Longrightarrow> b \<longleftrightarrow> dir_allows dv path 0x100 4 s"
  using validate_verdict [of READ dv path s b s'] by (simp add: validateRead_def READ_def)

lemma validateWrite_verdict: "validateWrite dv path s = Some (b, s') \<Longrightarrow> b \<longleftrightarrow> dir_allows dv path 0x80 2 s"
  using validate_verdict [of WRITE dv path s b s'] by (simp add: validateWrite_def WRITE_def)

lemma open_allowed_checked:
  assumes "open_allowed dv path omode s = Some (True, s1)" "p_uid s \<noteq> ROOT"
  shows "(omode \<in> {0, 2} \<longrightarrow> dir_allows dv path 0x100 4 s) \<and> (omode \<in> {1, 0x200} \<longrightarrow> dir_allows dv path 0x80 2 s) \<and>
    (omode = 2 \<longrightarrow> (\<exists>t. validateRead dv path s = Some (True, t) \<and> dir_allows dv path 0x80 2 t)) \<and>
    (omode \<notin> {0, 1, 2, 0x200} \<longrightarrow> s1 = s)"
  using assms
  by (auto simp: open_allowed_def bind_eq_Some_conv O_RDONLY_def O_WRONLY_def O_RDWR_def O_CREATE_def
      split: if_splits dest: validateRead_verdict validateWrite_verdict)

lemma open_allowed_unchecked:
  "omode \<notin> {O_RDONLY, O_WRONLY, O_RDWR, O_CREATE} \<Longrightarrow> open_allowed dv path omode s = Some (True, s)"
  by (simp add: open_allowed_def)

lemma create_checked:
  assumes "create dv path t mj mn s = Some (Some ip, s')" "p_uid s \<noteq> ROOT"
  shows "dir_allows dv path 0x80 2 s"
  using assms by (auto simp: create_def bind_eq_Some_conv split: if_splits dest: validateWrite_verdict)

text \<open>
  C11: opening is checked against the directory.  When a process that is not the superuser gets a descriptor, then the directory
  that holds the name allowed it at the time of the check.  For the modes read-only and read-write the directory, in the state in
  which the call began, belonged to the user and had the owner's read bit, or had the read bit for others.  For the modes
  write-only and create the same holds of the write bits.  For read-write it holds of the write bits in the state that the first
  check left, and for every other mode that contains the create bit it holds of the write bits in the state in which the
  transaction of the call began.  Exempt is a name buffer that begins with \<^verbatim>\<open>passwd\<close> or \<^verbatim>\<open>group\<close>.  Of the remaining
  modes nothing is claimed.
\<close>

theorem sys_open_checked:
  assumes "sys_open dv s = Some (r, s')" "0 \<le> r" "p_uid s \<noteq> ROOT" "argstr 0 s = Some path" "argint 1 s = Some omode"
  shows "(omode \<in> {0, 2} \<longrightarrow> dir_allows dv path 0x100 4 s) \<and>
    (omode \<in> {1, 0x200} \<longrightarrow> dir_allows dv path 0x80 2 s) \<and>
    (omode = 2 \<longrightarrow> (\<exists>t. validateRead dv path s = Some (True, t) \<and> dir_allows dv path 0x80 2 t)) \<and>
    (omode AND 0x200 \<noteq> 0 \<and> omode \<noteq> 0x200 \<longrightarrow> (\<exists>t. begin_op s = Some t \<and> dir_allows dv path 0x80 2 t))"
  using assms(1)
proof (cases rule: sys_open_cases)
  case (opens path' omode' s1 s2 ip s3)
  then have run: "open_allowed dv path omode s = Some (True, s1)" "begin_op s1 = Some s2"
      "open_inode dv path omode s2 = Some (Some ip, s3)"
    using assms(4,5) by simp_all
  note c = open_allowed_checked [OF run(1) assms(3)]
  have "dir_allows dv path 0x80 2 s2 \<and> s1 = s" if "omode AND 0x200 \<noteq> 0" "omode \<noteq> 0x200"
  proof -
    have "omode \<notin> {0, 1, 2, 0x200}"
      using that by auto
    then have "s1 = s"
      using c by blast
    moreover have "p_uid s2 \<noteq> ROOT"
      using run(2) assms(3) \<open>s1 = s\<close> by (auto simp: begin_op_def split: if_splits)
    moreover have "create dv path T_FILE 0 0 s2 = Some (Some ip, s3)"
      using run(3) that(1) by (simp add: open_inode_def O_CREATE_def)
    ultimately show ?thesis
      using create_checked by blast
  qed
  then show ?thesis
    using c run(2) by blast
qed (use assms(2) in simp)

text \<open>
  C34: the permission check has no directory to look at.  Let a process that is not the superuser open, in one of the four checked
  modes, a path for which the lookup of the directory returns a null i-node: the root directory, the empty path, any path of
  slashes, or a path whose directory does not exist.  When the name buffer of the check does not begin with \<^verbatim>\<open>passwd\<close> or
  \<^verbatim>\<open>group\<close>, the call returns no error and does not return at all: the null i-node is handed to \<^verbatim>\<open>ilock\<close>, whose test for
  it is a panic.  When the buffer does begin so, which for a path without any element is what the uninitialised bytes of the
  kernel stack decide, the check lets the call pass (for the modes with one check, in the state that the lookup left).
\<close>

theorem sys_open_no_parent_panics:
  assumes "argstr 0 s = Some path" "argint 1 s = Some omode" "omode \<in> {O_RDONLY, O_WRONLY, O_RDWR, O_CREATE}"
    "p_uid s \<noteq> ROOT" "nameiparent dv path (stack_junk s) s = Some (None, name, s1)"
  shows "(\<not> bypass name \<longrightarrow> ilock None s1 = panic ''ilock'' \<and> sys_open dv s = None) \<and>
    (bypass name \<and> omode \<noteq> O_RDWR \<longrightarrow> open_allowed dv path omode s = Some (True, s1))"
proof -
  have v: "validate perm dv path s = (if bypass name then Some (True, s1) else None)" for perm
    using assms(5) by (simp add: validate_def ilock_def)
  have "sys_open dv s = None" if "\<not> bypass name"
  proof -
    have "open_allowed dv path omode s = None"
      using v that assms(3,4) by (auto simp: open_allowed_def validateRead_def validateWrite_def O_RDONLY_def O_WRONLY_def
        O_RDWR_def O_CREATE_def)
    then show ?thesis
      using assms(1,2) by (simp add: sys_open_def)
  qed
  moreover have "open_allowed dv path omode s = Some (True, s1)" if "bypass name" "omode \<noteq> O_RDWR"
    using v that assms(3,4) by (auto simp: open_allowed_def validateRead_def validateWrite_def O_RDONLY_def O_WRONLY_def
      O_RDWR_def O_CREATE_def)
  ultimately show ?thesis
    by (simp add: ilock_def)
qed

lemma root_shell_parent: "\<exists>s1. nameiparent no_drivers ''/'' [] (root_shell 1000) = Some (None, [], s1)"
  by (simp add: nameiparent_def namex_def namex_loop_walk path_elems_def iget_def NINODE_def upt_conv_Cons root_inode_def
    iput_def set_inode_def acquiresleep_def initsleeplock_def)

lemma bypass_Nil: "\<not> bypass []"
  by (simp add: bypass_def strncmp_str_eq_0)

text \<open>The uninitialised buffer of \<^verbatim>\<open>validateRead\<close> may happen to hold a name that lets the call pass.\<close>

definition lucky_shell :: pstate where
  "lucky_shell = (root_shell 1000)\<lparr>stack_junk := ''passwd''\<rparr>"

lemma lucky_args: "argstr 0 lucky_shell = Some ''/''" "argint 1 lucky_shell = Some 0"
  by (simp_all add: lucky_shell_def argstr_def argint_def fetchint_def get_word_def fetchstr_def scan_str_iff char_of_def bit_0)

lemma lucky_sel [simp]:
  "icache lucky_shell = (\<lambda>_. root_inode\<lparr>iref := 0\<rparr>)(0 := root_inode)" "mypid lucky_shell = 1" "committing lucky_shell = False"
  "lh_n lucky_shell = 0" "outstanding lucky_shell = 1" "p_uid lucky_shell = 1000" "stack_junk lucky_shell = ''passwd''"
  "ftable lucky_shell = (\<lambda>_. closed_file)" "ofile lucky_shell = (\<lambda>_. None)"
  by (simp_all add: lucky_shell_def)

lemma root_inode_sel [simp]:
  "iref root_inode = 1" "ilk root_inode = initsleeplock" "ivalid root_inode" "i_type root_inode = T_DIR"
  "nlink root_inode = 1" "i_dev root_inode = ROOTDEV" "inum root_inode = ROOTINO"
  by (simp_all add: root_inode_def)

lemma root_inode_again: "root_inode\<lparr>iref := 1\<rparr> = root_inode" "root_inode\<lparr>ilk := initsleeplock\<rparr> = root_inode"
  by (simp_all add: root_inode_def)

lemma lucky_open: "\<exists>s'. sys_open no_drivers lucky_shell = Some (0, s')"
proof -
  let ?c = "(\<lambda>_. root_inode\<lparr>iref := 0\<rparr>)(0 := root_inode)"
  let ?s = "lucky_shell\<lparr>icache := ?c\<rparr>"
  have v: "validate READ no_drivers ''/'' lucky_shell = Some (True, ?s)"
    by (simp add: validate_def nameiparent_def namex_def namex_loop_walk path_elems_def iget_def NINODE_def upt_conv_Cons
      root_inode_def iput_def set_inode_def acquiresleep_def releasesleep_def initsleeplock_def bypass_def
      strncmp_str_eq_0)
  let ?t = "set_inode 0 (root_inode\<lparr>iref := 2\<rparr>) (?s\<lparr>outstanding := 2\<rparr>)"
  have n: "namei no_drivers ''/'' (?s\<lparr>outstanding := 2\<rparr>) = Some (Some 0, ?t)"
    by (simp add: namei_def namex_def namex_loop_walk path_elems_def iget_def NINODE_def upt_conv_Cons)
  have "open_inode no_drivers ''/'' 0 (?s\<lparr>outstanding := 2\<rparr>) =
      Some (Some 0, set_inode 0 (root_inode\<lparr>iref := 2, ilk := \<lparr>locked = True, lk_pid = 1\<rparr>\<rparr>) ?t)"
    by (simp add: open_inode_def n O_RDONLY_def ilock_def acquiresleep_def initsleeplock_def)
  moreover have "begin_op ?s = Some (?s\<lparr>outstanding := 2\<rparr>)"
    by (simp add: begin_op_def MAXOPBLOCKS_def LOGSIZE_def)
  moreover have "open_allowed no_drivers ''/'' 0 lucky_shell = Some (True, ?s)"
    by (simp add: open_allowed_def validateRead_def v O_RDONLY_def O_WRONLY_def O_RDWR_def O_CREATE_def ROOT_def)
  ultimately show ?thesis
    by (simp add: sys_open_def lucky_args [unfolded One_nat_def] filealloc_def closed_file_def NFILE_def upt_conv_Cons
      set_inode_def fdalloc_def NOFILE_def set_file_def iunlock_def holdingsleep_def end_op_def)
qed

lemma lucky_parent: "\<exists>s1. nameiparent no_drivers ''/'' ''passwd'' lucky_shell = Some (None, ''passwd'', s1)"
  by (simp add: nameiparent_def namex_def namex_loop_walk path_elems_def iget_def NINODE_def upt_conv_Cons iput_def
    set_inode_def acquiresleep_def initsleeplock_def)

theorem sys_open_no_parent_panics_witness:
  "sys_open no_drivers (root_shell 1000) = None \<and> (\<exists>s1. open_allowed no_drivers ''/'' 0 lucky_shell = Some (True, s1))"
proof -
  obtain s1 where "nameiparent no_drivers ''/'' (stack_junk (root_shell 1000)) (root_shell 1000) = Some (None, [], s1)"
    using root_shell_parent by auto
  from sys_open_no_parent_panics [OF root_shell_args _ _ this] have "sys_open no_drivers (root_shell 1000) = None"
    by (simp add: O_RDONLY_def ROOT_def bypass_Nil)
  moreover obtain s1 where "nameiparent no_drivers ''/'' (stack_junk lucky_shell) lucky_shell = Some (None, ''passwd'', s1)"
    using lucky_parent by auto
  from sys_open_no_parent_panics [OF lucky_args _ _ this]
  have "open_allowed no_drivers ''/'' 0 lucky_shell = Some (True, s1)"
    by (simp add: O_RDONLY_def O_RDWR_def ROOT_def bypass_iff)
  ultimately show ?thesis
    by blast
qed

text \<open>
  The root directory, readable for all, with its entry for itself in a cached block, and a process of user 1000 that opens it by the path
  \<^verbatim>\<open>/.\<close>.
\<close>

definition dot_buf :: buf where
  "dot_buf = \<lparr>B_VALID = True, B_DIRTY = False, dev = 1, blockno = 40, lock = initsleeplock, refcnt = 0,
     data = (\<lambda>_. 0)(0 := 1, 2 := 46)\<rparr>"

definition dot_dir :: inode where
  "dot_dir = root_inode\<lparr>i_size := 16, addrs := (\<lambda>_. 40)\<rparr>"

definition dot_shell :: pstate where
  "dot_shell = (root_shell 1000)\<lparr>umem := (\<lambda>_. 0)(20 := 40, 40 := 47, 41 := 46), bufs := (\<lambda>_. dot_buf), lru := [0],
     icache := (\<lambda>_. root_inode\<lparr>iref := 0\<rparr>)(0 := dot_dir)\<rparr>"

lemma dot_args: "argstr 0 dot_shell = Some ''/.''" "argint 1 dot_shell = Some 0"
  by (auto simp: dot_shell_def argstr_def argint_def fetchint_def get_word_def fetchstr_def scan_str_iff char_of_def bit_0 less_Suc_eq)

lemma dot_sel [simp]:
  "icache dot_shell = (\<lambda>_. root_inode\<lparr>iref := 0\<rparr>)(0 := dot_dir)" "mypid dot_shell = 1" "committing dot_shell = False"
  "lh_n dot_shell = 0" "outstanding dot_shell = 1" "p_uid dot_shell = 1000" "stack_junk dot_shell = []"
  "ftable dot_shell = (\<lambda>_. closed_file)" "ofile dot_shell = (\<lambda>_. None)" "bufs dot_shell = (\<lambda>_. dot_buf)" "lru dot_shell = [0]"
  by (simp_all add: dot_shell_def)

lemma dot_dir_sel [simp]:
  "iref dot_dir = 1" "ilk dot_dir = initsleeplock" "ivalid dot_dir" "i_type dot_dir = T_DIR" "nlink dot_dir = 1"
  "i_dev dot_dir = ROOTDEV" "inum dot_dir = ROOTINO" "i_mode dot_dir = 0x1A4" "i_uid dot_dir = 0" "i_size dot_dir = 16"
  "addrs dot_dir = (\<lambda>_. 40)"
  by (simp_all add: dot_dir_def root_inode_def)

lemma dot_entry: "dirent_of (map (data dot_buf) [0..<16]) = \<lparr>de_inum = ROOTINO, de_name = ''.''\<rparr>"
  by (simp add: dirent_of_def dot_buf_def get16_def ROOTINO_def DIRSIZ_def upt_conv_Cons char_of_def bit_0)

text \<open>Reading the entry leaves the state as it was, and the entry names the directory itself.\<close>

lemma dot_read:
  assumes "bufs s = (\<lambda>_. dot_buf)" "lru s = [0]" "mypid s = 1" "i_type (icache s 0) = T_DIR" "i_size (icache s 0) = 16"
    "addrs (icache s 0) = (\<lambda>_. 40)" "i_dev (icache s 0) = ROOTDEV"
  shows "\<exists>bs. readi dv 0 0 16 s = Some (16, bs, s) \<and> dirent_of bs = \<lparr>de_inum = ROOTINO, de_name = ''.''\<rparr>"
proof -
  let ?b = "dot_buf\<lparr>refcnt := 1, lock := \<lparr>locked = True, lk_pid = 1\<rparr>\<rparr>"
  have "s\<lparr>bufs := (\<lambda>_. dot_buf), lru := [0]\<rparr> = s"
    using assms(1,2) by (metis bstate.surjective bstate.update_convs)
  moreover have "(\<lambda>_. dot_buf)(0::nat := dot_buf) = (\<lambda>_. dot_buf)" "dot_buf\<lparr>lock := initsleeplock, refcnt := 0\<rparr> = dot_buf" "refcnt dot_buf = 0"
    by (auto simp: dot_buf_def)
  ultimately have "brelse 0 (set_buf 0 ?b s) = Some s"
    using assms(1-3) by (simp add: brelse_def set_buf_def holdingsleep_def releasesleep_def initsleeplock_def Let_def)
  moreover have "bread ROOTDEV 40 s = Some (0, set_buf 0 ?b s)"
    using assms(1-3) by (simp add: bread_def bget_def acquiresleep_def dot_buf_def initsleeplock_def set_buf_def ROOTDEV_def)
  moreover have "bmap 0 0 s = Some (40, s)"
    using assms(6) by (simp add: bmap_def bmap_slot_def NDIRECT_def)
  ultimately have "readi_loop 0 0 16 s = Some (map (data dot_buf) [0..<16], s)"
    using assms(7) by (simp add: readi_loop.simps [of 0 0 16] readi_loop.simps [of 0 _ 0] chunk_def BSIZE_def set_buf_def)
  then show ?thesis
    using assms(4,5) dot_entry by (simp add: readi_def as_int_def T_DIR_def T_DEV_def)
qed

text \<open>The states of the call: only the i-node of the directory changes.\<close>

definition dot_at :: "int \<Rightarrow> bool \<Rightarrow> pstate \<Rightarrow> pstate" where
  "dot_at k held s = s\<lparr>icache := (\<lambda>_. root_inode\<lparr>iref := 0\<rparr>)
     (0 := dot_dir\<lparr>iref := k, ilk := (if held then \<lparr>locked = True, lk_pid = 1\<rparr> else initsleeplock)\<rparr>)\<rparr>"

lemma dot_dir_swap [simp]: "dot_dir\<lparr>ilk := l, iref := k\<rparr> = dot_dir\<lparr>iref := k, ilk := l\<rparr>"
  by (simp add: dot_dir_def root_inode_def)

lemma dot_lookup:
  assumes "bufs s = (\<lambda>_. dot_buf)" "lru s = [0]" "mypid s = 1" "0 < k"
  shows "dirlookup dv 0 ''.'' (dot_at k held s) = Some (Some 0, 0, dot_at (k + 1) held s)"
proof -
  have "\<exists>bs. readi dv 0 0 16 (dot_at k held s) = Some (16, bs, dot_at k held s) \<and> dirent_of bs = \<lparr>de_inum = ROOTINO, de_name = ''.''\<rparr>"
    by (rule dot_read) (simp_all add: dot_at_def assms)
  then show ?thesis
    using assms(4) by (auto simp: dirlookup_def entry_offs_def dot_at_def namecmp_def strncmp_str_eq_0 iget_def NINODE_def
      upt_conv_Cons set_inode_def ROOTINO_def)
qed

lemma dot_lock:
  assumes "mypid s = 1" "0 < k"
  shows "ilock (Some 0) (dot_at k False s) = Some (dot_at k True s)" "iunlock (Some 0) (dot_at k True s) = Some (dot_at k False s)"
    "iput 0 (dot_at k False s) = Some (dot_at (k - 1) False s)" "iget ROOTDEV ROOTINO (dot_at k False s) = Some (0, dot_at (k + 1) False s)"
  using assms by (simp_all add: dot_at_def ilock_def iunlock_def iput_def iget_def set_inode_def acquiresleep_def releasesleep_def
    holdingsleep_def initsleeplock_def NINODE_def upt_conv_Cons)

lemma dot_elems: "path_elems ''/.'' = [''.'']"
  by (simp add: path_elems_def DIRSIZ_def)

lemma dot_parent:
  assumes "mypid s = 1" "0 < k"
  shows "nameiparent dv ''/.'' junk (dot_at k False s) = Some (Some 0, ''.'', dot_at (k + 1) False s)"
  using assms by (simp add: nameiparent_def namex_def namex_loop_walk dot_elems dot_lock) (simp add: dot_at_def)

lemma dot_name:
  assumes "bufs s = (\<lambda>_. dot_buf)" "lru s = [0]" "mypid s = 1" "0 < k"
  shows "namei dv ''/.'' (dot_at k False s) = Some (Some 0, dot_at (k + 1) False s)"
proof -
  note run = dot_lock [OF assms(3,4)] dot_lock [OF assms(3), of "k + 1"] dot_lock [OF assms(3), of "2 + k"]
    dot_lookup [OF assms(1-3), of "k + 1" dv True]
  have "i_type (icache (dot_at (k + 1) True s) 0) = T_DIR"
    by (simp add: dot_at_def)
  then show ?thesis
    using run assms(4) by (simp add: namei_def namex_def namex_loop_walk dot_elems iunlockput_def add.commute [of 1 k])
qed

lemma dot_open: "\<exists>s'. sys_open no_drivers dot_shell = Some (0, s')"
proof -
  have "dot_at 1 False dot_shell = dot_shell"
    by (simp add: dot_at_def dot_shell_def dot_dir_def root_inode_def)
  then have n: "nameiparent no_drivers ''/.'' [] dot_shell = Some (Some 0, ''.'', dot_at 2 False dot_shell)"
    using dot_parent [of dot_shell 1 no_drivers "[]"] by simp
  let ?s = "dot_at 2 False dot_shell"
  have v: "validate READ no_drivers ''/.'' dot_shell = Some (True, ?s)"
    by (simp add: validate_def n dot_lock bypass_def strncmp_str_eq_0) (simp add: dot_at_def may_def READ_def)
  have "begin_op ?s = Some (dot_at 2 False (dot_shell\<lparr>outstanding := 2\<rparr>))"
    by (simp add: begin_op_def MAXOPBLOCKS_def LOGSIZE_def dot_at_def)
  moreover have "open_inode no_drivers ''/.'' 0 (dot_at 2 False (dot_shell\<lparr>outstanding := 2\<rparr>)) =
      Some (Some 0, dot_at 3 True (dot_shell\<lparr>outstanding := 2\<rparr>))"
    by (simp add: open_inode_def dot_name O_RDONLY_def O_CREATE_def dot_lock)
  moreover have "open_allowed no_drivers ''/.'' 0 dot_shell = Some (True, ?s)"
    by (simp add: open_allowed_def validateRead_def v O_RDONLY_def O_WRONLY_def O_RDWR_def O_CREATE_def ROOT_def)
  ultimately show ?thesis
    by (simp add: sys_open_def dot_args [unfolded One_nat_def] dot_at_def filealloc_def closed_file_def NFILE_def upt_conv_Cons
      set_inode_def fdalloc_def NOFILE_def set_file_def iunlock_def holdingsleep_def end_op_def)
qed

theorem sys_open_checked_witness:
  "(\<exists>s'. sys_open no_drivers dot_shell = Some (0, s')) \<and> dir_allows no_drivers ''/.'' 0x100 4 dot_shell"
proof -
  obtain s' where s': "sys_open no_drivers dot_shell = Some (0, s')"
    using dot_open by blast
  have "p_uid dot_shell \<noteq> ROOT"
    by (simp add: ROOT_def)
  then show ?thesis
    using sys_open_checked [OF s' _ _ dot_args] s' by auto
qed

end
