(* ===== verification/Vm.thy ===== *)
theory Vm
  imports Kalloc
begin

text \<open>
  \<^verbatim>\<open>src/kernel/vm.c\<close>: page tables and user memory.  A page directory is the kernel address of a page of 1024 entries;
  an entry that is present holds the physical address of a page table, whose entries hold physical page addresses and
  permission bits.  A pointer to a page-table entry is the address of its table with the index in it; the null
  pointer is \<open>None\<close>.  \<open>kdata\<close> is the linker's symbol \<^verbatim>\<open>data\<close>.
\<close>

definition PTE_P :: uint where "PTE_P = 1"
definition PTE_W :: uint where "PTE_W = 2"
definition PTE_U :: uint where "PTE_U = 4"

definition PDX :: "uint \<Rightarrow> nat" where "PDX va = unat (drop_bit 22 va AND 0x3FF)"
definition PTX :: "uint \<Rightarrow> nat" where "PTX va = unat (drop_bit 12 va AND 0x3FF)"

definition PGADDR :: "nat \<Rightarrow> nat \<Rightarrow> nat \<Rightarrow> uint" where
  "PGADDR d t off = push_bit 22 (of_nat d) OR push_bit 12 (of_nat t) OR of_nat off"

definition PTE_ADDR :: "uint \<Rightarrow> uint" where "PTE_ADDR pte = pte AND NOT 0xFFF"
definition PTE_FLAGS :: "uint \<Rightarrow> uint" where "PTE_FLAGS pte = pte AND 0xFFF"

definition get_pte :: "kmem \<Rightarrow> uint \<times> nat \<Rightarrow> uint" where
  "get_pte k p = get32 (page k (fst p)) (4 * snd p)"

definition set_pte :: "uint \<times> nat \<Rightarrow> uint \<Rightarrow> kmem \<Rightarrow> kmem" where
  "set_pte p v k = k\<lparr>page := (page k)(fst p := put32 (page k (fst p)) (4 * snd p) v)\<rparr>"

definition fill_page :: "uint \<Rightarrow> block \<Rightarrow> kmem \<Rightarrow> kmem" where
  "fill_page a b k = k\<lparr>page := (page k)(a := b)\<rparr>"

definition walkpgdir :: "uint \<Rightarrow> uint \<Rightarrow> bool \<Rightarrow> kmem \<Rightarrow> (uint \<times> nat) option \<times> kmem" where
  "walkpgdir pgdir va alloc k =
     (let pde = get_pte k (pgdir, PDX va) in
      if pde AND PTE_P \<noteq> 0 then (Some (P2V (PTE_ADDR pde), PTX va), k)
      else if \<not> alloc then (None, k)
      else
        (case kalloc k of (pgtab, k) \<Rightarrow>
           if pgtab = 0 then (None, k)
           else
             let k = fill_page pgtab zero_block k;
                 k = set_pte (pgdir, PDX va) (V2P pgtab OR PTE_P OR PTE_W OR PTE_U) k
             in (Some (pgtab, PTX va), k)))"

partial_function (option) mappages_loop :: "uint \<Rightarrow> uint \<Rightarrow> uint \<Rightarrow> uint \<Rightarrow> uint \<Rightarrow> kmem \<Rightarrow> (int \<times> kmem) option" where
  "mappages_loop pgdir a lst pa perm k =
     (case walkpgdir pgdir a True k of
        (None, k) \<Rightarrow> Some (-1, k)
      | (Some pte, k) \<Rightarrow>
          if get_pte k pte AND PTE_P \<noteq> 0 then panic ''remap''
          else
            let k = set_pte pte (pa OR perm OR PTE_P) k in
            if a = lst then Some (0, k)
            else mappages_loop pgdir (a + PGSIZE) lst (pa + PGSIZE) perm k)"

definition mappages :: "uint \<Rightarrow> uint \<Rightarrow> uint \<Rightarrow> uint \<Rightarrow> uint \<Rightarrow> kmem \<Rightarrow> (int \<times> kmem) option" where
  "mappages pgdir va sz pa perm k =
     mappages_loop pgdir (PGROUNDDOWN va) (PGROUNDDOWN (va + sz - 1)) pa perm k"

section \<open>Growing and shrinking user memory\<close>

partial_function (option) deallocuvm_loop :: "uint \<Rightarrow> uint \<Rightarrow> uint \<Rightarrow> kmem \<Rightarrow> kmem option" where
  "deallocuvm_loop pgdir a oldsz k =
     (if a < oldsz then
        (case fst (walkpgdir pgdir a False k) of
           None \<Rightarrow> deallocuvm_loop pgdir (PGADDR (PDX a + 1) 0 0 - PGSIZE + PGSIZE) oldsz k
         | Some pte \<Rightarrow>
             if get_pte k pte AND PTE_P \<noteq> 0 then
               (if PTE_ADDR (get_pte k pte) = 0 then panic ''kfree''
                else do {
                  k \<leftarrow> kfree (P2V (PTE_ADDR (get_pte k pte))) k;
                  deallocuvm_loop pgdir (a + PGSIZE) oldsz (set_pte pte 0 k)
                })
             else deallocuvm_loop pgdir (a + PGSIZE) oldsz k)
      else Some k)"

definition deallocuvm :: "uint \<Rightarrow> uint \<Rightarrow> uint \<Rightarrow> kmem \<Rightarrow> (uint \<times> kmem) option" where
  "deallocuvm pgdir oldsz newsz k =
     (if newsz \<ge> oldsz then Some (oldsz, k)
      else do { k \<leftarrow> deallocuvm_loop pgdir (PGROUNDUP newsz) oldsz k; Some (newsz, k) })"

partial_function (option) allocuvm_loop :: "uint \<Rightarrow> uint \<Rightarrow> uint \<Rightarrow> uint \<Rightarrow> kmem \<Rightarrow> (uint \<times> kmem) option" where
  "allocuvm_loop pgdir a oldsz newsz k =
     (if a < newsz then
        (case kalloc k of (mem, k) \<Rightarrow>
           if mem = 0 then do {
             (_, k) \<leftarrow> deallocuvm pgdir newsz oldsz k;
             Some (0, k)
           } else do {
             (r, k) \<leftarrow> mappages pgdir a PGSIZE (V2P mem) (PTE_W OR PTE_U) (fill_page mem zero_block k);
             if r < 0 then do {
               (_, k) \<leftarrow> deallocuvm pgdir newsz oldsz k;
               k \<leftarrow> kfree mem k;
               Some (0, k)
             } else allocuvm_loop pgdir (a + PGSIZE) oldsz newsz k
           })
      else Some (newsz, k))"

definition allocuvm :: "uint \<Rightarrow> uint \<Rightarrow> uint \<Rightarrow> kmem \<Rightarrow> (uint \<times> kmem) option" where
  "allocuvm pgdir oldsz newsz k =
     (if newsz \<ge> KERNBASE then Some (0, k)
      else if newsz < oldsz then Some (oldsz, k)
      else allocuvm_loop pgdir (PGROUNDUP oldsz) oldsz newsz k)"

definition free_table :: "uint \<Rightarrow> nat \<Rightarrow> kmem \<Rightarrow> kmem option" where
  "free_table pgdir i k =
     (if get_pte k (pgdir, i) AND PTE_P \<noteq> 0 then kfree (P2V (PTE_ADDR (get_pte k (pgdir, i)))) k else Some k)"

definition freevm :: "uint \<Rightarrow> kmem \<Rightarrow> kmem option" where
  "freevm pgdir k =
     (if pgdir = 0 then panic ''freevm: no pgdir''
      else do {
        (_, k) \<leftarrow> deallocuvm pgdir KERNBASE 0 k;
        k \<leftarrow> mfold (free_table pgdir) [0..<1024] k;
        kfree pgdir k
      })"

section \<open>The kernel part of a page table\<close>

definition kmap :: "uint \<Rightarrow> (uint \<times> uint \<times> uint \<times> uint) list" where
  "kmap kdata =
     [(KERNBASE, 0, EXTMEM, PTE_W), (KERNLINK, V2P KERNLINK, V2P kdata, 0), (kdata, V2P kdata, PHYSTOP, PTE_W),
      (DEVSPACE, DEVSPACE, 0, PTE_W)]"

fun setup_maps :: "uint \<Rightarrow> (uint \<times> uint \<times> uint \<times> uint) list \<Rightarrow> kmem \<Rightarrow> (uint \<times> kmem) option" where
  "setup_maps pgdir [] k = Some (pgdir, k)"
| "setup_maps pgdir ((virt, phys_start, phys_end, perm) # ms) k = do {
     (r, k) \<leftarrow> mappages pgdir virt (phys_end - phys_start) phys_start perm k;
     if r < 0 then do { k \<leftarrow> freevm pgdir k; Some (0, k) } else setup_maps pgdir ms k
   }"

definition setupkvm :: "uint \<Rightarrow> kmem \<Rightarrow> (uint \<times> kmem) option" where
  "setupkvm kdata k =
     (case kalloc k of (pgdir, k) \<Rightarrow>
        if pgdir = 0 then Some (0, k)
        else if P2V PHYSTOP > DEVSPACE then panic ''PHYSTOP too high''
        else setup_maps pgdir (kmap kdata) (fill_page pgdir zero_block k))"

definition inituvm :: "uint \<Rightarrow> uchar list \<Rightarrow> kmem \<Rightarrow> kmem option" where
  "inituvm pgdir init k =
     (if length init \<ge> unat PGSIZE then panic ''inituvm: more than a page''
      else
        (case kalloc k of (mem, k) \<Rightarrow>
           if mem = 0 then undefined_behaviour ''memset of a null pointer''
           else do {
             (_, k) \<leftarrow> mappages pgdir 0 PGSIZE (V2P mem) (PTE_W OR PTE_U) (fill_page mem zero_block k);
             Some (fill_page mem (\<lambda>i. if i < length init then init ! i else page k mem i) k)
           }))"

definition clearpteu :: "uint \<Rightarrow> uint \<Rightarrow> kmem \<Rightarrow> kmem option" where
  "clearpteu pgdir uva k =
     (case fst (walkpgdir pgdir uva False k) of
        None \<Rightarrow> panic ''clearpteu''
      | Some pte \<Rightarrow> Some (set_pte pte (get_pte k pte AND NOT PTE_U) k))"

section \<open>Copying\<close>

partial_function (option) copyuvm_loop :: "uint \<Rightarrow> uint \<Rightarrow> uint \<Rightarrow> uint \<Rightarrow> kmem \<Rightarrow> (uint \<times> kmem) option" where
  "copyuvm_loop pgdir d i sz k =
     (if i < sz then
        (case fst (walkpgdir pgdir i False k) of
           None \<Rightarrow> panic ''copyuvm: pte should exist''
         | Some pte \<Rightarrow>
             let e = get_pte k pte in
             if e AND PTE_P = 0 then panic ''copyuvm: page not present''
             else
               (case kalloc k of (mem, k) \<Rightarrow>
                  if mem = 0 then do { k \<leftarrow> freevm d k; Some (0, k) }
                  else do {
                    (r, k) \<leftarrow> mappages d i PGSIZE (V2P mem) (PTE_FLAGS e)
                      (fill_page mem (page k (P2V (PTE_ADDR e))) k);
                    if r < 0 then do { k \<leftarrow> kfree mem k; k \<leftarrow> freevm d k; Some (0, k) }
                    else copyuvm_loop pgdir d (i + PGSIZE) sz k
                  }))
      else Some (d, k))"

definition copyuvm :: "uint \<Rightarrow> uint \<Rightarrow> uint \<Rightarrow> kmem \<Rightarrow> (uint \<times> kmem) option" where
  "copyuvm kdata pgdir sz k = do {
     (d, k) \<leftarrow> setupkvm kdata k;
     if d = 0 then Some (0, k) else copyuvm_loop pgdir d 0 sz k
   }"

definition uva2ka :: "uint \<Rightarrow> uint \<Rightarrow> kmem \<Rightarrow> uint option" where
  "uva2ka pgdir uva k =
     (case fst (walkpgdir pgdir uva False k) of
        None \<Rightarrow> undefined_behaviour ''null page-table entry''
      | Some pte \<Rightarrow>
          if get_pte k pte AND PTE_P = 0 then Some 0
          else if get_pte k pte AND PTE_U = 0 then Some 0
          else Some (P2V (PTE_ADDR (get_pte k pte))))"

text \<open>\<^verbatim>\<open>n = PGSIZE - (va - va0); if(n > len) n = len\<close>, for the bytes that remain.\<close>

definition page_chunk :: "uint \<Rightarrow> nat \<Rightarrow> nat" where
  "page_chunk va len = min (unat (PGSIZE - (va - PGROUNDDOWN va))) len"

partial_function (option) copyout :: "uint \<Rightarrow> uint \<Rightarrow> uchar list \<Rightarrow> kmem \<Rightarrow> (int \<times> kmem) option" where
  "copyout pgdir va buf k =
     (if length buf > 0 then do {
        pa0 \<leftarrow> uva2ka pgdir (PGROUNDDOWN va) k;
        if pa0 = 0 then Some (-1, k)
        else
          copyout pgdir (PGROUNDDOWN va + PGSIZE) (drop (page_chunk va (length buf)) buf)
            (fill_page pa0 (\<lambda>i. let o0 = unat (va - PGROUNDDOWN va) in
               if o0 \<le> i \<and> i < o0 + page_chunk va (length buf) then buf ! (i - o0) else page k pa0 i) k)
      } else Some (0, k))"

section \<open>Translation\<close>

text \<open>What the hardware makes of a virtual address: its page-table entry, if that is present.\<close>

definition mapped :: "kmem \<Rightarrow> uint \<Rightarrow> uint \<Rightarrow> uint option" where
  "mapped k pgdir va =
     (let pde = get_pte k (pgdir, PDX va) in
      if pde AND PTE_P = 0 then None
      else
        let pte = get_pte k (P2V (PTE_ADDR pde), PTX va) in
        if pte AND PTE_P = 0 then None else Some pte)"

definition table :: "kmem \<Rightarrow> uint \<Rightarrow> nat \<Rightarrow> uint option" where
  "table k pgdir i =
     (let pde = get_pte k (pgdir, i) in if pde AND PTE_P = 0 then None else Some (P2V (PTE_ADDR pde)))"

text \<open>
  A page directory whose tables are pages of their own, none of them on the free list \<open>ps\<close>.
\<close>

definition vm_ok :: "kmem \<Rightarrow> uint list \<Rightarrow> uint \<Rightarrow> bool" where
  "vm_ok k ps pgdir \<longleftrightarrow> kmem_ok k ps \<and> pgdir \<notin> set ps \<and>
     (\<forall>i < 1024. \<forall>t. table k pgdir i = Some t \<longrightarrow> t \<noteq> pgdir \<and> t \<notin> set ps \<and>
        (\<forall>j < 1024. table k pgdir j = Some t \<longrightarrow> j = i))"

lemma PDX_less: "PDX va < 1024" and PTX_less: "PTX va < 1024"
proof -
  have "unat (x AND 0x3FF :: uint) < 1024" for x
  proof -
    have "x AND 0x3FF = take_bit 10 x"
      by (simp add: take_bit_eq_mask mask_eq_exp_minus_1)
    then show ?thesis
      using take_bit_nat_less_exp [of 10 "unat x"] by (simp add: unsigned_take_bit_eq)
  qed
  then show "PDX va < 1024" "PTX va < 1024"
    by (simp_all add: PDX_def PTX_def)
qed

lemma field_bits_eq:
  "take_bit m (drop_bit k a) = take_bit m (drop_bit k b) \<longleftrightarrow> (\<forall>n < m. bit a (n + k) = bit b (n + k))" for a b :: uint
proof
  assume eq: "take_bit m (drop_bit k a) = take_bit m (drop_bit k b)"
  show "\<forall>n < m. bit a (n + k) = bit b (n + k)"
  proof (intro allI impI)
    fix n
    assume "n < m"
    then show "bit a (n + k) = bit b (n + k)"
      using arg_cong [OF eq, of "\<lambda>x. bit x n"] by (simp add: bit_take_bit_iff bit_drop_bit_eq add.commute)
  qed
next
  assume "\<forall>n < m. bit a (n + k) = bit b (n + k)"
  then show "take_bit m (drop_bit k a) = take_bit m (drop_bit k b)"
    by (intro bit_word_eqI) (auto simp: bit_take_bit_iff bit_drop_bit_eq add.commute)
qed

text \<open>Two addresses have the same directory and table index exactly if they lie in the same page.\<close>

lemma same_page: "PDX a = PDX b \<and> PTX a = PTX b \<longleftrightarrow> PGROUNDDOWN a = PGROUNDDOWN b"
proof -
  have m: "x AND 0x3FF = take_bit 10 x" for x :: uint
    by (simp add: take_bit_eq_mask mask_eq_exp_minus_1)
  have d: "PGROUNDDOWN x = push_bit 12 (drop_bit 12 x)" for x
  proof -
    have "PGSIZE - 1 = mask 12"
      by (simp add: PGSIZE_def mask_eq_exp_minus_1)
    then show ?thesis
      unfolding PGROUNDDOWN_def by (simp add: bit_eq_iff bit_simps) auto
  qed
  have "PDX a = PDX b \<longleftrightarrow> take_bit 10 (drop_bit 22 a) = take_bit 10 (drop_bit 22 b)"
    "PTX a = PTX b \<longleftrightarrow> take_bit 10 (drop_bit 12 a) = take_bit 10 (drop_bit 12 b)"
    unfolding PDX_def PTX_def m by (auto intro: unsigned_word_eqI)
  moreover have "take_bit 10 (drop_bit 22 a) = take_bit 10 (drop_bit 22 b) \<and>
      take_bit 10 (drop_bit 12 a) = take_bit 10 (drop_bit 12 b) \<longleftrightarrow> push_bit 12 (drop_bit 12 a) = push_bit 12 (drop_bit 12 b)"
    (is "?L1 \<and> ?L2 \<longleftrightarrow> ?R")
  proof -
    have L: "?L1 \<longleftrightarrow> (\<forall>n < 10. bit a (n + 22) = bit b (n + 22))" "?L2 \<longleftrightarrow> (\<forall>n < 10. bit a (n + 12) = bit b (n + 12))"
      by (rule field_bits_eq)+
    have R: "?R \<longleftrightarrow> (\<forall>n < 32. 12 \<le> n \<longrightarrow> bit a n = bit b n)"
    proof
      assume r: ?R
      show "\<forall>n < 32. 12 \<le> n \<longrightarrow> bit a n = bit b n"
      proof (intro allI impI)
        fix n :: nat
        assume "n < 32" "12 \<le> n"
        then show "bit a n = bit b n"
          using arg_cong [OF r, of "\<lambda>x. bit x n"] by (simp add: bit_simps)
      qed
    next
      assume "\<forall>n < 32. 12 \<le> n \<longrightarrow> bit a n = bit b n"
      then show ?R
        by (intro bit_word_eqI) (auto simp: bit_simps)
    qed
    show ?thesis
    proof
      assume l: "?L1 \<and> ?L2"
      have "bit a n = bit b n" if "n < 32" "12 \<le> n" for n
        using l [unfolded L, THEN conjunct1, rule_format, of "n - 22"] l [unfolded L, THEN conjunct2, rule_format, of "n - 12"] that
        by (cases "n < 22") auto
      then show ?R
        by (simp add: R)
    next
      assume ?R
      then show "?L1 \<and> ?L2"
        unfolding L R by simp
    qed
  qed
  ultimately show ?thesis
    by (simp add: d)
qed

lemma get_pte_set_pte [simp]: "get_pte (set_pte p v k) q = (if q = p then v else get_pte k q)"
proof (cases "fst q = fst p \<and> q \<noteq> p")
  case True
  then have "snd q \<noteq> snd p"
    by (simp add: prod_eq_iff)
  then have "4 * snd q + 4 \<le> 4 * snd p \<or> 4 * snd p + 4 \<le> 4 * snd q"
    by linarith
  with True show ?thesis
    by (simp add: get_pte_def set_pte_def)
qed (auto simp: get_pte_def set_pte_def)

lemma get_pte_fill_page: "get_pte (fill_page a b k) q = (if fst q = a then get32 b (4 * snd q) else get_pte k q)"
  by (simp add: get_pte_def fill_page_def)

lemma get_pte_zero_page [simp]: "get_pte (fill_page a zero_block k) q = (if fst q = a then 0 else get_pte k q)"
  by (simp add: get_pte_fill_page) (simp add: get32_def zero_block_def)

lemma kmem_ok_set_pte: "fst p \<notin> set ps \<Longrightarrow> kmem_ok (set_pte p v k) ps = kmem_ok k ps"
  by (rule kmem_ok_cong) (auto simp: set_pte_def)

lemma kmem_ok_fill_page: "a \<notin> set ps \<Longrightarrow> kmem_ok (fill_page a b k) ps = kmem_ok k ps"
  by (rule kmem_ok_cong) (auto simp: fill_page_def)

text \<open>The address in an entry that was made from a page and flags.\<close>

lemma low_bits_mod: "(x :: uint) mod PGSIZE = take_bit 12 x"
  by (simp add: PGSIZE_def take_bit_eq_mod)

lemma PTE_ADDR_or:
  assumes "take_bit 12 x = (0 :: uint)" "f AND NOT 0xFFF = 0"
  shows "PTE_ADDR (x OR f) = x"
proof -
  have m: "(0xFFF :: uint) = mask 12"
    by (simp add: mask_eq_exp_minus_1)
  have x: "bit x n \<Longrightarrow> 12 \<le> n" for n
    using arg_cong [OF assms(1), of "\<lambda>x. bit x n"] by (auto simp: bit_take_bit_iff not_less)
  have f: "bit f n \<Longrightarrow> n < 12" for n
    using arg_cong [OF assms(2), of "\<lambda>x. bit x n"] bit_imp_le_length [of f n] by (auto simp: m bit_simps)
  show ?thesis
    unfolding PTE_ADDR_def m by (rule bit_word_eqI) (auto simp: bit_simps dest: x f)
qed

lemma V2P_aligned: "p mod PGSIZE = 0 \<Longrightarrow> take_bit 12 (V2P p) = 0"
proof -
  assume "p mod PGSIZE = 0"
  then have "take_bit 12 p = 0"
    by (simp add: low_bits_mod)
  moreover have "V2P p = p + KERNBASE"
    by (simp add: V2P_def KERNBASE_def diff_eq_eq add.assoc)
  ultimately have "unat (take_bit 12 (V2P p)) = ((unat p + 0x80000000) mod 2 ^ 32) mod 4096" "unat p mod 4096 = 0"
    using unat_mod [of p 4096] by (simp_all add: take_bit_eq_mod unat_word_ariths(1) unat_mod KERNBASE_def)
  moreover have "((unat p + 0x80000000) mod 2 ^ 32) mod 4096 = (unat p + 0x80000000) mod (4096 :: nat)"
    by (rule mod_mod_cancel) simp
  moreover have "(unat p + 0x80000000) mod 4096 = unat p mod (4096 :: nat)"
    using mod_mult_self2 [of "unat p" 4096 "0x80000"] by simp
  ultimately show "take_bit 12 (V2P p) = 0"
    by (metis unat_eq_0)
qed

lemma or_present: "(x OR 7) AND (1 :: uint) \<noteq> 0" "(x OR PTE_P) AND PTE_P \<noteq> 0"
proof -
  have "bit ((x OR 7) AND (1 :: uint)) 0" "bit ((x OR PTE_P) AND PTE_P) 0"
    by (simp_all add: PTE_P_def bit_simps)
  then show "(x OR 7) AND (1 :: uint) \<noteq> 0" "(x OR PTE_P) AND PTE_P \<noteq> 0"
    by (metis bit_0_eq bot_apply bot_bool_def)+
qed

lemma P2V_V2P [simp]: "P2V (V2P p) = p"
  by (simp add: P2V_def V2P_def)

section \<open>Mapping one page\<close>

lemma mapped_table:
  "mapped k pgdir va = (case table k pgdir (PDX va) of None \<Rightarrow> None | Some t \<Rightarrow>
     if get_pte k (t, PTX va) AND PTE_P = 0 then None else Some (get_pte k (t, PTX va)))"
  by (simp add: mapped_def table_def Let_def)

lemma walk_present:
  assumes "table k pgdir (PDX va) = Some t"
  shows "walkpgdir pgdir va alloc k = (Some (t, PTX va), k)"
  using assms by (auto simp: walkpgdir_def table_def Let_def split: if_splits)

lemma vm_okD:
  assumes "vm_ok k ps pgdir"
  shows "kmem_ok k ps" "pgdir \<notin> set ps"
    "\<And>i t. i < 1024 \<Longrightarrow> table k pgdir i = Some t \<Longrightarrow> t \<noteq> pgdir \<and> t \<notin> set ps"
    "\<And>i j t. i < 1024 \<Longrightarrow> j < 1024 \<Longrightarrow> table k pgdir i = Some t \<Longrightarrow> table k pgdir j = Some t \<Longrightarrow> j = i"
  using assms by (auto simp: vm_ok_def)

text \<open>A new, empty page table hung into the directory changes no translation.\<close>

lemma walk_new_table:
  assumes vm: "vm_ok k (p # qs) pgdir" and none: "table k pgdir (PDX va) = None"
  defines "k' \<equiv> set_pte (pgdir, PDX va) (V2P p OR PTE_P OR PTE_W OR PTE_U) (fill_page p zero_block (snd (kalloc k)))"
  shows "walkpgdir pgdir va True k = (Some (p, PTX va), k')" "table k' pgdir (PDX va) = Some p" "vm_ok k' qs pgdir"
    "mapped k' pgdir = mapped k pgdir" "get_pte k' (p, PTX va) = 0"
    "table k' pgdir j = (if j = PDX va then Some p else table k pgdir j)"
proof -
  note ok = vm_okD [OF vm]
  obtain r k1 where r: "kalloc k = (r, k1)"
    by (cases "kalloc k")
  have k1: "r = p" "kmem_ok k1 qs" "page k1 = page k" "valid_page k p" "p \<notin> set qs"
    using kalloc_ok(2) [OF ok(1) r refl] by auto
  have p: "p \<noteq> 0" "p \<noteq> pgdir" "p mod PGSIZE = 0"
    using k1(4) ok(2) by (auto simp: valid_page_def)
  have get1: "get_pte k1 q = get_pte k q" for q
    by (simp add: get_pte_def k1(3))
  have k': "get_pte k' q = (if q = (pgdir, PDX va) then V2P p OR PTE_P OR PTE_W OR PTE_U else if fst q = p then 0 else get_pte k q)" for q
    by (simp add: k'_def r get1)
  have pde: "PTE_ADDR (V2P p OR (PTE_P OR PTE_W OR PTE_U)) = V2P p" "(V2P p OR (PTE_P OR PTE_W OR PTE_U)) AND PTE_P \<noteq> 0"
    using PTE_ADDR_or [OF V2P_aligned [OF p(3)], of "PTE_P OR PTE_W OR PTE_U"]
    by (simp_all add: PTE_P_def PTE_W_def PTE_U_def or_present)
  show "walkpgdir pgdir va True k = (Some (p, PTX va), k')"
    using none r k1(1) p(1) by (auto simp: walkpgdir_def table_def Let_def k'_def split: if_splits)
  have t: "table k' pgdir j = (if j = PDX va then Some p else table k pgdir j)" for j
    using pde p(2) by (simp add: table_def k' Let_def or.assoc)
  then show "table k' pgdir (PDX va) = Some p" "table k' pgdir j = (if j = PDX va then Some p else table k pgdir j)"
    by simp_all
  show "get_pte k' (p, PTX va) = 0"
    using p(2) by (simp add: k')
  have fresh: "t \<noteq> p" if "j < 1024" "table k pgdir j = Some t" for j t
    using ok(3) [OF that] by auto
  show "mapped k' pgdir = mapped k pgdir"
  proof
    fix x
    show "mapped k' pgdir x = mapped k pgdir x"
      using none fresh [OF PDX_less] p(2) ok(3) [OF PDX_less, of x] k'
      by (auto simp: mapped_table t split: option.split)
  qed
  have "kmem_ok k' qs"
    using k1(2,5) ok(2) by (simp add: k'_def r kmem_ok_set_pte kmem_ok_fill_page)
  then show "vm_ok k' qs pgdir"
    using ok fresh [of _ p] p(2) k1(5) by (auto simp: vm_ok_def t split: if_splits)
qed

lemma set_entry:
  assumes vm: "vm_ok k ps pgdir" and t: "table k pgdir (PDX va) = Some t" and v: "v AND PTE_P \<noteq> 0"
  defines "k' \<equiv> set_pte (t, PTX va) v k"
  shows "vm_ok k' ps pgdir"
    "mapped k' pgdir x = (if PGROUNDDOWN x = PGROUNDDOWN va then Some v else mapped k pgdir x)"
    "table k' pgdir = table k pgdir"
proof -
  note ok = vm_okD [OF vm]
  have ne: "t \<noteq> pgdir" "t \<notin> set ps"
    using ok(3) [OF PDX_less t] by auto
  show tab: "table k' pgdir = table k pgdir"
    using ne(1) by (rule_tac ext) (simp add: table_def k'_def)
  have "kmem_ok k' ps"
    using ok(1) ne(2) by (simp add: k'_def kmem_ok_set_pte)
  then show "vm_ok k' ps pgdir"
    using vm by (simp add: vm_ok_def tab)
  show "mapped k' pgdir x = (if PGROUNDDOWN x = PGROUNDDOWN va then Some v else mapped k pgdir x)"
  proof (cases "table k pgdir (PDX x)")
    case None
    then have "PDX x \<noteq> PDX va"
      using t by auto
    then show ?thesis
      using None by (simp add: mapped_table tab same_page [symmetric])
  next
    case (Some u)
    have "u = t \<longleftrightarrow> PDX x = PDX va"
      using ok(4) [OF PDX_less PDX_less t, of x] Some t by auto
    moreover have "get_pte k' (u, PTX x) = (if u = t \<and> PTX x = PTX va then v else get_pte k (u, PTX x))"
      by (simp add: k'_def)
    ultimately show ?thesis
      using Some v by (auto simp: mapped_table tab same_page [symmetric])
  qed
qed

lemma mappages_page_run:
  assumes vm: "vm_ok k ps pgdir" and va: "PGROUNDDOWN va = va" "PGROUNDDOWN (va + PGSIZE - 1) = va"
  shows "mapped k pgdir va \<noteq> None \<Longrightarrow> mappages pgdir va PGSIZE pa perm k = None"
    and "mapped k pgdir va = None \<Longrightarrow> table k pgdir (PDX va) = None \<Longrightarrow> ps = [] \<Longrightarrow>
      mappages pgdir va PGSIZE pa perm k = Some (-1, k)"
    and "mapped k pgdir va = None \<Longrightarrow> table k pgdir (PDX va) \<noteq> None \<or> ps \<noteq> [] \<Longrightarrow>
      ok (mappages pgdir va PGSIZE pa perm k) (\<lambda>(r, k'). r = 0 \<and>
        vm_ok k' (if table k pgdir (PDX va) = None then tl ps else ps) pgdir \<and>
        (\<forall>x. mapped k' pgdir x = (if PGROUNDDOWN x = va then Some (pa OR perm OR PTE_P) else mapped k pgdir x)) \<and>
        (\<forall>j t. table k' pgdir j = Some t \<longrightarrow> table k pgdir j = Some t \<or> t \<in> set ps))"
proof -
  have run: "mappages pgdir va PGSIZE pa perm k =
      (case walkpgdir pgdir va True k of (None, k) \<Rightarrow> Some (-1, k)
       | (Some pte, k) \<Rightarrow> if get_pte k pte AND PTE_P \<noteq> 0 then None else Some (0, set_pte pte (pa OR perm OR PTE_P) k))"
    unfolding mappages_def va mappages_loop.simps [of pgdir va va] by (simp add: Let_def split: prod.split option.split)
  have flag: "(pa OR perm OR PTE_P) AND PTE_P \<noteq> 0"
    using or_present(2) [of "pa OR perm"] by (simp add: or.assoc)
  show "mapped k pgdir va \<noteq> None \<Longrightarrow> mappages pgdir va PGSIZE pa perm k = None"
    unfolding run by (auto simp: mapped_table walk_present split: option.splits if_splits)
  show "mapped k pgdir va = None \<Longrightarrow> table k pgdir (PDX va) = None \<Longrightarrow> ps = [] \<Longrightarrow>
      mappages pgdir va PGSIZE pa perm k = Some (-1, k)"
    unfolding run using vm_okD(1) [OF vm] kalloc_ok(1) [of k ps "fst (kalloc k)" "snd (kalloc k)"]
    by (auto simp: walkpgdir_def table_def Let_def split: if_splits prod.splits)
  assume none: "mapped k pgdir va = None" and room: "table k pgdir (PDX va) \<noteq> None \<or> ps \<noteq> []"
  show "ok (mappages pgdir va PGSIZE pa perm k) (\<lambda>(r, k'). r = 0 \<and>
        vm_ok k' (if table k pgdir (PDX va) = None then tl ps else ps) pgdir \<and>
        (\<forall>x. mapped k' pgdir x = (if PGROUNDDOWN x = va then Some (pa OR perm OR PTE_P) else mapped k pgdir x)) \<and>
        (\<forall>j t. table k' pgdir j = Some t \<longrightarrow> table k pgdir j = Some t \<or> t \<in> set ps))"
  proof (cases "table k pgdir (PDX va)")
    case (Some t)
    then have "get_pte k (t, PTX va) AND PTE_P = 0"
      using none by (simp add: mapped_table split: if_splits)
    then show ?thesis
      unfolding run walk_present [OF Some] using set_entry [OF vm Some flag] va(1) Some by simp
  next
    case None
    then obtain p qs where ps: "ps = p # qs"
      using room by (cases ps) auto
    note w = walk_new_table [OF vm [unfolded ps] None]
    show ?thesis
      unfolding run w(1) using set_entry [OF w(3,2) flag] va(1) None w(4,5,6) ps by simp
  qed
qed

lemma aligned_page:
  assumes "va mod PGSIZE = 0"
  shows "PGROUNDDOWN va = va" "PGROUNDDOWN (va + PGSIZE - 1) = va"
proof -
  have m: "PGSIZE - 1 = mask 12"
    by (simp add: PGSIZE_def mask_eq_exp_minus_1)
  have z: "take_bit 12 va = 0"
    using assms by (simp add: low_bits_mod)
  have low: "bit va n \<Longrightarrow> 12 \<le> n" for n
    using arg_cong [OF z, of "\<lambda>x. bit x n"] by (auto simp: bit_take_bit_iff not_less)
  show "PGROUNDDOWN va = va"
    unfolding PGROUNDDOWN_def m by (rule bit_word_eqI) (auto simp: bit_simps dest: low)
  have "va + mask 12 = va OR mask 12"
    by (rule disjunctive_add) (auto simp: bit_simps dest: low)
  moreover have "va + PGSIZE - 1 = va + (PGSIZE - 1)"
    by simp
  ultimately have "va + PGSIZE - 1 = va OR mask 12"
    by (simp add: m)
  then show "PGROUNDDOWN (va + PGSIZE - 1) = va"
    unfolding PGROUNDDOWN_def m by (simp, intro bit_word_eqI) (auto simp: bit_simps dest: low)
qed

text \<open>
  C18: mapping a page.  In a well-formed page directory \<^verbatim>\<open>mappages\<close> of one aligned page panics if the address is
  mapped already, reports failure without changing memory if it needs a page table and no page is free, and
  otherwise makes exactly the addresses of that page translate to the given physical page and permissions, leaving
  the translation of every other address, and the well-formedness of directory and free list, as they were.
\<close>

theorem mappages_page:
  assumes "vm_ok k ps pgdir" "va mod PGSIZE = 0"
  shows "if mapped k pgdir va \<noteq> None then mappages pgdir va PGSIZE pa perm k = None
    else if table k pgdir (PDX va) = None \<and> ps = [] then mappages pgdir va PGSIZE pa perm k = Some (-1, k)
    else ok (mappages pgdir va PGSIZE pa perm k) (\<lambda>(r, k'). r = 0 \<and>
      vm_ok k' (if table k pgdir (PDX va) = None then tl ps else ps) pgdir \<and>
      (\<forall>x. mapped k' pgdir x = (if PGROUNDDOWN x = va then Some (pa OR perm OR PTE_P) else mapped k pgdir x)))"
  using mappages_page_run [where pa = pa and perm = perm, OF assms(1) aligned_page [OF assms(2)]]
  by (auto elim!: ok_mono)

text \<open>An empty page directory on its own page.\<close>

lemma sample_vm_ok: "vm_ok sample_kmem [0x80400000, 0x80402000, 0x80401000] 0x80600000"
  using sample_kmem_ok by (simp add: vm_ok_def table_def get_pte_def) (simp add: sample_kmem_def get32_def)

theorem mappages_page_witness:
  "ok (mappages 0x80600000 0x3000 PGSIZE 0x700000 (PTE_W OR PTE_U) sample_kmem)
     (\<lambda>(r, k'). r = 0 \<and> mapped k' 0x80600000 0x3008 = Some 0x700007 \<and> mapped k' 0x80600000 0x4000 = None)"
proof -
  have t: "table sample_kmem 0x80600000 i = None" for i
    by (simp add: table_def get_pte_def) (simp add: sample_kmem_def get32_def)
  then have m: "mapped sample_kmem 0x80600000 x = None" for x
    by (simp add: mapped_table)
  have p: "PGROUNDDOWN 0x3008 = 0x3000" "PGROUNDDOWN 0x4000 = 0x4000" "(0x3000 :: uint) mod PGSIZE = 0"
    by (simp_all add: PGROUNDDOWN_def PGSIZE_def)
  show ?thesis
    using mappages_page [OF sample_vm_ok p(3), of "0x700000" "PTE_W OR PTE_U"]
    by (auto elim!: ok_mono simp: m t p PTE_W_def PTE_U_def PTE_P_def)
qed

end
