(* ===== verification/Proc.thy ===== *)
theory Proc
  imports SysFile Vm
begin

text \<open>
  \<^verbatim>\<open>src/kernel/proc.c\<close>: the process table.  A process is its table entry; \<open>kern\<close> holds the file system, the file table and
  the memory of the kernel, which the calls use through the operations of the other theories.  A pointer to an entry is its
  index.  A channel to sleep on is an address; the ones the kernel uses here are a process entry and the clock.  Page-table
  and stack switching (\<^verbatim>\<open>switchuvm\<close>, \<^verbatim>\<open>swtch\<close>) is processor state and is not part of the model: a call of \<^verbatim>\<open>sched\<close> is the point
  where the process stops running.
\<close>

datatype procstate = UNUSED | EMBRYO | SLEEPING | RUNNABLE | RUNNING | ZOMBIE

datatype channel = ProcChan nat | TicksChan | AddrChan uint

record trapframe =
  edi :: uint
  esi :: uint
  ebp :: uint
  oesp :: uint
  ebx :: uint
  edx :: uint
  ecx :: uint
  eax :: uint
  gs :: ushort
  fs :: ushort
  es :: ushort
  ds :: ushort
  trapno :: uint
  err :: uint
  eip :: uint
  cs :: ushort
  eflags :: uint
  esp :: uint
  ss :: ushort

record proc =
  sz :: uint
  pgdir :: uint
  kstack :: uint
  pstatus :: procstate
  pid :: uint
  parent :: "nat option"
  tf :: trapframe
  chan :: "channel option"
  killed :: bool
  pr_ofile :: "nat \<Rightarrow> nat option"
  pr_cwd :: "nat option"
  pr_name :: string
  uid :: uint
  euid :: uint

record tstate =
  procs :: "nat \<Rightarrow> proc"
  nextpid :: uint
  initproc :: "nat option"
  ticks :: uint
  kdata :: uint
  kern :: pstate

definition NPROC :: nat where "NPROC = 64"

definition set_proc :: "nat \<Rightarrow> proc \<Rightarrow> tstate \<Rightarrow> tstate" where
  "set_proc p v s = s\<lparr>procs := (procs s)(p := v)\<rparr>"

definition set_km :: "kmem \<Rightarrow> tstate \<Rightarrow> tstate" where
  "set_km k s = s\<lparr>kern := (kern s)\<lparr>km := k\<rparr>\<rparr>"

section \<open>Creating processes\<close>

definition allocproc :: "tstate \<Rightarrow> nat option \<times> tstate" where
  "allocproc s =
     (case find (\<lambda>p. pstatus (procs s p) = UNUSED) [0..<NPROC] of
        None \<Rightarrow> (None, s)
      | Some p \<Rightarrow>
          let s = set_proc p ((procs s p)\<lparr>pstatus := EMBRYO, pid := nextpid s\<rparr>) (s\<lparr>nextpid := nextpid s + 1\<rparr>) in
          (case kalloc (km (kern s)) of (stack, k) \<Rightarrow>
             let s = set_proc p ((procs s p)\<lparr>kstack := stack\<rparr>) (set_km k s) in
             if stack = 0 then (None, set_proc p ((procs s p)\<lparr>pstatus := UNUSED\<rparr>) s)
             else (Some p, s)))"

text \<open>\<^verbatim>\<open>memset(p->tf, 0, sizeof(*p->tf))\<close>\<close>

definition zero_tf :: trapframe where
  "zero_tf = \<lparr>edi = 0, esi = 0, ebp = 0, oesp = 0, ebx = 0, edx = 0, ecx = 0, eax = 0, gs = 0, fs = 0, es = 0, ds = 0,
     trapno = 0, err = 0, eip = 0, cs = 0, eflags = 0, esp = 0, ss = 0\<rparr>"

text \<open>\<^verbatim>\<open>(SEG_UCODE << 3) | DPL_USER\<close>, \<^verbatim>\<open>(SEG_UDATA << 3) | DPL_USER\<close> and \<^verbatim>\<open>FL_IF\<close>.\<close>

definition user_tf :: trapframe where
  "user_tf = zero_tf\<lparr>cs := 0x1B, ds := 0x23, es := 0x23, ss := 0x23, eflags := 0x200, esp := PGSIZE, eip := 0\<rparr>"

definition userinit :: "pstate devsw \<Rightarrow> uchar list \<Rightarrow> tstate \<Rightarrow> tstate option" where
  "userinit dv initcode s =
     (case allocproc s of
        (None, s) \<Rightarrow> undefined_behaviour ''userinit: null process''
      | (Some p, s) \<Rightarrow> do {
          (pg, k) \<leftarrow> setupkvm (kdata s) (km (kern s));
          if pg = 0 then panic ''userinit: out of memory?''
          else do {
            k \<leftarrow> inituvm pg initcode k;
            let s = (set_km k s)\<lparr>initproc := Some p\<rparr>;
            (cwd, k) \<leftarrow> namei dv ''/'' (kern s);
            let s = s\<lparr>kern := k\<rparr>;
            Some (set_proc p ((procs s p)\<lparr>pgdir := pg, sz := PGSIZE, tf := user_tf, uid := ROOT, euid := ROOT,
              pr_name := ''initcode'', pr_cwd := cwd, pstatus := RUNNABLE\<rparr>) s)
          }
        })"

definition growproc :: "nat \<Rightarrow> uint \<Rightarrow> tstate \<Rightarrow> (int \<times> tstate) option" where
  "growproc p n s = do {
     let e = procs s p;
     (z, k) \<leftarrow> (if sint n > 0 then allocuvm (pgdir e) (sz e) (sz e + n) (km (kern s))
               else if sint n < 0 then deallocuvm (pgdir e) (sz e) (sz e + n) (km (kern s))
               else Some (sz e, km (kern s)));
     let s = set_km k s;
     if n \<noteq> 0 \<and> z = 0 then Some (-1, s)
     else Some (0, set_proc p ((procs s p)\<lparr>sz := z\<rparr>) s)
   }"

text \<open>The loop of \<^verbatim>\<open>fork\<close> over the open files: the descriptors of the child, and the kernel after the \<^verbatim>\<open>filedup\<close> calls.\<close>

fun dup_files :: "(nat \<Rightarrow> nat option) \<Rightarrow> nat list \<Rightarrow> (nat \<Rightarrow> nat option) \<Rightarrow> pstate \<Rightarrow>
    ((nat \<Rightarrow> nat option) \<times> pstate) option" where
  "dup_files from [] to k = Some (to, k)"
| "dup_files from (i # is) to k =
     (case from i of
        None \<Rightarrow> dup_files from is to k
      | Some f \<Rightarrow> do {
          k \<leftarrow> filedup f k;
          dup_files from is (to(i := Some f)) k
        })"

definition fork :: "nat \<Rightarrow> tstate \<Rightarrow> (int \<times> tstate) option" where
  "fork p s =
     (case allocproc s of
        (None, s) \<Rightarrow> Some (-1, s)
      | (Some np, s) \<Rightarrow> do {
          let e = procs s p;
          (pg, k) \<leftarrow> copyuvm (kdata s) (pgdir e) (sz e) (km (kern s));
          if pg = 0 then do {
            k \<leftarrow> kfree (kstack (procs s np)) k;
            Some (-1, set_proc np ((procs s np)\<lparr>pgdir := 0, kstack := 0, pstatus := UNUSED\<rparr>) (set_km k s))
          } else do {
            let s = set_km k s;
            (fds, k) \<leftarrow> dup_files (pr_ofile e) [0..<NOFILE] (pr_ofile (procs s np)) (kern s);
            cwd \<leftarrow> pr_cwd e;
            let s = s\<lparr>kern := idup cwd k\<rparr>;
            Some (sint (pid (procs s np)), set_proc np ((procs s np)\<lparr>pgdir := pg, uid := uid e, euid := euid e, sz := sz e,
              parent := Some p, tf := (tf e)\<lparr>eax := 0\<rparr>, pr_ofile := fds, pr_cwd := Some cwd,
              pr_name := take 15 (pr_name e), pstatus := RUNNABLE\<rparr>) s)
          }
        })"

section \<open>Sleeping and waking\<close>

definition wake_one :: "channel \<Rightarrow> proc \<Rightarrow> proc" where
  "wake_one c v = (if pstatus v = SLEEPING \<and> chan v = Some c then v\<lparr>pstatus := RUNNABLE\<rparr> else v)"

definition wakeup1 :: "channel \<Rightarrow> tstate \<Rightarrow> tstate" where
  "wakeup1 c s = s\<lparr>procs := (\<lambda>p. if p < NPROC then wake_one c (procs s p) else procs s p)\<rparr>"

definition wakeup :: "channel \<Rightarrow> tstate \<Rightarrow> tstate" where
  "wakeup c s = wakeup1 c s"

text \<open>The caller until it stops running, and what is left to do when it runs again.\<close>

definition sleep :: "nat \<Rightarrow> channel \<Rightarrow> tstate \<Rightarrow> tstate" where
  "sleep p c s = set_proc p ((procs s p)\<lparr>chan := Some c, pstatus := SLEEPING\<rparr>) s"

definition sleep_return :: "nat \<Rightarrow> tstate \<Rightarrow> tstate" where
  "sleep_return p s = set_proc p ((procs s p)\<lparr>chan := None\<rparr>) s"

definition yield :: "nat \<Rightarrow> tstate \<Rightarrow> tstate" where
  "yield p s = set_proc p ((procs s p)\<lparr>pstatus := RUNNABLE\<rparr>) s"

text \<open>One round of the loop in \<^verbatim>\<open>scheduler\<close> at entry \<open>p\<close>.\<close>

definition schedule :: "nat \<Rightarrow> tstate \<Rightarrow> tstate option" where
  "schedule p s =
     (if pstatus (procs s p) \<noteq> RUNNABLE then None
      else Some (set_proc p ((procs s p)\<lparr>pstatus := RUNNING\<rparr>) s))"

definition kill :: "uint \<Rightarrow> tstate \<Rightarrow> int \<times> tstate" where
  "kill n s =
     (case find (\<lambda>p. pid (procs s p) = n) [0..<NPROC] of
        None \<Rightarrow> (-1, s)
      | Some p \<Rightarrow>
          (0, set_proc p ((procs s p)\<lparr>killed := True,
             pstatus := (if pstatus (procs s p) = SLEEPING then RUNNABLE else pstatus (procs s p))\<rparr>) s))"

section \<open>Exit and wait\<close>

fun close_files :: "(nat \<Rightarrow> nat option) \<Rightarrow> nat list \<Rightarrow> pstate \<Rightarrow> pstate option" where
  "close_files fds [] k = Some k"
| "close_files fds (fd # rest) k =
     (case fds fd of
        None \<Rightarrow> close_files fds rest k
      | Some f \<Rightarrow> do {
          k \<leftarrow> fileclose f k;
          close_files fds rest k
        })"

text \<open>The loop of \<^verbatim>\<open>exit\<close> that hands the children of \<open>p\<close> to the first process.\<close>

fun reparent :: "nat \<Rightarrow> nat \<Rightarrow> nat list \<Rightarrow> tstate \<Rightarrow> tstate" where
  "reparent p ini [] s = s"
| "reparent p ini (q # qs) s =
     (if parent (procs s q) = Some p then
        let s = set_proc q ((procs s q)\<lparr>parent := Some ini\<rparr>) s in
        reparent p ini qs (if pstatus (procs s q) = ZOMBIE then wakeup1 (ProcChan ini) s else s)
      else reparent p ini qs s)"

definition exit :: "nat \<Rightarrow> tstate \<Rightarrow> tstate option" where
  "exit p s =
     (if initproc s = Some p then panic ''init exiting''
      else do {
        k \<leftarrow> close_files (pr_ofile (procs s p)) [0..<NOFILE] (kern s);
        k \<leftarrow> begin_op k;
        cwd \<leftarrow> pr_cwd (procs s p);
        k \<leftarrow> iput cwd k;
        k \<leftarrow> end_op k;
        ini \<leftarrow> initproc s;
        let s = set_proc p ((procs s p)\<lparr>pr_ofile := (\<lambda>fd. if fd < NOFILE then None else pr_ofile (procs s p) fd),
          pr_cwd := None\<rparr>) (s\<lparr>kern := k\<rparr>);
        let s = (case parent (procs s p) of None \<Rightarrow> s | Some q \<Rightarrow> wakeup1 (ProcChan q) s);
        let s = reparent p ini [0..<NPROC] s;
        Some (set_proc p ((procs s p)\<lparr>pstatus := ZOMBIE\<rparr>) s)
      })"

text \<open>Freeing the zombie \<open>q\<close> that \<^verbatim>\<open>wait\<close> has found.\<close>

definition reap :: "nat \<Rightarrow> tstate \<Rightarrow> (int \<times> tstate) option" where
  "reap q s = do {
     let e = procs s q;
     k \<leftarrow> kfree (kstack e) (km (kern s));
     k \<leftarrow> freevm (pgdir e) k;
     Some (sint (pid e), set_proc q (e\<lparr>kstack := 0, pid := 0, parent := None, pr_name := [], killed := False,
       pstatus := UNUSED\<rparr>) (set_km k s))
   }"

text \<open>One turn of the loop of \<^verbatim>\<open>wait\<close>: \<open>Inl\<close> is a return, \<open>Inr\<close> a sleep.\<close>

definition wait :: "nat \<Rightarrow> tstate \<Rightarrow> ((int \<times> tstate) + tstate) option" where
  "wait p s =
     (case find (\<lambda>q. parent (procs s q) = Some p \<and> pstatus (procs s q) = ZOMBIE) [0..<NPROC] of
        Some q \<Rightarrow> map_option Inl (reap q s)
      | None \<Rightarrow>
          if (\<forall>q\<in>set [0..<NPROC]. parent (procs s q) \<noteq> Some p) \<or> killed (procs s p) then Some (Inl (-1, s))
          else Some (Inr (sleep p (ProcChan p) s)))"

section \<open>What the calls do to the table\<close>

lemma set_proc_sel [simp]:
  "procs (set_proc p v s) = (procs s)(p := v)" "nextpid (set_proc p v s) = nextpid s" "initproc (set_proc p v s) = initproc s"
  "kern (set_proc p v s) = kern s" "kdata (set_proc p v s) = kdata s" "procs (set_km k s) = procs s"
  "nextpid (set_km k s) = nextpid s" "initproc (set_km k s) = initproc s" "kdata (set_km k s) = kdata s"
  by (simp_all add: set_proc_def set_km_def)

text \<open>An unused entry after an attempt to use it.\<close>

definition touched :: "proc \<Rightarrow> proc \<Rightarrow> bool" where
  "touched v v' \<longleftrightarrow> pstatus v = UNUSED \<and> pstatus v' = UNUSED \<and> parent v' = parent v \<and> chan v' = chan v \<and>
     killed v' = killed v \<and> pr_ofile v' = pr_ofile v \<and> pr_cwd v' = pr_cwd v \<and> uid v' = uid v \<and> euid v' = euid v"

lemma allocproc_cases:
  obtains "allocproc s = (None, s)" "\<And>p. p < NPROC \<Longrightarrow> pstatus (procs s p) \<noteq> UNUSED"
  | p st k where "p < NPROC" "pstatus (procs s p) = UNUSED" "kalloc (km (kern s)) = (st, k)"
    "allocproc s = (let s = set_proc p ((procs s p)\<lparr>pstatus := EMBRYO, pid := nextpid s\<rparr>) (s\<lparr>nextpid := nextpid s + 1\<rparr>);
       s = set_proc p ((procs s p)\<lparr>kstack := st\<rparr>) (set_km k s)
       in if st = 0 then (None, set_proc p ((procs s p)\<lparr>pstatus := UNUSED\<rparr>) s) else (Some p, s))"
proof (cases "find (\<lambda>p. pstatus (procs s p) = UNUSED) [0..<NPROC]")
  case None
  then have "allocproc s = (None, s)" "\<And>p. p < NPROC \<Longrightarrow> pstatus (procs s p) \<noteq> UNUSED"
    by (simp_all add: allocproc_def) (auto simp: find_None_iff)
  then show ?thesis
    by (rule that(1))
next
  case (Some p)
  obtain st k where k: "kalloc (km (kern s)) = (st, k)"
    by (cases "kalloc (km (kern s))")
  have "p < NPROC" "pstatus (procs s p) = UNUSED"
    using Some by (auto simp: find_upt_Some)
  then show ?thesis
    using that(2) [OF _ _ k] Some k by (simp add: allocproc_def)
qed

lemma allocproc_Some:
  assumes "allocproc s = (Some p, s')"
  obtains k m where "p < NPROC" "pstatus (procs s p) = UNUSED" "k \<noteq> 0" "nextpid s' = nextpid s + 1"
    "initproc s' = initproc s"
    "procs s' = (procs s)(p := (procs s p)\<lparr>pstatus := EMBRYO, pid := nextpid s, kstack := k\<rparr>)"
    "kern s' = (kern s)\<lparr>km := m\<rparr>"
proof (rule allocproc_cases [of s])
  fix q st k
  assume q: "q < NPROC" "pstatus (procs s q) = UNUSED"
    "allocproc s = (let s = set_proc q ((procs s q)\<lparr>pstatus := EMBRYO, pid := nextpid s\<rparr>) (s\<lparr>nextpid := nextpid s + 1\<rparr>);
       s = set_proc q ((procs s q)\<lparr>kstack := st\<rparr>) (set_km k s)
       in if st = 0 then (None, set_proc q ((procs s q)\<lparr>pstatus := UNUSED\<rparr>) s) else (Some q, s))"
  show ?thesis
    using assms q by (intro that [of st k]) (auto simp: Let_def set_km_def split: if_splits)
qed (use assms in simp)

lemma allocproc_None:
  assumes "allocproc s = (None, s')"
  shows "initproc s' = initproc s \<and> kdata s' = kdata s \<and> (nextpid s' = nextpid s \<and> procs s' = procs s \<or>
    nextpid s' = nextpid s + 1 \<and> (\<exists>p v. p < NPROC \<and> touched (procs s p) v \<and> procs s' = (procs s)(p := v)))"
proof (rule allocproc_cases [of s])
  fix q st k
  assume q: "q < NPROC" "pstatus (procs s q) = UNUSED"
    "allocproc s = (let s = set_proc q ((procs s q)\<lparr>pstatus := EMBRYO, pid := nextpid s\<rparr>) (s\<lparr>nextpid := nextpid s + 1\<rparr>);
       s = set_proc q ((procs s q)\<lparr>kstack := st\<rparr>) (set_km k s)
       in if st = 0 then (None, set_proc q ((procs s q)\<lparr>pstatus := UNUSED\<rparr>) s) else (Some q, s))"
  let ?v = "(procs s q)\<lparr>pid := nextpid s, kstack := st, pstatus := UNUSED\<rparr>"
  have "touched (procs s q) ?v"
    using q(2) by (simp add: touched_def)
  moreover have "procs s' = (procs s)(q := ?v)" "nextpid s' = nextpid s + 1" "initproc s' = initproc s" "kdata s' = kdata s"
    using assms q(3) by (auto simp: Let_def split: if_splits)
  ultimately show ?thesis
    using q(1) by blast
qed (use assms in simp)


lemma fork_cases:
  assumes "fork p s = Some (r, s')" "pstatus (procs s p) \<noteq> UNUSED"
  obtains (fail) "r = -1" "initproc s' = initproc s" "nextpid s' = nextpid s \<and> procs s' = procs s \<or>
      nextpid s' = nextpid s + 1 \<and> (\<exists>q v. q < NPROC \<and> touched (procs s q) v \<and> procs s' = (procs s)(q := v))"
  | (child) np st pg fds c where "np < NPROC" "pstatus (procs s np) = UNUSED" "r = sint (nextpid s)" "nextpid s' = nextpid s + 1"
    "initproc s' = initproc s" "pr_cwd (procs s p) = Some c" "st \<noteq> 0" "pg \<noteq> 0"
    "\<exists>k k'. dup_files (pr_ofile (procs s p)) [0..<NOFILE] (pr_ofile (procs s np)) ((kern s)\<lparr>km := k\<rparr>) = Some (fds, k') \<and>
       kern s' = idup c k'"
    "procs s' = (procs s)(np := (procs s np)\<lparr>pstatus := RUNNABLE, pid := nextpid s, kstack := st, pgdir := pg,
       uid := uid (procs s p), euid := euid (procs s p), sz := sz (procs s p), parent := Some p,
       tf := (tf (procs s p))\<lparr>eax := 0\<rparr>, pr_ofile := fds, pr_cwd := Some c,
       pr_name := take 15 (pr_name (procs s p))\<rparr>)"
proof -
  obtain q s1 where a: "allocproc s = (q, s1)"
    by (cases "allocproc s")
  show ?thesis
  proof (cases q)
    case None
    then have "r = -1" "s' = s1"
      using assms(1) a by (simp_all add: fork_def)
    then show ?thesis
      using allocproc_None [of s s1] a None fail by auto
  next
    case (Some np)
    obtain st m where n: "np < NPROC" "pstatus (procs s np) = UNUSED" "st \<noteq> 0" "nextpid s1 = nextpid s + 1"
      "initproc s1 = initproc s" "procs s1 = (procs s)(np := (procs s np)\<lparr>pstatus := EMBRYO, pid := nextpid s, kstack := st\<rparr>)"
      "kern s1 = (kern s)\<lparr>km := m\<rparr>"
      using allocproc_Some [OF a [unfolded Some]] by metis
    obtain pg k where pg: "copyuvm (kdata s1) (pgdir (procs s1 p)) (sz (procs s1 p)) (km (kern s1)) = Some (pg, k)"
      using assms(1) a Some by (auto simp: fork_def Let_def bind_eq_Some_conv)
    show ?thesis
    proof (cases "pg = 0")
      case True
      then obtain k' where "r = -1"
        "s' = set_proc np ((procs s1 np)\<lparr>pgdir := 0, kstack := 0, pstatus := UNUSED\<rparr>) (set_km k' s1)"
        using assms(1) a Some pg by (auto simp: fork_def Let_def bind_eq_Some_conv)
      moreover have "touched (procs s np) ((procs s1 np)\<lparr>pgdir := 0, kstack := 0, pstatus := UNUSED\<rparr>)"
        using n(2) by (simp add: touched_def n(6))
      ultimately show ?thesis
        using n fail by (auto simp: n(6))
    next
      case False
      obtain fds k' c where d: "dup_files (pr_ofile (procs s1 p)) [0..<NOFILE] (pr_ofile (procs s1 np)) ((kern s1)\<lparr>km := k\<rparr>) =
          Some (fds, k')" "pr_cwd (procs s1 p) = Some c" "r = sint (pid (procs s1 np))"
        "s' = set_proc np ((procs s1 np)\<lparr>pgdir := pg, uid := uid (procs s1 p), euid := euid (procs s1 p), sz := sz (procs s1 p),
          parent := Some p, tf := (tf (procs s1 p))\<lparr>eax := 0\<rparr>, pr_ofile := fds, pr_cwd := Some c,
          pr_name := take 15 (pr_name (procs s1 p)), pstatus := RUNNABLE\<rparr>) ((set_km k s1)\<lparr>kern := idup c k'\<rparr>)"
        using assms(1) a Some pg False by (auto simp: fork_def Let_def bind_eq_Some_conv set_km_def)
      have ne: "p \<noteq> np"
        using n(2) assms(2) by auto
      show ?thesis
        by (rule child [of np c st pg fds]) (use n d False ne in auto)
    qed
  qed
qed


lemma wakeup1_sel [simp]:
  "procs (wakeup1 c s) p = (if p < NPROC then wake_one c (procs s p) else procs s p)"
  "nextpid (wakeup1 c s) = nextpid s" "initproc (wakeup1 c s) = initproc s" "kern (wakeup1 c s) = kern s"
  by (simp_all add: wakeup1_def)

text \<open>Waking changes nothing but the state of sleepers.\<close>

definition woken :: "proc \<Rightarrow> proc \<Rightarrow> bool" where
  "woken v v' \<longleftrightarrow> v' = v \<or> pstatus v = SLEEPING \<and> v' = v\<lparr>pstatus := RUNNABLE\<rparr>"

lemma woken_wake_one [simp]: "woken v (wake_one c v)"
  by (simp add: woken_def wake_one_def)

lemma woken_refl [simp]: "woken v v"
  by (simp add: woken_def)

lemma woken_trans: "woken u v \<Longrightarrow> woken v w \<Longrightarrow> woken u w"
  by (auto simp: woken_def)

lemma wokenD:
  assumes "woken v v'"
  shows "parent v' = parent v" "pr_ofile v' = pr_ofile v" "pr_cwd v' = pr_cwd v" "pid v' = pid v" "uid v' = uid v"
    "chan v' = chan v" "euid v' = euid v" "killed v' = killed v" "pstatus v' = SLEEPING \<Longrightarrow> pstatus v = SLEEPING"
    "pstatus v \<noteq> SLEEPING \<Longrightarrow> v' = v" "pstatus v = SLEEPING \<Longrightarrow> pstatus v' = SLEEPING \<or> pstatus v' = RUNNABLE"
  using assms by (auto simp: woken_def)

lemma wake_one_sel [simp]:
  "parent (wake_one c v) = parent v" "pstatus (wake_one c v) = ZOMBIE \<longleftrightarrow> pstatus v = ZOMBIE"
  "wake_one c (v\<lparr>parent := x\<rparr>) = (wake_one c v)\<lparr>parent := x\<rparr>" "wake_one c (wake_one c v) = wake_one c v"
  by (auto simp: wake_one_def)

text \<open>The children of \<open>p\<close> among \<open>qs\<close> go to \<open>ini\<close>, and the sleepers on \<open>ini\<close> are woken if one of them is a zombie.\<close>

lemma reparent_rest:
  "initproc (reparent p ini qs s) = initproc s" "nextpid (reparent p ini qs s) = nextpid s"
  "kern (reparent p ini qs s) = kern s"
  by (induction qs arbitrary: s) (simp_all add: Let_def)

lemma reparent_procs:
  "distinct qs \<Longrightarrow> procs (reparent p ini qs s) r =
     (let v = (if r \<in> set qs \<and> parent (procs s r) = Some p then (procs s r)\<lparr>parent := Some ini\<rparr> else procs s r) in
      if (\<exists>q\<in>set qs. parent (procs s q) = Some p \<and> pstatus (procs s q) = ZOMBIE) \<and> r < NPROC
      then wake_one (ProcChan ini) v else v)"
proof (induction qs arbitrary: s)
  case (Cons q qs)
  then have d: "q \<notin> set qs" "distinct qs"
    by simp_all
  show ?case
  proof (cases "parent (procs s q) = Some p")
    case False
    then have e: "r \<in> set (q # qs) \<and> parent (procs s r) = Some p \<longleftrightarrow> r \<in> set qs \<and> parent (procs s r) = Some p"
      "(\<exists>r\<in>set (q # qs). parent (procs s r) = Some p \<and> pstatus (procs s r) = ZOMBIE) \<longleftrightarrow>
       (\<exists>r\<in>set qs. parent (procs s r) = Some p \<and> pstatus (procs s r) = ZOMBIE)" for r
      by auto
    show ?thesis
      unfolding e using Cons.IH [OF d(2), of s] False by simp
  next
    case True
    define z where "z \<longleftrightarrow> pstatus (procs s q) = ZOMBIE"
    define s2 where "s2 = (let s1 = set_proc q ((procs s q)\<lparr>parent := Some ini\<rparr>) s in
      if z then wakeup1 (ProcChan ini) s1 else s1)"
    have run: "reparent p ini (q # qs) s = reparent p ini qs s2"
      using True by (simp add: Let_def s2_def z_def)
    have s2: "procs s2 r = (let v = (if r = q then (procs s q)\<lparr>parent := Some ini\<rparr> else procs s r) in
        if z \<and> r < NPROC then wake_one (ProcChan ini) v else v)" for r
      by (simp add: s2_def Let_def)
    have "parent (procs s2 r) = parent (procs s r)" "pstatus (procs s2 r) = ZOMBIE \<longleftrightarrow> pstatus (procs s r) = ZOMBIE"
      if "r \<in> set qs" for r
      using that d(1) by (auto simp: s2 Let_def)
    then have ex: "(\<exists>r\<in>set qs. parent (procs s2 r) = Some p \<and> pstatus (procs s2 r) = ZOMBIE) \<longleftrightarrow>
        (\<exists>r\<in>set qs. parent (procs s r) = Some p \<and> pstatus (procs s r) = ZOMBIE)"
      by (intro bex_cong) simp_all
    have ex': "(\<exists>r\<in>set (q # qs). parent (procs s r) = Some p \<and> pstatus (procs s r) = ZOMBIE) \<longleftrightarrow>
        z \<or> (\<exists>r\<in>set qs. parent (procs s r) = Some p \<and> pstatus (procs s r) = ZOMBIE)"
      using True by (simp add: z_def)
    define zs where "zs \<longleftrightarrow> (\<exists>r\<in>set qs. parent (procs s r) = Some p \<and> pstatus (procs s r) = ZOMBIE)"
    show ?thesis
      unfolding run Cons.IH [OF d(2)] ex ex' zs_def [symmetric]
      using d(1) True by (cases "r = q"; cases z; cases zs) (simp_all add: s2 Let_def)
  qed
qed (simp add: Let_def)

end
