(* ===== verification/SysProc.thy ===== *)
theory SysProc
  imports Proc
begin

text \<open>
  \<^verbatim>\<open>src/kernel/sysproc.c\<close>: the process calls of the running process \<open>p\<close>.  An argument is what \<^verbatim>\<open>argint\<close> fetched, \<open>None\<close> when the
  fetch failed.
\<close>

definition sys_fork :: "nat \<Rightarrow> tstate \<Rightarrow> (int \<times> tstate) option" where
  "sys_fork p s = fork p s"

definition sys_exit :: "nat \<Rightarrow> tstate \<Rightarrow> tstate option" where
  "sys_exit p s = exit p s"

definition sys_wait :: "nat \<Rightarrow> tstate \<Rightarrow> ((int \<times> tstate) + tstate) option" where
  "sys_wait p s = wait p s"

definition sys_kill :: "uint option \<Rightarrow> tstate \<Rightarrow> int \<times> tstate" where
  "sys_kill arg s = (case arg of None \<Rightarrow> (-1, s) | Some n \<Rightarrow> kill n s)"

definition sys_getpid :: "nat \<Rightarrow> tstate \<Rightarrow> int" where
  "sys_getpid p s = sint (pid (procs s p))"

definition sys_sbrk :: "nat \<Rightarrow> uint option \<Rightarrow> tstate \<Rightarrow> (int \<times> tstate) option" where
  "sys_sbrk p arg s =
     (case arg of
        None \<Rightarrow> Some (-1, s)
      | Some n \<Rightarrow> do {
          let addr = sz (procs s p);
          (r, s) \<leftarrow> growproc p n s;
          Some (if r < 0 then -1 else sint addr, s)
        })"

text \<open>One turn of the loop of \<^verbatim>\<open>sys_sleep\<close>, which began at time \<open>ticks0\<close>: \<open>Inl\<close> is a return, \<open>Inr\<close> a sleep.\<close>

definition sleep_turn :: "nat \<Rightarrow> uint \<Rightarrow> uint \<Rightarrow> tstate \<Rightarrow> int + tstate" where
  "sleep_turn p n ticks0 s =
     (if ticks s - ticks0 < n then
        if killed (procs s p) then Inl (-1) else Inr (sleep p TicksChan s)
      else Inl 0)"

definition sys_sleep :: "nat \<Rightarrow> uint option \<Rightarrow> tstate \<Rightarrow> int + tstate" where
  "sys_sleep p arg s = (case arg of None \<Rightarrow> Inl (-1) | Some n \<Rightarrow> sleep_turn p n (ticks s) s)"

definition sys_uptime :: "tstate \<Rightarrow> int" where
  "sys_uptime s = sint (ticks s)"

definition sys_getuid :: "nat \<Rightarrow> tstate \<Rightarrow> int" where
  "sys_getuid p s = sint (uid (procs s p))"

definition sys_geteuid :: "nat \<Rightarrow> tstate \<Rightarrow> int" where
  "sys_geteuid p s = sint (euid (procs s p))"

definition sys_setuid :: "nat \<Rightarrow> uint option \<Rightarrow> tstate \<Rightarrow> int \<times> tstate" where
  "sys_setuid p arg s =
     (case arg of
        None \<Rightarrow> (-1, s)
      | Some u \<Rightarrow>
          if uid (procs s p) \<noteq> ROOT then (-1, s)
          else (1, set_proc p ((procs s p)\<lparr>uid := u, euid := u\<rparr>) s))"

end
