(* ===== verification/ProcInv.thy ===== *)
theory ProcInv
  imports SysProc
begin

text \<open>
  The life of processes: every way in which \<^verbatim>\<open>proc.c\<close> changes the process table, one call at a time and in any order, and
  the invariant that holds along every such history.
\<close>

definition asleep_on :: "channel \<Rightarrow> proc \<Rightarrow> bool" where
  "asleep_on c v \<longleftrightarrow> pstatus v = SLEEPING \<and> chan v = Some c"

lemma wake_one_awake [simp]: "\<not> asleep_on c (wake_one c v)"
  by (simp add: asleep_on_def wake_one_def)

lemma wake_one_asleep: "asleep_on c (wake_one d v) \<Longrightarrow> asleep_on c v"
  by (auto simp: asleep_on_def wake_one_def split: if_splits)

lemma wake_one_fields [simp]:
  "pr_ofile (wake_one c v) = pr_ofile v" "pr_cwd (wake_one c v) = pr_cwd v" "pid (wake_one c v) = pid v"
  "uid (wake_one c v) = uid v" "pstatus (wake_one c v) = UNUSED \<longleftrightarrow> pstatus v = UNUSED"
  "pstatus (wake_one c v) = EMBRYO \<longleftrightarrow> pstatus v = EMBRYO"
  by (auto simp: wake_one_def)

text \<open>What \<^verbatim>\<open>exit\<close> does to the exiting entry and to another one.\<close>

definition adopted :: "nat \<Rightarrow> nat \<Rightarrow> proc \<Rightarrow> proc" where
  "adopted p ini v = (if parent v = Some p then v\<lparr>parent := Some ini\<rparr> else v)"

lemma exit_spec:
  assumes "exit p s = Some s'" "parent (procs s p) \<noteq> Some p" "p < NPROC"
  obtains ini where "initproc s = Some ini" "ini \<noteq> p" "initproc s' = Some ini" "nextpid s' = nextpid s"
    "pstatus (procs s' p) = ZOMBIE" "parent (procs s' p) = parent (procs s p)" "pid (procs s' p) = pid (procs s p)"
    "uid (procs s' p) = uid (procs s p)" "\<And>fd. fd < NOFILE \<Longrightarrow> pr_ofile (procs s' p) fd = None" "pr_cwd (procs s' p) = None"
    "\<And>q. q \<noteq> p \<Longrightarrow> q < NPROC \<Longrightarrow> woken (adopted p ini (procs s q)) (procs s' q)"
    "\<And>q. parent (procs s p) = Some q \<Longrightarrow> q < NPROC \<Longrightarrow> \<not> asleep_on (ProcChan q) (procs s' q)"
    "\<And>q. q < NPROC \<Longrightarrow> parent (procs s q) = Some p \<Longrightarrow> pstatus (procs s q) = ZOMBIE \<Longrightarrow> ini < NPROC \<Longrightarrow>
      \<not> asleep_on (ProcChan ini) (procs s' ini)"
proof -
  obtain k1 k2 c k3 k4 ini where run: "initproc s \<noteq> Some p" "initproc s = Some ini"
    "s' = (let s = set_proc p ((procs s p)\<lparr>pr_ofile := (\<lambda>fd. if fd < NOFILE then None else pr_ofile (procs s p) fd),
          pr_cwd := None\<rparr>) (s\<lparr>kern := k4\<rparr>);
        s = (case parent (procs s p) of None \<Rightarrow> s | Some q \<Rightarrow> wakeup1 (ProcChan q) s);
        s = reparent p ini [0..<NPROC] s
        in set_proc p ((procs s p)\<lparr>pstatus := ZOMBIE\<rparr>) s)"
    using assms(1) by (auto simp: exit_def bind_eq_Some_conv Let_def split: if_splits)
  define s1 where "s1 = set_proc p ((procs s p)\<lparr>pr_ofile := (\<lambda>fd. if fd < NOFILE then None else pr_ofile (procs s p) fd),
          pr_cwd := None\<rparr>) (s\<lparr>kern := k4\<rparr>)"
  define s2 where "s2 = (case parent (procs s p) of None \<Rightarrow> s1 | Some q \<Rightarrow> wakeup1 (ProcChan q) s1)"
  define s3 where "s3 = reparent p ini [0..<NPROC] s2"
  have s': "s' = set_proc p ((procs s3 p)\<lparr>pstatus := ZOMBIE\<rparr>) s3"
    unfolding run(3) s3_def s2_def s1_def Let_def by simp
  have v2: "procs s2 q = (case parent (procs s p) of None \<Rightarrow> procs s1 q |
      Some r \<Rightarrow> if q < NPROC then wake_one (ProcChan r) (procs s1 q) else procs s1 q)" for q
    by (simp add: s2_def split: option.splits)
  have same: "parent (procs s2 q) = parent (procs s q)" "pstatus (procs s2 q) = ZOMBIE \<longleftrightarrow> pstatus (procs s q) = ZOMBIE" for q
    by (simp_all add: v2 s1_def split: option.splits)
  define z where "z \<longleftrightarrow> (\<exists>q\<in>set [0..<NPROC]. parent (procs s q) = Some p \<and> pstatus (procs s q) = ZOMBIE)"
  have v3: "procs s3 q = (if z then wake_one (ProcChan ini) (adopted p ini (procs s2 q)) else adopted p ini (procs s2 q))"
    if "q < NPROC" for q
    using that unfolding s3_def by (subst reparent_procs) (auto simp: same z_def Let_def adopted_def)
  note v = s' v3 v2 s1_def
  show ?thesis
  proof (rule that [of ini])
    show "initproc s = Some ini" "ini \<noteq> p" "initproc s' = Some ini" "nextpid s' = nextpid s"
      using run(1,2) by (auto simp: s' s3_def reparent_rest s2_def s1_def split: option.splits)
    show "pstatus (procs s' p) = ZOMBIE"
      by (simp add: s')
    show "parent (procs s' p) = parent (procs s p)" "pid (procs s' p) = pid (procs s p)" "uid (procs s' p) = uid (procs s p)"
      "pr_cwd (procs s' p) = None"
      using assms(2,3) by (simp_all add: v adopted_def split: option.splits)
    show "pr_ofile (procs s' p) fd = None" if "fd < NOFILE" for fd
      using assms(2,3) that by (simp add: v adopted_def split: option.splits)
    show "woken (adopted p ini (procs s q)) (procs s' q)" if "q \<noteq> p" "q < NPROC" for q
    proof -
      have "woken (adopted p ini (procs s q)) (adopted p ini (procs s2 q))"
        using that by (auto simp: v2 s1_def adopted_def woken_def wake_one_def split: option.splits)
      then show ?thesis
        using that by (auto simp: s' v3 intro: woken_trans)
    qed
    show "\<not> asleep_on (ProcChan q) (procs s' q)" if "parent (procs s p) = Some q" "q < NPROC" for q
    proof -
      have "\<not> asleep_on (ProcChan q) (adopted p ini (procs s2 q))"
        using that by (simp add: v2 adopted_def) (simp add: asleep_on_def wake_one_def)
      then show ?thesis
        using that assms(2) by (auto simp: s' v3 dest: wake_one_asleep)
    qed
    show "\<not> asleep_on (ProcChan ini) (procs s' ini)"
      if "q < NPROC" "parent (procs s q) = Some p" "pstatus (procs s q) = ZOMBIE" "ini < NPROC" for q
    proof -
      have z
        using that by (auto simp: z_def)
      then show ?thesis
        using that run(1,2) by (auto simp: s' v3)
    qed
  qed
qed


section \<open>Histories\<close>

definition running :: "nat \<Rightarrow> tstate \<Rightarrow> bool" where
  "running p s \<longleftrightarrow> p < NPROC \<and> pstatus (procs s p) = RUNNING"

text \<open>
  One call of a running process, one waking by an interrupt or another process, or one decision of the scheduler.  Only
  \<^verbatim>\<open>wait\<close> sleeps on a process entry.
\<close>

inductive proc_step :: "tstate \<Rightarrow> tstate \<Rightarrow> bool" where
  fork_step: "running p s \<Longrightarrow> sys_fork p s = Some (r, s') \<Longrightarrow> proc_step s s'"
| exit_step: "running p s \<Longrightarrow> sys_exit p s = Some s' \<Longrightarrow> proc_step s s'"
| wait_done: "running p s \<Longrightarrow> sys_wait p s = Some (Inl (r, s')) \<Longrightarrow> proc_step s s'"
| wait_sleep: "running p s \<Longrightarrow> sys_wait p s = Some (Inr s') \<Longrightarrow> proc_step s s'"
| kill_step: "sys_kill arg s = (r, s') \<Longrightarrow> proc_step s s'"
| setuid_step: "running p s \<Longrightarrow> sys_setuid p arg s = (r, s') \<Longrightarrow> proc_step s s'"
| sleep_step: "running p s \<Longrightarrow> (\<And>q. c \<noteq> ProcChan q) \<Longrightarrow> proc_step s (sleep p c s)"
| sleep_end: "running p s \<Longrightarrow> proc_step s (sleep_return p s)"
| wake_step: "proc_step s (wakeup c s)"
| yield_step: "running p s \<Longrightarrow> proc_step s (yield p s)"
| run_step: "p < NPROC \<Longrightarrow> schedule p s = Some s' \<Longrightarrow> proc_step s s'"

definition proc_inv :: "tstate \<Rightarrow> bool" where
  "proc_inv s \<longleftrightarrow> (\<exists>ini < NPROC. initproc s = Some ini \<and> parent (procs s ini) = None \<and>
       pstatus (procs s ini) \<notin> {UNUSED, EMBRYO, ZOMBIE}) \<and>
     (\<forall>p < NPROC. pstatus (procs s p) \<noteq> EMBRYO) \<and>
     (\<forall>p < NPROC. pstatus (procs s p) = UNUSED \<longrightarrow> parent (procs s p) = None) \<and>
     (\<forall>p < NPROC. pstatus (procs s p) \<noteq> UNUSED \<and> initproc s \<noteq> Some p \<longrightarrow>
        (\<exists>q < NPROC. q \<noteq> p \<and> parent (procs s p) = Some q \<and> pstatus (procs s q) \<notin> {UNUSED, EMBRYO, ZOMBIE})) \<and>
     (\<forall>p < NPROC. pstatus (procs s p) = ZOMBIE \<longrightarrow>
        pr_cwd (procs s p) = None \<and> (\<forall>fd < NOFILE. pr_ofile (procs s p) fd = None)) \<and>
     (\<forall>p < NPROC. \<forall>q < NPROC. asleep_on (ProcChan q) (procs s q) \<and> parent (procs s p) = Some q \<longrightarrow>
        pstatus (procs s p) \<noteq> ZOMBIE)"

text \<open>The parts of the invariant.\<close>

definition live :: "proc \<Rightarrow> bool" where
  "live v \<longleftrightarrow> pstatus v \<notin> {UNUSED, EMBRYO, ZOMBIE}"

lemma proc_invI:
  assumes "\<exists>ini < NPROC. initproc s = Some ini \<and> parent (procs s ini) = None \<and> live (procs s ini)"
    "\<And>p. p < NPROC \<Longrightarrow> pstatus (procs s p) \<noteq> EMBRYO"
    "\<And>p. p < NPROC \<Longrightarrow> pstatus (procs s p) = UNUSED \<Longrightarrow> parent (procs s p) = None"
    "\<And>p. p < NPROC \<Longrightarrow> pstatus (procs s p) \<noteq> UNUSED \<Longrightarrow> initproc s \<noteq> Some p \<Longrightarrow>
      \<exists>q < NPROC. q \<noteq> p \<and> parent (procs s p) = Some q \<and> live (procs s q)"
    "\<And>p. p < NPROC \<Longrightarrow> pstatus (procs s p) = ZOMBIE \<Longrightarrow>
      pr_cwd (procs s p) = None \<and> (\<forall>fd < NOFILE. pr_ofile (procs s p) fd = None)"
    "\<And>p q. p < NPROC \<Longrightarrow> q < NPROC \<Longrightarrow> asleep_on (ProcChan q) (procs s q) \<Longrightarrow> parent (procs s p) = Some q \<Longrightarrow>
      pstatus (procs s p) \<noteq> ZOMBIE"
  shows "proc_inv s"
  using assms unfolding proc_inv_def live_def by blast

lemma proc_invD:
  assumes "proc_inv s"
  shows "\<exists>ini < NPROC. initproc s = Some ini \<and> parent (procs s ini) = None \<and> live (procs s ini)"
    "p < NPROC \<Longrightarrow> pstatus (procs s p) \<noteq> EMBRYO"
    "p < NPROC \<Longrightarrow> pstatus (procs s p) = UNUSED \<Longrightarrow> parent (procs s p) = None"
    "p < NPROC \<Longrightarrow> pstatus (procs s p) \<noteq> UNUSED \<Longrightarrow> initproc s \<noteq> Some p \<Longrightarrow>
      \<exists>q < NPROC. q \<noteq> p \<and> parent (procs s p) = Some q \<and> live (procs s q)"
    "p < NPROC \<Longrightarrow> pstatus (procs s p) = ZOMBIE \<Longrightarrow>
      pr_cwd (procs s p) = None \<and> (\<forall>fd < NOFILE. pr_ofile (procs s p) fd = None)"
    "p < NPROC \<Longrightarrow> q < NPROC \<Longrightarrow> asleep_on (ProcChan q) (procs s q) \<Longrightarrow> parent (procs s p) = Some q \<Longrightarrow>
      pstatus (procs s p) \<noteq> ZOMBIE"
  using assms unfolding proc_inv_def live_def by blast+

text \<open>A change of an entry that the invariant does not notice.\<close>

definition minor :: "proc \<Rightarrow> proc \<Rightarrow> bool" where
  "minor v v' \<longleftrightarrow> parent v' = parent v \<and> pr_ofile v' = pr_ofile v \<and> pr_cwd v' = pr_cwd v \<and>
     (pstatus v' = pstatus v \<or> live v \<and> live v')"

lemma minor_inv:
  assumes "proc_inv s" "initproc s' = initproc s" "\<And>q. q < NPROC \<Longrightarrow> minor (procs s q) (procs s' q)"
    "\<And>q z. q < NPROC \<Longrightarrow> asleep_on (ProcChan q) (procs s' q) \<Longrightarrow> asleep_on (ProcChan q) (procs s q) \<or>
      (\<forall>z < NPROC. parent (procs s z) = Some q \<longrightarrow> pstatus (procs s z) \<noteq> ZOMBIE)"
  shows "proc_inv s'"
proof -
  note I = proc_invD [OF assms(1)]
  have st: "pstatus (procs s' q) = UNUSED \<longleftrightarrow> pstatus (procs s q) = UNUSED"
    "pstatus (procs s' q) = EMBRYO \<longleftrightarrow> pstatus (procs s q) = EMBRYO"
    "pstatus (procs s' q) = ZOMBIE \<longleftrightarrow> pstatus (procs s q) = ZOMBIE"
    "live (procs s' q) \<longleftrightarrow> live (procs s q)" "parent (procs s' q) = parent (procs s q)"
    "pr_cwd (procs s' q) = pr_cwd (procs s q)" "pr_ofile (procs s' q) = pr_ofile (procs s q)"
    if "q < NPROC" for q
    using assms(3) [OF that] by (auto simp: minor_def live_def)
  show ?thesis
  proof (rule proc_invI)
    show "\<exists>ini < NPROC. initproc s' = Some ini \<and> parent (procs s' ini) = None \<and> live (procs s' ini)"
      using I(1) st(4,5) assms(2) by metis
    show "pstatus (procs s' p) \<noteq> EMBRYO" if "p < NPROC" for p
      using I(2) st(2) that by blast
    show "parent (procs s' p) = None" if "p < NPROC" "pstatus (procs s' p) = UNUSED" for p
      using I(3) st(1,5) that by simp
    show "\<exists>q < NPROC. q \<noteq> p \<and> parent (procs s' p) = Some q \<and> live (procs s' q)"
      if "p < NPROC" "pstatus (procs s' p) \<noteq> UNUSED" "initproc s' \<noteq> Some p" for p
      using I(4) [of p] st(1,4,5) that assms(2) by metis
    show "pr_cwd (procs s' p) = None \<and> (\<forall>fd < NOFILE. pr_ofile (procs s' p) fd = None)"
      if "p < NPROC" "pstatus (procs s' p) = ZOMBIE" for p
      using I(5) [of p] st(3,6,7) that by simp
    show "pstatus (procs s' p) \<noteq> ZOMBIE"
      if "p < NPROC" "q < NPROC" "asleep_on (ProcChan q) (procs s' q)" "parent (procs s' p) = Some q" for p q
      using I(6) [of p q] assms(4) [of q] st(3,5) that by auto
  qed
qed

lemma minor_refl [simp]: "minor v v"
  by (simp add: minor_def)

lemma fork_inv:
  assumes "proc_inv s" "running p s" "fork p s = Some (r, s')"
  shows "proc_inv s'"
proof -
  note I = proc_invD [OF assms(1)]
  have nu: "pstatus (procs s p) \<noteq> UNUSED"
    using assms(2) by (simp add: running_def)
  show ?thesis
    using assms(3) nu
  proof (cases rule: fork_cases)
    case fail
    then show ?thesis
      by (intro minor_inv [OF assms(1)]) (auto simp: touched_def minor_def asleep_on_def split: if_splits)
  next
    case (child np st pg fds c)
    let ?v = "procs s' np"
    have v: "pstatus ?v = RUNNABLE" "parent ?v = Some p" and o: "\<And>q. q \<noteq> np \<Longrightarrow> procs s' q = procs s q"
      using child(10) by simp_all
    have ne: "p \<noteq> np" and np: "initproc s \<noteq> Some np" and lp: "live (procs s p)"
      using nu child(2) I(1) assms(2) by (auto simp: live_def running_def)
    have nochild: "parent (procs s q) \<noteq> Some np" if "q < NPROC" for q
      using I(4) [of q] I(3) [of q] I(1) child(2) that
      by (cases "pstatus (procs s q) = UNUSED"; cases "initproc s = Some q") (auto simp: live_def)
    show ?thesis
    proof (rule proc_invI)
      show "\<exists>ini < NPROC. initproc s' = Some ini \<and> parent (procs s' ini) = None \<and> live (procs s' ini)"
        using I(1) child(5) o np by auto
      show "pstatus (procs s' q) \<noteq> EMBRYO" if "q < NPROC" for q
        using I(2) [OF that] o [of q] v(1) by (cases "q = np") auto
      show "parent (procs s' q) = None" if "q < NPROC" "pstatus (procs s' q) = UNUSED" for q
        using I(3) [OF that(1)] o [of q] v(1) that(2) by (cases "q = np") auto
      show "\<exists>r < NPROC. r \<noteq> q \<and> parent (procs s' q) = Some r \<and> live (procs s' r)"
        if "q < NPROC" "pstatus (procs s' q) \<noteq> UNUSED" "initproc s' \<noteq> Some q" for q
      proof (cases "q = np")
        case True
        then show ?thesis
          using v ne lp o [of p] assms(2) by (auto simp: running_def)
      next
        case False
        have "\<exists>r < NPROC. r \<noteq> q \<and> parent (procs s q) = Some r \<and> live (procs s r)"
          using I(4) [of q] o [OF False] that child(5) by simp
        then obtain r where r: "r < NPROC" "r \<noteq> q" "parent (procs s q) = Some r" "live (procs s r)"
          by blast
        then have "r \<noteq> np"
          using nochild \<open>q < NPROC\<close> by auto
        then show ?thesis
          using r o [of r] o [of q] False by auto
      qed
      show "pr_cwd (procs s' q) = None \<and> (\<forall>fd < NOFILE. pr_ofile (procs s' q) fd = None)"
        if "q < NPROC" "pstatus (procs s' q) = ZOMBIE" for q
        using I(5) [of q] o [of q] v(1) that by (cases "q = np") auto
      show "pstatus (procs s' q) \<noteq> ZOMBIE"
        if "q < NPROC" "r < NPROC" "asleep_on (ProcChan r) (procs s' r)" "parent (procs s' q) = Some r" for q r
        using I(6) [of q r] o [of q] o [of r] v that by (cases "q = np"; cases "r = np") (auto simp: asleep_on_def)
    qed
  qed
qed

lemma not_own_parent:
  assumes "proc_inv s" "p < NPROC" "pstatus (procs s p) \<noteq> UNUSED"
  shows "parent (procs s p) \<noteq> Some p"
  using proc_invD(1) [OF assms(1)] proc_invD(4) [OF assms] by (cases "initproc s = Some p") auto

lemma exit_inv:
  assumes "proc_inv s" "running p s" "exit p s = Some s'"
  shows "proc_inv s'"
proof -
  note I = proc_invD [OF assms(1)]
  have p: "p < NPROC" "pstatus (procs s p) = RUNNING"
    using assms(2) by (simp_all add: running_def)
  obtain ini where E: "initproc s = Some ini" "ini \<noteq> p" "initproc s' = Some ini"
    "pstatus (procs s' p) = ZOMBIE" "parent (procs s' p) = parent (procs s p)"
    "\<And>fd. fd < NOFILE \<Longrightarrow> pr_ofile (procs s' p) fd = None" "pr_cwd (procs s' p) = None"
    "\<And>q. q \<noteq> p \<Longrightarrow> q < NPROC \<Longrightarrow> woken (adopted p ini (procs s q)) (procs s' q)"
    "\<And>q. parent (procs s p) = Some q \<Longrightarrow> q < NPROC \<Longrightarrow> \<not> asleep_on (ProcChan q) (procs s' q)"
    "\<And>q. q < NPROC \<Longrightarrow> parent (procs s q) = Some p \<Longrightarrow> pstatus (procs s q) = ZOMBIE \<Longrightarrow> ini < NPROC \<Longrightarrow>
      \<not> asleep_on (ProcChan ini) (procs s' ini)"
  proof (rule exit_spec [OF assms(3) not_own_parent [OF assms(1) p(1)] p(1)])
    show "pstatus (procs s p) \<noteq> UNUSED"
      using p(2) by simp
  qed (rule that; assumption)
  have ini: "ini < NPROC" "parent (procs s ini) = None" "live (procs s ini)"
    using I(1) E(1) by auto
  have st: "pstatus (procs s' q) = UNUSED \<longleftrightarrow> pstatus (procs s q) = UNUSED"
    "pstatus (procs s' q) = EMBRYO \<longleftrightarrow> pstatus (procs s q) = EMBRYO"
    "pstatus (procs s' q) = ZOMBIE \<longleftrightarrow> pstatus (procs s q) = ZOMBIE"
    "live (procs s' q) \<longleftrightarrow> live (procs s q)" "pr_cwd (procs s' q) = pr_cwd (procs s q)"
    "pr_ofile (procs s' q) = pr_ofile (procs s q)"
    "parent (procs s' q) = (if parent (procs s q) = Some p then Some ini else parent (procs s q))"
    "asleep_on c (procs s' q) \<Longrightarrow> asleep_on c (procs s q)"
    if "q \<noteq> p" "q < NPROC" for q c
    using E(8) [OF that] by (auto simp: woken_def adopted_def live_def asleep_on_def split: if_splits)
  show ?thesis
  proof (rule proc_invI)
    show "\<exists>ini < NPROC. initproc s' = Some ini \<and> parent (procs s' ini) = None \<and> live (procs s' ini)"
      using ini E(2,3) st(4,7) [of ini] by auto
    show "pstatus (procs s' q) \<noteq> EMBRYO" if "q < NPROC" for q
      using I(2) [OF that] st(2) [of q] E(4) that by (cases "q = p") auto
    show "parent (procs s' q) = None" if "q < NPROC" "pstatus (procs s' q) = UNUSED" for q
      using I(3) [of q] st(1,7) [of q] E(4) that by (cases "q = p") auto
    show "\<exists>r < NPROC. r \<noteq> q \<and> parent (procs s' q) = Some r \<and> live (procs s' r)"
      if q: "q < NPROC" "pstatus (procs s' q) \<noteq> UNUSED" "initproc s' \<noteq> Some q" for q
    proof -
      have "pstatus (procs s q) \<noteq> UNUSED"
        using st(1) [of q] q p by (cases "q = p") auto
      then obtain r where r: "r < NPROC" "r \<noteq> q" "parent (procs s q) = Some r" "live (procs s r)"
        using I(4) [of q] q E(1,3) by auto
      show ?thesis
      proof (cases "r = p")
        case True
        then show ?thesis
          using r ini st(4) [of ini] st(7) [of q] E(2) q E(3) by auto
      next
        case False
        then show ?thesis
          using r st(4) [of r] st(7) [of q] E(5) q(1) by (cases "q = p") auto
      qed
    qed
    show "pr_cwd (procs s' q) = None \<and> (\<forall>fd < NOFILE. pr_ofile (procs s' q) fd = None)"
      if "q < NPROC" "pstatus (procs s' q) = ZOMBIE" for q
      using I(5) [of q] st(3,5,6) [of q] E(6,7) that by (cases "q = p") auto
    show "pstatus (procs s' q) \<noteq> ZOMBIE"
      if a: "q < NPROC" "r < NPROC" "asleep_on (ProcChan r) (procs s' r)" "parent (procs s' q) = Some r" for q r
    proof
      assume z: "pstatus (procs s' q) = ZOMBIE"
      have rp: "r \<noteq> p"
        using a(3) E(4) by (auto simp: asleep_on_def)
      have qp: "q \<noteq> p"
        using E(5,9) a by auto
      show False
        using I(6) [of q r] E(10) [of q] st(3,7) [OF qp a(1)] st(8) [OF rp a(2)] a z ini(1) by (auto split: if_splits)
    qed
  qed
qed

lemma reap_inv:
  assumes "proc_inv s" "q < NPROC" "pstatus (procs s q) = ZOMBIE" "reap q s = Some (r, s')"
  shows "proc_inv s'"
proof -
  note I = proc_invD [OF assms(1)]
  obtain k where s': "s' = set_proc q ((procs s q)\<lparr>kstack := 0, pid := 0, parent := None, pr_name := [], killed := False,
       pstatus := UNUSED\<rparr>) (set_km k s)"
    using assms(4) by (auto simp: reap_def Let_def bind_eq_Some_conv)
  have no: "procs s' p = procs s p" if "p \<noteq> q" for p
    using that by (simp add: s')
  have v: "pstatus (procs s' q) = UNUSED" "parent (procs s' q) = None" "initproc s' = initproc s"
    by (simp_all add: s')
  have qi: "initproc s \<noteq> Some q"
    using I(1) assms(3) by (auto simp: live_def)
  show ?thesis
  proof (rule proc_invI)
    show "\<exists>ini < NPROC. initproc s' = Some ini \<and> parent (procs s' ini) = None \<and> live (procs s' ini)"
      using I(1) qi v(3) no by auto
    show "pstatus (procs s' p) \<noteq> EMBRYO" if "p < NPROC" for p
      using I(2) [OF that] no [of p] v(1) by (cases "p = q") auto
    show "parent (procs s' p) = None" if "p < NPROC" "pstatus (procs s' p) = UNUSED" for p
      using I(3) [of p] no [of p] v(2) that by (cases "p = q") auto
    show "\<exists>r < NPROC. r \<noteq> p \<and> parent (procs s' p) = Some r \<and> live (procs s' r)"
      if "p < NPROC" "pstatus (procs s' p) \<noteq> UNUSED" "initproc s' \<noteq> Some p" for p
    proof -
      have pq: "p \<noteq> q"
        using that v(1) by auto
      have "\<exists>r < NPROC. r \<noteq> p \<and> parent (procs s p) = Some r \<and> live (procs s r)"
        using I(4) [of p] that no [OF pq] v(3) by simp
      then obtain r where r: "r < NPROC" "r \<noteq> p" "parent (procs s p) = Some r" "live (procs s r)"
        by blast
      moreover have "r \<noteq> q"
        using r(4) assms(3) by (auto simp: live_def)
      ultimately show ?thesis
        using no [of r] no [OF pq] by auto
    qed
    show "pr_cwd (procs s' p) = None \<and> (\<forall>fd < NOFILE. pr_ofile (procs s' p) fd = None)"
      if "p < NPROC" "pstatus (procs s' p) = ZOMBIE" for p
      using I(5) [of p] no [of p] v(1) that by (cases "p = q") auto
    show "pstatus (procs s' p) \<noteq> ZOMBIE"
      if "p < NPROC" "r < NPROC" "asleep_on (ProcChan r) (procs s' r)" "parent (procs s' p) = Some r" for p r
      using I(6) [of p r] no [of p] no [of r] v that by (cases "p = q"; cases "r = q") (auto simp: asleep_on_def)
  qed
qed

lemma proc_step_inv:
  assumes "proc_step s s'" "proc_inv s"
  shows "proc_inv s'"
  using assms(1)
proof (cases rule: proc_step.cases)
  case (fork_step p r)
  then show ?thesis
    using fork_inv [OF assms(2)] by (auto simp: sys_fork_def)
next
  case (exit_step p)
  then show ?thesis
    using exit_inv [OF assms(2)] by (auto simp: sys_exit_def)
next
  case (wait_done p r)
  then show ?thesis
    using reap_inv [OF assms(2)] assms(2) by (auto simp: sys_wait_def wait_def find_upt_Some split: option.splits if_splits)
next
  case (wait_sleep p)
  then have w: "s' = sleep p (ProcChan p) s" "\<forall>z < NPROC. parent (procs s z) = Some p \<longrightarrow> pstatus (procs s z) \<noteq> ZOMBIE"
    by (auto simp: sys_wait_def wait_def find_None_iff split: option.splits if_splits)
  show ?thesis
    by (rule minor_inv [OF assms(2)])
      (use w wait_sleep(1) in \<open>auto simp: sleep_def minor_def live_def running_def asleep_on_def split: if_splits\<close>)
next
  case (kill_step arg r)
  then show ?thesis
    by (intro minor_inv [OF assms(2)])
      (auto simp: sys_kill_def kill_def minor_def live_def asleep_on_def find_upt_Some split: option.splits if_splits)
next
  case (setuid_step p arg r)
  then show ?thesis
    by (intro minor_inv [OF assms(2)])
      (auto simp: sys_setuid_def minor_def live_def asleep_on_def split: option.splits if_splits)
next
  case (sleep_step p c)
  then show ?thesis
    by (intro minor_inv [OF assms(2)]) (auto simp: sleep_def minor_def live_def running_def asleep_on_def split: if_splits)
next
  case (sleep_end p)
  then show ?thesis
    by (intro minor_inv [OF assms(2)]) (auto simp: sleep_return_def minor_def live_def asleep_on_def split: if_splits)
next
  case (wake_step c)
  then show ?thesis
    by (intro minor_inv [OF assms(2)])
      (auto simp: wakeup_def minor_def live_def wake_one_def asleep_on_def split: if_splits)
next
  case (yield_step p)
  then show ?thesis
    by (intro minor_inv [OF assms(2)]) (auto simp: yield_def minor_def live_def running_def asleep_on_def split: if_splits)
next
  case (run_step p)
  then show ?thesis
    by (intro minor_inv [OF assms(2)]) (auto simp: schedule_def minor_def live_def asleep_on_def split: if_splits)
qed

text \<open>The table after \<^verbatim>\<open>userinit\<close>: one process, everything else unused.\<close>

definition booted :: "tstate \<Rightarrow> bool" where
  "booted s \<longleftrightarrow> (\<exists>ini < NPROC. initproc s = Some ini \<and> parent (procs s ini) = None \<and> live (procs s ini) \<and>
     (\<forall>p < NPROC. p \<noteq> ini \<longrightarrow> pstatus (procs s p) = UNUSED \<and> parent (procs s p) = None))"

lemma booted_inv: "booted s \<Longrightarrow> proc_inv s"
  by (rule proc_invI) (auto simp: booted_def live_def)

lemma userinit_booted:
  assumes "userinit dv code s = Some s'" "\<And>p. p < NPROC \<Longrightarrow> pstatus (procs s p) = UNUSED \<and> parent (procs s p) = None"
  shows "booted s'"
proof -
  obtain q s1 where a: "allocproc s = (q, s1)"
    by (cases "allocproc s")
  show ?thesis
  proof (cases q)
    case (Some p)
    obtain st where p: "p < NPROC" "procs s1 = (procs s)(p := (procs s p)\<lparr>pstatus := EMBRYO, pid := nextpid s, kstack := st\<rparr>)"
      by (rule allocproc_Some [OF a [unfolded Some]])
    with assms(1) a Some have "initproc s' = Some p" "pstatus (procs s' p) = RUNNABLE" "parent (procs s' p) = parent (procs s p)"
      "\<And>r. r \<noteq> p \<Longrightarrow> procs s' r = procs s r"
      by (auto simp: userinit_def bind_eq_Some_conv Let_def split: if_splits)
    then show ?thesis
      using p(1) assms(2) unfolding booted_def live_def by (intro exI [of _ p]) auto
  qed (use assms(1) a in \<open>simp add: userinit_def\<close>)
qed

lemma history_inv:
  assumes "proc_inv s" "proc_step\<^sup>*\<^sup>* s s'"
  shows "proc_inv s'"
  using assms(2) by induction (simp_all add: assms(1) proc_step_inv)

text \<open>
  C3: no lost children.  After \<^verbatim>\<open>userinit\<close> and any history of forks, exits, waits, kills, sleeps, wakeups and scheduling
  decisions, the first process is still there, every other process has a parent that has not exited, a zombie holds no
  files and no directory, and no process is asleep in \<^verbatim>\<open>wait\<close> while one of its children is a zombie: no wakeup of \<^verbatim>\<open>wait\<close> is
  ever lost, also not for the children that \<^verbatim>\<open>exit\<close> hands to the first process.
\<close>

theorem wait_wakeup_not_lost:
  assumes "booted s" "proc_step\<^sup>*\<^sup>* s s'"
  shows "(\<exists>ini < NPROC. initproc s' = Some ini \<and> live (procs s' ini)) \<and>
    (\<forall>p < NPROC. pstatus (procs s' p) \<noteq> UNUSED \<and> initproc s' \<noteq> Some p \<longrightarrow>
      (\<exists>q < NPROC. q \<noteq> p \<and> parent (procs s' p) = Some q \<and> live (procs s' q))) \<and>
    (\<forall>p < NPROC. pstatus (procs s' p) = ZOMBIE \<longrightarrow>
      pr_cwd (procs s' p) = None \<and> (\<forall>fd < NOFILE. pr_ofile (procs s' p) fd = None)) \<and>
    (\<forall>q < NPROC. asleep_on (ProcChan q) (procs s' q) \<longrightarrow>
      (\<forall>p < NPROC. parent (procs s' p) = Some q \<longrightarrow> pstatus (procs s' p) \<noteq> ZOMBIE))"
proof -
  have "proc_inv s'"
    by (rule history_inv [OF booted_inv [OF assms(1)] assms(2)])
  note I = proc_invD [OF this]
  show ?thesis
    using I(1,4,5,6) by blast
qed

text \<open>A table with the first process ready to run.\<close>

definition idle_proc :: proc where
  "idle_proc = \<lparr>sz = 0, pgdir = 0, kstack = 0, pstatus = UNUSED, pid = 0, parent = None, tf = zero_tf, chan = None,
     killed = False, pr_ofile = (\<lambda>_. None), pr_cwd = None, pr_name = [], uid = 0, euid = 0\<rparr>"

definition init_only :: tstate where
  "init_only = \<lparr>procs = (\<lambda>_. idle_proc)(0 := idle_proc\<lparr>pid := 1, pstatus := RUNNABLE, pr_cwd := Some 0\<rparr>), nextpid = 2,
     initproc = Some 0, ticks = 0, kdata = 0x80109000, kern = boot_proc (\<lambda>_ _. 0) (\<lambda>_. 0)\<rparr>"

lemma init_only_booted: "booted init_only"
  unfolding booted_def by (intro exI [of _ 0]) (simp add: init_only_def idle_proc_def live_def NPROC_def)

theorem wait_wakeup_not_lost_witness:
  "\<exists>s. schedule 0 init_only = Some s \<and> running 0 s \<and> (\<exists>ini < NPROC. initproc s = Some ini \<and> live (procs s ini))"
proof -
  obtain s where s: "schedule 0 init_only = Some s" "running 0 s"
    by (auto simp: schedule_def init_only_def running_def NPROC_def)
  then have "proc_step init_only s"
    by (intro run_step [of 0]) (simp_all add: NPROC_def)
  then show ?thesis
    using s wait_wakeup_not_lost [OF init_only_booted r_into_rtranclp] by blast
qed

text \<open>
  C5: user identities.  In every step of a history, a process that exists afterwards has the user id it had before, or it
  was just created and has the user id of the process that forked it, or it was a process of the superuser and changed
  its own id.  So no process that is not the superuser's ever gets another identity.
\<close>

theorem uid_step:
  assumes "proc_step s s'" "p < NPROC" "pstatus (procs s' p) \<noteq> UNUSED" "proc_inv s"
  shows "uid (procs s' p) = uid (procs s p) \<and> pstatus (procs s p) \<noteq> UNUSED \<or>
    pstatus (procs s p) = UNUSED \<and> (\<exists>q. running q s \<and> parent (procs s' p) = Some q \<and> uid (procs s' p) = uid (procs s q)) \<or>
    running p s \<and> uid (procs s p) = ROOT"
  using assms(1)
proof (cases rule: proc_step.cases)
  case (fork_step q r)
  then have "pstatus (procs s q) \<noteq> UNUSED"
    by (simp add: running_def)
  with fork_step(2) [unfolded sys_fork_def] show ?thesis
  proof (cases rule: fork_cases)
    case fail
    then show ?thesis
      using assms(3) by (auto simp: touched_def split: if_splits)
  next
    case (child np st pg fds c)
    then show ?thesis
      using fork_step(1) assms(3) by (cases "p = np") auto
  qed
next
  case (exit_step q)
  have q: "q < NPROC" "pstatus (procs s q) \<noteq> UNUSED"
    using exit_step(1) by (simp_all add: running_def)
  show ?thesis
  proof (rule exit_spec [OF exit_step(2) [unfolded sys_exit_def] not_own_parent [OF assms(4) q] q(1)])
    fix ini
    assume u: "uid (procs s' q) = uid (procs s q)"
      and w: "\<And>r. r \<noteq> q \<Longrightarrow> r < NPROC \<Longrightarrow> woken (adopted q ini (procs s r)) (procs s' r)"
    show ?thesis
    proof (cases "p = q")
      case False
      from w [OF this assms(2)] assms(3) show ?thesis
        by (auto simp: woken_def adopted_def split: if_splits)
    qed (use u q(2) in simp)
  qed
qed (use assms(2,3) in \<open>auto simp: sys_wait_def wait_def reap_def sys_kill_def kill_def sys_setuid_def sleep_def sleep_return_def
    wakeup_def wake_one_def yield_def schedule_def running_def find_upt_Some bind_eq_Some_conv Let_def
    split: option.splits if_splits\<close>)

theorem uid_step_witness:
  "\<exists>s. proc_step init_only s \<and> running 0 s \<and> (uid (procs s 0) = uid (procs init_only 0) \<or> uid (procs init_only 0) = ROOT)"
proof -
  obtain s where s: "schedule 0 init_only = Some s" "running 0 s"
    by (auto simp: schedule_def init_only_def running_def NPROC_def)
  then have "proc_step init_only s"
    by (intro run_step [of 0]) (simp_all add: NPROC_def)
  moreover have "pstatus (procs s 0) \<noteq> UNUSED" "0 < NPROC" "pstatus (procs init_only 0) \<noteq> UNUSED"
    using s by (simp_all add: running_def NPROC_def init_only_def)
  ultimately show ?thesis
    using s(2) uid_step [OF _ _ _ booted_inv [OF init_only_booted], of s 0] by blast
qed

text \<open>
  C35: killing process 0.  Unused entries have pid 0, so \<^verbatim>\<open>kill(0)\<close> finds one, marks it killed and reports success; nothing
  clears the mark when the entry is used again, so the next process created in it is killed before it runs.
\<close>

theorem kill_zero_poisons:
  assumes "find (\<lambda>p. pid (procs s p) = 0) [0..<NPROC] = Some p" "pstatus (procs s p) = UNUSED"
    "\<forall>q < p. pstatus (procs s q) \<noteq> UNUSED" "freelist (km (kern s)) \<noteq> 0"
  shows "\<exists>s1 s2. sys_kill (Some 0) s = (0, s1) \<and> allocproc s1 = (Some p, s2) \<and> killed (procs s2 p)"
proof -
  let ?s1 = "set_proc p ((procs s p)\<lparr>killed := True, pstatus := UNUSED\<rparr>) s"
  have p: "p < NPROC"
    using assms(1) by (auto simp: find_upt_Some)
  have "sys_kill (Some 0) s = (0, ?s1)"
    using assms(1,2) by (simp add: sys_kill_def kill_def)
  moreover have "find (\<lambda>q. pstatus (procs ?s1 q) = UNUSED) [0..<NPROC] = Some p"
    using assms(2,3) p by (auto simp: find_upt_Some)
  ultimately show ?thesis
    using assms(4) by (auto simp: allocproc_def Let_def kalloc_def)
qed

theorem kill_zero_poisons_witness:
  "\<exists>s1 s2. sys_kill (Some 0) init_only = (0, s1) \<and> allocproc s1 = (Some 1, s2) \<and> killed (procs s2 1)"
  by (rule kill_zero_poisons)
    (simp_all add: init_only_def idle_proc_def NPROC_def upt_conv_Cons sample_kmem_def)

end
