(* ===== verification/Exec.thy ===== *)
theory Exec
  imports SysProc
begin

text \<open>
  \<^verbatim>\<open>src/kernel/exec.c\<close>, with \<^verbatim>\<open>loaduvm\<close> of \<^verbatim>\<open>vm.c\<close> and \<^verbatim>\<open>sys_exec\<close> of \<^verbatim>\<open>sysfile.c\<close>: replacing the memory of a process by a
  program.  The file headers are the records of \<^verbatim>\<open>elf.h\<close>, decoded from the bytes that \<^verbatim>\<open>readi\<close> returned.  The arguments are
  the strings of the null-terminated array \<^verbatim>\<open>argv\<close>.  A part of \<^verbatim>\<open>exec\<close> that jumps to the label \<^verbatim>\<open>bad\<close> returns \<open>None\<close> as its
  result, inside the \<open>Some\<close> of a call that returns.
\<close>

definition MAXARG :: nat where "MAXARG = 32"
definition ELF_MAGIC :: uint where "ELF_MAGIC = 0x464C457F"
definition ELF_PROG_LOAD :: uint where "ELF_PROG_LOAD = 1"

record elfhdr =
  magic :: uint
  elf :: "uchar list"
  e_type :: ushort
  machine :: ushort
  version :: uint
  entry :: uint
  phoff :: uint
  shoff :: uint
  e_flags :: uint
  ehsize :: ushort
  phentsize :: ushort
  phnum :: ushort
  shentsize :: ushort
  shnum :: ushort
  shstrndx :: ushort

definition elfhdr_of :: "uchar list \<Rightarrow> elfhdr" where
  "elfhdr_of bs = (let b = (\<lambda>i. bs ! i) in
     \<lparr>magic = get32 b 0, elf = take 12 (drop 4 bs), e_type = get16 b 16, machine = get16 b 18, version = get32 b 20,
      entry = get32 b 24, phoff = get32 b 28, shoff = get32 b 32, e_flags = get32 b 36, ehsize = get16 b 40,
      phentsize = get16 b 42, phnum = get16 b 44, shentsize = get16 b 46, shnum = get16 b 48, shstrndx = get16 b 50\<rparr>)"

record proghdr =
  p_type :: uint
  p_off :: uint
  vaddr :: uint
  paddr :: uint
  filesz :: uint
  memsz :: uint
  p_flags :: uint
  p_align :: uint

definition proghdr_of :: "uchar list \<Rightarrow> proghdr" where
  "proghdr_of bs = (let b = (\<lambda>i. bs ! i) in
     \<lparr>p_type = get32 b 0, p_off = get32 b 4, vaddr = get32 b 8, paddr = get32 b 12, filesz = get32 b 16, memsz = get32 b 20,
      p_flags = get32 b 24, p_align = get32 b 28\<rparr>)"

section \<open>Loading the segments\<close>

text \<open>The bytes that \<^verbatim>\<open>readi\<close> stored from the start of a page.\<close>

definition page_in :: "uint \<Rightarrow> uchar list \<Rightarrow> kmem \<Rightarrow> kmem" where
  "page_in a bytes k = fill_page a (\<lambda>i. if i < length bytes then bytes ! i else page k a i) k"

partial_function (option) loaduvm_loop :: "pstate devsw \<Rightarrow> uint \<Rightarrow> uint \<Rightarrow> nat \<Rightarrow> uint \<Rightarrow> uint \<Rightarrow> uint \<Rightarrow> pstate \<Rightarrow>
    (int \<times> pstate) option" where
  "loaduvm_loop dv pg addr ip offset z i s =
     (if i < z then
        (case fst (walkpgdir pg (addr + i) False (km s)) of
           None \<Rightarrow> panic ''loaduvm: address should exist''
         | Some pte \<Rightarrow> do {
             let pa = PTE_ADDR (get_pte (km s) pte);
             let n = (if z - i < PGSIZE then z - i else PGSIZE);
             (r, bytes, s) \<leftarrow> readi dv ip (unat (offset + i)) (unat n) s;
             let s = s\<lparr>km := page_in (P2V pa) bytes (km s)\<rparr>;
             if of_int r \<noteq> n then Some (-1, s)
             else loaduvm_loop dv pg addr ip offset z (i + PGSIZE) s
           })
      else Some (0, s))"

definition loaduvm :: "pstate devsw \<Rightarrow> uint \<Rightarrow> uint \<Rightarrow> nat \<Rightarrow> uint \<Rightarrow> uint \<Rightarrow> pstate \<Rightarrow> (int \<times> pstate) option" where
  "loaduvm dv pg addr ip offset z s =
     (if addr mod PGSIZE \<noteq> 0 then panic ''loaduvm: addr must be page aligned''
      else loaduvm_loop dv pg addr ip offset z 0 s)"

text \<open>One segment that has to be loaded: the new size of the image, or \<open>None\<close> for \<^verbatim>\<open>bad\<close>.\<close>

definition load_segment :: "pstate devsw \<Rightarrow> nat \<Rightarrow> uint \<Rightarrow> proghdr \<Rightarrow> uint \<Rightarrow> pstate \<Rightarrow> (uint option \<times> pstate) option" where
  "load_segment dv ip pg ph z s =
     (if memsz ph < filesz ph then Some (None, s)
      else if vaddr ph + memsz ph < vaddr ph then Some (None, s)
      else do {
        (z, k) \<leftarrow> allocuvm pg z (vaddr ph + memsz ph) (km s);
        let s = s\<lparr>km := k\<rparr>;
        if z = 0 then Some (None, s)
        else if vaddr ph mod PGSIZE \<noteq> 0 then Some (None, s)
        else do {
          (r, s) \<leftarrow> loaduvm dv pg (vaddr ph) ip (p_off ph) (filesz ph) s;
          Some (if r < 0 then None else Some z, s)
        }
      })"

text \<open>The loop over the program headers, with \<open>n\<close> headers to go.\<close>

fun load_segments :: "pstate devsw \<Rightarrow> nat \<Rightarrow> uint \<Rightarrow> nat \<Rightarrow> uint \<Rightarrow> uint \<Rightarrow> pstate \<Rightarrow> (uint option \<times> pstate) option" where
  "load_segments dv ip pg 0 off z s = Some (Some z, s)"
| "load_segments dv ip pg (Suc n) off z s = do {
     (r, bytes, s) \<leftarrow> readi dv ip (unat off) 32 s;
     if r \<noteq> 32 then Some (None, s)
     else if p_type (proghdr_of bytes) \<noteq> ELF_PROG_LOAD then load_segments dv ip pg n (off + 32) z s
     else do {
       (z', s) \<leftarrow> load_segment dv ip pg (proghdr_of bytes) z s;
       (case z' of
          None \<Rightarrow> Some (None, s)
        | Some z \<Rightarrow> load_segments dv ip pg n (off + 32) z s)
     }
   }"

text \<open>The new page directory, zero if there is none yet, and the entry point and size of the image.\<close>

definition load_image :: "pstate devsw \<Rightarrow> uint \<Rightarrow> nat \<Rightarrow> pstate \<Rightarrow> (uint \<times> (uint \<times> uint) option \<times> pstate) option" where
  "load_image dv kd ip s = do {
     (r, bytes, s) \<leftarrow> readi dv ip 0 52 s;
     if r \<noteq> 52 then Some (0, None, s)
     else do {
       let eh = elfhdr_of bytes;
       if magic eh \<noteq> ELF_MAGIC then Some (0, None, s)
       else do {
         (pg, k) \<leftarrow> setupkvm kd (km s);
         let s = s\<lparr>km := k\<rparr>;
         if pg = 0 then Some (0, None, s)
         else do {
           (z, s) \<leftarrow> load_segments dv ip pg (unat (phnum eh)) (phoff eh) 0 s;
           Some (pg, map_option (Pair (entry eh)) z, s)
         }
       }
     }
   }"

section \<open>The stack of the new program\<close>

text \<open>A C string with its terminating zero byte.\<close>

definition cbytes :: "string \<Rightarrow> uchar list" where
  "cbytes a = map of_char a @ [0]"

text \<open>The argument strings, downwards from \<open>sp\<close>; \<open>ptrs\<close> is the part of \<^verbatim>\<open>ustack\<close> that is filled, from index 3.\<close>

fun push_args :: "uint \<Rightarrow> string list \<Rightarrow> uint \<Rightarrow> uint list \<Rightarrow> kmem \<Rightarrow> ((uint \<times> uint list) option \<times> kmem) option" where
  "push_args pg [] sp ptrs k = Some (Some (sp, ptrs), k)"
| "push_args pg (a # argv) sp ptrs k =
     (if length ptrs \<ge> MAXARG then Some (None, k)
      else do {
        let sp = (sp - (of_nat (length a) + 1)) AND NOT 3;
        (r, k) \<leftarrow> copyout pg sp (cbytes a) k;
        if r < 0 then Some (None, k) else push_args pg argv sp (ptrs @ [sp]) k
      })"

definition push_stack :: "uint \<Rightarrow> string list \<Rightarrow> uint \<Rightarrow> kmem \<Rightarrow> (uint option \<times> kmem) option" where
  "push_stack pg argv sp k = do {
     (r, k) \<leftarrow> push_args pg argv sp [] k;
     (case r of
        None \<Rightarrow> Some (None, k)
      | Some (sp, ptrs) \<Rightarrow> do {
          let argc = of_nat (length ptrs);
          let ustack = [0xFFFFFFFF, argc, sp - (argc + 1) * 4] @ ptrs @ [0];
          let sp = sp - (3 + argc + 1) * 4;
          (r, k) \<leftarrow> copyout pg sp (concat (map word_bytes ustack)) k;
          Some (if r < 0 then None else Some sp, k)
        })
   }"

definition build_stack :: "uint \<Rightarrow> uint \<Rightarrow> string list \<Rightarrow> kmem \<Rightarrow> ((uint \<times> uint) option \<times> kmem) option" where
  "build_stack pg z argv k = do {
     let z = PGROUNDUP z;
     (z, k) \<leftarrow> allocuvm pg z (z + 2 * PGSIZE) k;
     if z = 0 then Some (None, k)
     else do {
       k \<leftarrow> clearpteu pg (z - 2 * PGSIZE) k;
       (sp, k) \<leftarrow> push_stack pg argv z k;
       Some (map_option (Pair z) sp, k)
     }
   }"

section \<open>The whole call\<close>

fun last_elem :: "string \<Rightarrow> string \<Rightarrow> string" where
  "last_elem l [] = l"
| "last_elem l (c # s) = last_elem (if c = CHR ''/'' then s else l) s"

text \<open>The code at the label \<^verbatim>\<open>bad\<close>.\<close>

definition exec_bad :: "uint \<Rightarrow> nat option \<Rightarrow> pstate \<Rightarrow> pstate option" where
  "exec_bad pg ipo s = do {
     k \<leftarrow> (if pg \<noteq> 0 then freevm pg (km s) else Some (km s));
     let s = s\<lparr>km := k\<rparr>;
     (case ipo of
        None \<Rightarrow> Some s
      | Some ip \<Rightarrow> do { s \<leftarrow> iunlockput ip s; end_op s })
   }"

text \<open>The end of a call that succeeds: the name for debugging, and the switch to the new image.\<close>

definition exec_commit :: "string \<Rightarrow> uint \<Rightarrow> uint \<Rightarrow> uint \<Rightarrow> uint \<Rightarrow> nat \<Rightarrow> tstate \<Rightarrow> (int \<times> tstate) option" where
  "exec_commit path pg ent z sp p s = do {
     let e = procs s p;
     let s = set_proc p (e\<lparr>pr_name := take 15 (last_elem path path), pgdir := pg, sz := z,
       tf := (tf e)\<lparr>eip := ent, esp := sp\<rparr>\<rparr>) s;
     if kstack e = 0 then panic ''switchuvm: no kstack''
     else if pg = 0 then panic ''switchuvm: no pgdir''
     else do {
       k \<leftarrow> freevm (pgdir e) (km (kern s));
       Some (0, set_km k s)
     }
   }"

definition exec :: "pstate devsw \<Rightarrow> string \<Rightarrow> string list \<Rightarrow> nat \<Rightarrow> tstate \<Rightarrow> (int \<times> tstate) option" where
  "exec dv path argv p s = do {
     k \<leftarrow> begin_op (kern s);
     (ipo, k) \<leftarrow> namei dv path k;
     (case ipo of
        None \<Rightarrow> do { k \<leftarrow> end_op k; Some (-1, s\<lparr>kern := k\<rparr>) }
      | Some ip \<Rightarrow> do {
          k \<leftarrow> ilock (Some ip) k;
          (pg, img, k) \<leftarrow> load_image dv (kdata s) ip k;
          (case img of
             None \<Rightarrow> do { k \<leftarrow> exec_bad pg (Some ip) k; Some (-1, s\<lparr>kern := k\<rparr>) }
           | Some (ent, z) \<Rightarrow> do {
               k \<leftarrow> iunlockput ip k;
               k \<leftarrow> end_op k;
               (st, m) \<leftarrow> build_stack pg z argv (km k);
               let k = k\<lparr>km := m\<rparr>;
               (case st of
                  None \<Rightarrow> do { k \<leftarrow> exec_bad pg None k; Some (-1, s\<lparr>kern := k\<rparr>) }
                | Some (z, sp) \<Rightarrow> exec_commit path pg ent z sp p (s\<lparr>kern := k\<rparr>))
             })
        })
   }"

text \<open>The loop of \<^verbatim>\<open>sys_exec\<close>: the arguments from entry \<open>length argv\<close> of the array at \<open>uargv\<close> on, \<open>None\<close> for a return of -1.\<close>

fun fetch_argv :: "uint \<Rightarrow> nat \<Rightarrow> string list \<Rightarrow> pstate \<Rightarrow> string list option" where
  "fetch_argv uargv 0 argv s = None"
| "fetch_argv uargv (Suc n) argv s = do {
     uarg \<leftarrow> fetchint (uargv + 4 * of_nat (length argv)) s;
     if uarg = 0 then Some argv
     else do {
       a \<leftarrow> fetchstr uarg s;
       fetch_argv uargv n (argv @ [a]) s
     }
   }"

definition sys_exec :: "pstate devsw \<Rightarrow> nat \<Rightarrow> tstate \<Rightarrow> (int \<times> tstate) option" where
  "sys_exec dv p s =
     (case (argstr 0 (kern s), argint 1 (kern s)) of
        (Some path, Some uargv) \<Rightarrow>
          (case fetch_argv uargv MAXARG [] (kern s) of
             None \<Rightarrow> Some (-1, s)
           | Some argv \<Rightarrow> exec dv path argv p s)
      | _ \<Rightarrow> Some (-1, s))"

section \<open>What the new program finds on its stack\<close>

text \<open>The byte a user program reads at a virtual address, and a run of such bytes.\<close>

definition user_byte :: "kmem \<Rightarrow> uint \<Rightarrow> uint \<Rightarrow> uchar option" where
  "user_byte k pg va =
     (case mapped k pg va of
        None \<Rightarrow> None
      | Some pte \<Rightarrow> if pte AND PTE_U = 0 then None else Some (page k (P2V (PTE_ADDR pte)) (unat (va - PGROUNDDOWN va))))"

definition user_holds :: "kmem \<Rightarrow> uint \<Rightarrow> uint \<Rightarrow> uchar list \<Rightarrow> bool" where
  "user_holds k pg va bytes \<longleftrightarrow> (\<forall>i < length bytes. user_byte k pg (va + of_nat i) = Some (bytes ! i))"

text \<open>The bytes an argument takes on the stack, and where the arguments go in a page filled downwards from offset \<open>n\<close>.\<close>

definition arg_room :: "string \<Rightarrow> nat" where
  "arg_room a = (length a + 4) div 4 * 4"

fun arg_offs :: "nat \<Rightarrow> string list \<Rightarrow> nat list" where
  "arg_offs n [] = []"
| "arg_offs n (a # argv) = (n - arg_room a) # arg_offs (n - arg_room a) argv"

fun args_page :: "nat \<Rightarrow> string list \<Rightarrow> block \<Rightarrow> block" where
  "args_page n [] b = b"
| "args_page n (a # argv) b = args_page (n - arg_room a) argv (write_bytes b (n - arg_room a) (cbytes a))"

lemma arg_offs_sel [simp]: "length (arg_offs n argv) = length argv"
  by (induction argv arbitrary: n) simp_all

lemma length_cbytes [simp]: "length (cbytes a) = length a + 1"
  by (simp add: cbytes_def)

lemma arg_room_ge: "length a + 1 \<le> arg_room a"
  unfolding arg_room_def by linarith

lemma args_page_above: "sum_list (map arg_room argv) \<le> n \<Longrightarrow> n \<le> i \<Longrightarrow> args_page n argv b i = b i"
proof (induction argv arbitrary: n b)
  case (Cons a argv)
  then show ?case
    using arg_room_ge [of a] Cons.IH [of "n - arg_room a"] by (auto simp: write_bytes_def)
qed simp

lemma arg_offs_bounds:
  "sum_list (map arg_room argv) \<le> n \<Longrightarrow> i < length argv \<Longrightarrow>
   n - sum_list (map arg_room argv) \<le> arg_offs n argv ! i \<and> arg_offs n argv ! i + length (argv ! i) + 1 \<le> n"
proof (induction argv arbitrary: n i)
  case (Cons a argv)
  show ?case
  proof (cases i)
    case 0
    then show ?thesis
      using Cons.prems arg_room_ge [of a] by auto
  next
    case (Suc j)
    then show ?thesis
      using Cons.IH [of "n - arg_room a" j] Cons.prems by (simp add: le_diff_conv2)
  qed
qed simp

lemma args_page_at:
  "sum_list (map arg_room argv) \<le> n \<Longrightarrow> i < length argv \<Longrightarrow> j \<le> length (argv ! i) \<Longrightarrow>
   args_page n argv b (arg_offs n argv ! i + j) = cbytes (argv ! i) ! j"
proof (induction argv arbitrary: n b i)
  case (Cons a argv)
  show ?case
  proof (cases i)
    case 0
    then show ?thesis
      using Cons.prems args_page_above [of argv "n - arg_room a" "n - arg_room a + j"] by (simp add: write_bytes_def del: diff_add_assoc2) linarith
  next
    case (Suc i')
    then show ?thesis
      using Cons.IH [of "n - arg_room a" i'] Cons.prems by simp
  qed
qed simp

text \<open>A page of the process that it may use, and that is not part of its page table.\<close>

definition user_page :: "kmem \<Rightarrow> uint \<Rightarrow> uint \<Rightarrow> uint \<Rightarrow> bool" where
  "user_page k pg va p \<longleftrightarrow> va mod PGSIZE = 0 \<and> p \<noteq> 0 \<and> p \<noteq> pg \<and> (\<forall>j < 1024. table k pg j \<noteq> Some p) \<and>
     (\<exists>pte. mapped k pg va = Some pte \<and> pte AND PTE_U \<noteq> 0 \<and> P2V (PTE_ADDR pte) = p)"

lemma fill_page_twice [simp]: "fill_page p b (fill_page p c k) = fill_page p b k" "page (fill_page p b k) p = b"
  by (simp_all add: fill_page_def)

lemma fill_page_mapped:
  assumes "p \<noteq> pg" "\<forall>j < 1024. table k pg j \<noteq> Some p"
  shows "table (fill_page p b k) pg = table k pg" "mapped (fill_page p b k) pg = mapped k pg"
proof -
  show t: "table (fill_page p b k) pg = table k pg"
    using assms(1) by (intro ext) (simp add: table_def get_pte_fill_page)
  show "mapped (fill_page p b k) pg = mapped k pg"
  proof
    fix x
    show "mapped (fill_page p b k) pg x = mapped k pg x"
      using assms(2) [rule_format, OF PDX_less, of x] by (auto simp: mapped_table t get_pte_fill_page split: option.split)
  qed
qed

lemma user_page_fill [simp]: "user_page k pg va p \<Longrightarrow> user_page (fill_page p b k) pg va p"
  using fill_page_mapped [of p pg k b] by (auto simp: user_page_def)

text \<open>The addresses of a page.\<close>

lemma in_page:
  assumes "va mod PGSIZE = 0" "n < 4096"
  shows "PGROUNDDOWN (va + of_nat n) = va" "unat (va + of_nat n - PGROUNDDOWN (va + of_nat n)) = n"
proof -
  have m: "PGSIZE - 1 = mask 12"
    by (simp add: PGSIZE_def mask_eq_exp_minus_1)
  have va: "bit va i \<Longrightarrow> 12 \<le> i" for i
    using arg_cong [OF assms(1) [unfolded low_bits_mod], of "\<lambda>x. bit x i"] by (auto simp: bit_take_bit_iff not_less)
  have "take_bit 12 (of_nat n :: uint) = of_nat n"
    using assms(2) by (simp add: take_bit_eq_mod unat_of_nat word_arith_nat_mod take_bit_nat_eq_self)
  then have n: "bit (of_nat n :: uint) i \<Longrightarrow> i < 12" for i
    by (metis bit_take_bit_iff)
  define w :: uint where "w = of_nat n"
  have "va + w = va OR w"
    by (rule disjunctive_add) (use va n in \<open>force simp: w_def\<close>)
  then show e: "PGROUNDDOWN (va + of_nat n) = va"
    unfolding PGROUNDDOWN_def m w_def [symmetric]
    by (simp, intro bit_word_eqI) (auto simp: bit_simps dest: va n [folded w_def])
  show "unat (va + of_nat n - PGROUNDDOWN (va + of_nat n)) = n"
    using assms(2) by (simp add: e)
qed

lemma copyout_in_page:
  assumes "user_page k pg va p" "n + length buf \<le> 4096"
  shows "copyout pg (va + of_nat n) buf k = Some (0, fill_page p (write_bytes (page k p) n buf) k)"
proof (cases "buf = []")
  case True
  have "write_bytes (page k p) n [] = page k p"
    by (rule ext) (auto simp: write_bytes_def)
  with True show ?thesis
    by (simp add: copyout.simps [of pg _ "[]"] fill_page_def)
next
  case False
  then have n: "n < 4096"
    using assms(2) by (cases buf) auto
  obtain pte where pte: "va mod PGSIZE = 0" "mapped k pg va = Some pte" "pte AND PTE_U \<noteq> 0" "P2V (PTE_ADDR pte) = p" "p \<noteq> 0"
    using assms(1) by (auto simp: user_page_def)
  have uva: "uva2ka pg va k = Some p"
    using pte by (auto simp: uva2ka_def mapped_table walk_present split: option.splits if_splits)
  note ip = in_page [OF pte(1) n]
  have "unat (PGSIZE - (va + of_nat n - PGROUNDDOWN (va + of_nat n))) = 4096 - n"
    using n by (simp add: ip(1) PGSIZE_def unat_sub word_le_nat_alt)
  then have c: "page_chunk (va + of_nat n) (length buf) = length buf"
    using assms(2) by (simp add: page_chunk_def)
  show ?thesis
    using False pte(5) n
    by (simp add: copyout.simps [of pg _ buf] copyout.simps [of pg _ "[]"] ip(1) ip(2) [unfolded ip(1)] uva c Let_def write_bytes_def
        del: add_diff_cancel_left')
qed

lemma and_not_3: "unat ((x :: uint) AND NOT 3) = unat x div 4 * 4"
proof -
  have m: "(3 :: uint) = mask 2"
    by (simp add: mask_eq_exp_minus_1)
  have s: "2 \<le> n \<Longrightarrow> Suc (Suc (n - 2)) = n" for n
    by simp
  have "x AND NOT (mask 2) = push_bit 2 (drop_bit 2 x)"
    by (rule bit_word_eqI) (auto simp: bit_simps s)
  then have "x AND NOT 3 = push_bit 2 (drop_bit 2 x)"
    unfolding m .
  also have "\<dots> = x div 4 * 4"
    by (simp add: push_bit_eq_mult drop_bit_eq_div)
  finally have "unat (x AND NOT 3) = unat (x div 4 * 4)"
    by simp
  also have "\<dots> = unat x div 4 * 4"
    using unat_uint_less [of x] by (simp add: unat_word_ariths(2) unat_div mod_less)
  finally show ?thesis .
qed

lemma page_aligned_4: "va mod PGSIZE = 0 \<Longrightarrow> 4 dvd unat va"
proof -
  assume "va mod PGSIZE = 0"
  then have "unat (va mod PGSIZE) = 0"
    by simp
  then have "4096 dvd unat va"
    unfolding unat_mod by (simp add: PGSIZE_def mod_eq_0_iff_dvd)
  then show ?thesis
    using dvd_trans [of 4 4096 "unat va"] by simp
qed

text \<open>The stack pointer after an argument is pushed.\<close>

lemma push_sp:
  assumes "va mod PGSIZE = 0" "unat va + 4096 < 2 ^ 32" "n \<le> 4096" "4 dvd n" "arg_room a \<le> n"
  shows "(va + of_nat n - (of_nat (length a) + 1)) AND NOT 3 = va + of_nat (n - arg_room a)"
proof (rule word_unat_eq_iff [THEN iffD2])
  note va = page_aligned_4 [OF assms(1)]
  have "length a + 1 \<le> n"
    using arg_room_ge [of a] assms(5) by simp
  then have "va + of_nat n - (of_nat (length a) + 1) = of_nat (unat va + n - (length a + 1))"
    by (simp add: of_nat_diff)
  moreover have "unat va + n - (length a + 1) < 2 ^ 32"
    using assms(2,3) by simp
  ultimately have "unat (va + of_nat n - (of_nat (length a) + 1)) = unat va + n - (length a + 1)"
    by simp
  moreover have "(unat va + n - (length a + 1)) div 4 * 4 = unat va + (n - arg_room a)"
  proof -
    obtain i j where ij: "unat va = 4 * i" "n = 4 * j"
      using va assms(4) by (auto elim!: dvdE)
    define q where "q = (length a + 4) div 4"
    have q: "length a < 4 * q" "4 * q \<le> length a + 4" "q \<le> j" "arg_room a = 4 * q"
      using assms(5) by (auto simp: q_def arg_room_def ij)
    then have "(4 * (i + j) - (length a + 1)) div 4 = i + j - q"
      by (intro div_nat_eqI) auto
    then show ?thesis
      using q by (simp add: ij add_mult_distrib2)
  qed
  moreover have "unat (va + of_nat (n - arg_room a)) = unat va + (n - arg_room a)"
  proof -
    have "va + of_nat (n - arg_room a) = of_nat (unat va + (n - arg_room a))"
      by simp
    moreover have "unat va + (n - arg_room a) < 2 ^ 32"
      using assms(2,3) by simp
    ultimately show ?thesis
      by (metis unat_of_nat_small)
  qed
  ultimately show "unat ((va + of_nat n - (of_nat (length a) + 1)) AND NOT 3) = unat (va + of_nat (n - arg_room a))"
    unfolding and_not_3 by simp
qed

lemma push_args_run:
  assumes "user_page k pg va p" "unat va + 4096 < 2 ^ 32" "n \<le> 4096" "4 dvd n" "sum_list (map arg_room argv) \<le> n"
    "length ptrs + length argv \<le> MAXARG"
  shows "push_args pg argv (va + of_nat n) ptrs k =
    Some (Some (va + of_nat (n - sum_list (map arg_room argv)), ptrs @ map (\<lambda>x. va + of_nat x) (arg_offs n argv)),
      fill_page p (args_page n argv (page k p)) k)"
  using assms(1,3-6)
proof (induction argv arbitrary: n ptrs k)
  case Nil
  then show ?case
    by (simp add: fill_page_def)
next
  case (Cons a argv)
  have va: "va mod PGSIZE = 0" and r: "arg_room a \<le> n" "4 dvd arg_room a"
    using Cons.prems by (simp_all add: user_page_def arg_room_def)
  have fit: "n - arg_room a + length (cbytes a) \<le> 4096"
    using Cons.prems(2) r(1) arg_room_ge [of a] by simp
  note sp = push_sp [OF va assms(2) Cons.prems(2,3) r(1)]
  show ?case
    using Cons.prems r Cons.IH [OF user_page_fill [OF Cons.prems(1)], of "n - arg_room a" "ptrs @ [va + of_nat (n - arg_room a)]"]
    unfolding push_args.simps sp Let_def copyout_in_page [OF Cons.prems(1) fit] by (simp del: of_nat_diff)
qed

lemma word_bytes_length [simp]: "length (word_bytes w) = 4"
  by (simp add: word_bytes_def)

lemma length_words [simp]: "length (concat (map word_bytes ws)) = 4 * length ws"
  by (induction ws) simp_all

text \<open>The room the arguments and the vector of pointers need.\<close>

definition stack_room :: "string list \<Rightarrow> nat" where
  "stack_room argv = sum_list (map arg_room argv) + 4 * (length argv + 4)"

definition stack_block :: "uint \<Rightarrow> string list \<Rightarrow> block \<Rightarrow> block" where
  "stack_block va argv b =
     (let n = 4096 - stack_room argv in
      write_bytes (args_page 4096 argv b) n
        (concat (map word_bytes ([0xFFFFFFFF, of_nat (length argv), va + of_nat (n + 12)] @
           map (\<lambda>x. va + of_nat x) (arg_offs 4096 argv) @ [0]))))"

lemma push_stack_run:
  assumes "user_page k pg va p" "unat va + 4096 < 2 ^ 32" "stack_room argv \<le> 4096" "length argv \<le> MAXARG"
  shows "push_stack pg argv (va + PGSIZE) k =
    Some (Some (va + of_nat (4096 - stack_room argv)), fill_page p (stack_block va argv (page k p)) k)"
proof -
  let ?m = "sum_list (map arg_room argv)" and ?l = "length argv"
  have r: "push_args pg argv (va + PGSIZE) [] k = Some (Some (va + of_nat (4096 - ?m), map (\<lambda>x. va + of_nat x) (arg_offs 4096 argv)),
      fill_page p (args_page 4096 argv (page k p)) k)"
    using push_args_run [OF assms(1,2), of 4096 argv "[]"] assms(3,4) by (simp add: stack_room_def PGSIZE_def)
  have s: "va + of_nat (4096 - ?m) - (3 + of_nat ?l + 1) * 4 = va + of_nat (4096 - stack_room argv)"
    "va + of_nat (4096 - ?m) - (of_nat ?l + 1) * 4 = va + of_nat (4096 - stack_room argv + 12)"
    using assms(3) by (simp_all add: stack_room_def of_nat_diff algebra_simps)
  let ?us = "[0xFFFFFFFF, of_nat ?l, va + of_nat (4096 - stack_room argv + 12)] @
    map (\<lambda>x. va + of_nat x) (arg_offs 4096 argv) @ [0]"
  have "4096 - stack_room argv + length (concat (map word_bytes ?us)) \<le> 4096"
    using assms(3) unfolding length_words by (simp add: stack_room_def)
  note c = copyout_in_page [OF user_page_fill [OF assms(1)] this]
  show ?thesis
    unfolding push_stack_def r bind.bind_lunit option.case prod.case Let_def length_map arg_offs_sel s c stack_block_def
    by simp
qed

lemma user_page_byte:
  assumes "user_page k pg va p" "n < 4096"
  shows "user_byte k pg (va + of_nat n) = Some (page k p n)"
proof -
  obtain pte where pte: "va mod PGSIZE = 0" "mapped k pg va = Some pte" "pte AND PTE_U \<noteq> 0" "P2V (PTE_ADDR pte) = p"
    using assms(1) by (auto simp: user_page_def)
  note ip = in_page [OF pte(1) assms(2)]
  have "PGROUNDDOWN (va + of_nat n) = PGROUNDDOWN va"
    by (simp add: ip(1) aligned_page [OF pte(1)])
  then have "mapped k pg (va + of_nat n) = Some pte"
    using pte(2) by (auto simp: same_page [symmetric] mapped_table split: option.splits)
  then show ?thesis
    using pte(3,4) ip(2) by (simp add: user_byte_def)
qed

lemma user_page_holds:
  assumes "user_page k pg va p" "n + length bs \<le> 4096" "\<And>i. i < length bs \<Longrightarrow> page k p (n + i) = bs ! i"
  shows "user_holds k pg (va + of_nat n) bs"
proof -
  have "user_byte k pg (va + of_nat n + of_nat i) = Some (bs ! i)" if "i < length bs" for i
    using user_page_byte [OF assms(1), of "n + i"] assms(2) assms(3) [OF that] that by (simp add: add.assoc)
  then show ?thesis
    by (simp add: user_holds_def)
qed

text \<open>One round of \<^verbatim>\<open>allocuvm\<close>, in a well-formed directory with enough free pages.\<close>

lemma allocuvm_round:
  assumes vm: "vm_ok k (p # qs) pg" and va: "va mod PGSIZE = 0" "va < n" "mapped k pg va = None" "qs \<noteq> []"
  shows "\<exists>k' qs'. allocuvm_loop pg va l n k = allocuvm_loop pg (va + PGSIZE) l n k' \<and> vm_ok k' qs' pg \<and>
    length qs \<le> length qs' + 1 \<and> p \<noteq> 0 \<and> p mod PGSIZE = 0 \<and> p \<noteq> pg \<and> (\<forall>j < 1024. table k' pg j \<noteq> Some p) \<and>
    mapped k' pg = (\<lambda>x. if PGROUNDDOWN x = va then Some (V2P p OR (PTE_W OR PTE_U OR PTE_P)) else mapped k pg x)"
proof -
  note ok = vm_okD [OF vm]
  obtain r k1 where r: "kalloc k = (r, k1)"
    by (cases "kalloc k")
  have k1: "r = p" "kmem_ok k1 qs" "page k1 = page k" "valid_page k p" "p \<notin> set qs"
    using kalloc_ok(2) [OF ok(1) r refl] by auto
  have p: "p \<noteq> 0" "p mod PGSIZE = 0" "p \<noteq> pg" "\<forall>j < 1024. table k pg j \<noteq> Some p"
    using k1(4) ok(2,3) by (auto simp: valid_page_def)
  let ?k = "fill_page p zero_block k1"
  have "get_pte k1 = get_pte k"
    by (rule ext) (simp add: get_pte_def k1(3))
  then have same: "table k1 pg = table k pg" "mapped k1 pg = mapped k pg"
    by (simp_all add: table_def [abs_def] mapped_def [abs_def] Let_def cong: if_cong)
  have t: "table ?k pg = table k pg" "mapped ?k pg = mapped k pg"
    using fill_page_mapped [of p pg k1 zero_block] p(3,4) by (simp_all add: same)
  have "vm_ok ?k qs pg"
    using vm k1(2,5) by (simp add: vm_ok_def t kmem_ok_fill_page)
  then have "ok (mappages pg va PGSIZE (V2P p) (PTE_W OR PTE_U) ?k) (\<lambda>(r, k'). r = 0 \<and>
        vm_ok k' (if table k pg (PDX va) = None then tl qs else qs) pg \<and>
        (\<forall>x. mapped k' pg x = (if PGROUNDDOWN x = va then Some (V2P p OR (PTE_W OR PTE_U) OR PTE_P) else mapped k pg x)) \<and>
        (\<forall>j t. table k' pg j = Some t \<longrightarrow> table k pg j = Some t \<or> t \<in> set qs))"
    using mappages_page_run(3) [OF _ aligned_page [OF va(1)], of ?k qs pg "V2P p" "PTE_W OR PTE_U", unfolded t] va(3,4) by blast
  then obtain k' where k': "mappages pg va PGSIZE (V2P p) (PTE_W OR PTE_U) ?k = Some (0, k')"
      "vm_ok k' (if table k pg (PDX va) = None then tl qs else qs) pg"
      "\<And>x. mapped k' pg x = (if PGROUNDDOWN x = va then Some (V2P p OR (PTE_W OR PTE_U OR PTE_P)) else mapped k pg x)"
      "\<And>j t. table k' pg j = Some t \<Longrightarrow> table k pg j = Some t \<or> t \<in> set qs"
    by (auto simp: ok_iff or.assoc)
  have "\<forall>j < 1024. table k' pg j \<noteq> Some p"
    using k'(4) p(4) k1(5) by blast
  moreover have "allocuvm_loop pg va l n k = allocuvm_loop pg (va + PGSIZE) l n k'"
    using va(2) r k1(1) p(1) k'(1) by (simp add: allocuvm_loop.simps [of pg va])
  moreover have "length qs \<le> length (if table k pg (PDX va) = None then tl qs else qs) + 1"
    by auto
  moreover have "mapped k' pg = (\<lambda>x. if PGROUNDDOWN x = va then Some (V2P p OR (PTE_W OR PTE_U OR PTE_P)) else mapped k pg x)"
    using k'(3) by auto
  ultimately show ?thesis
    using k'(2) p(1-3) by (intro exI [of _ k'] exI [of _ "if table k pg (PDX va) = None then tl qs else qs"] conjI)
qed

lemma user_pte:
  fixes x :: uint
  defines "e \<equiv> x OR (PTE_W OR PTE_U OR PTE_P)"
  shows "e AND PTE_U \<noteq> 0" "(e AND NOT PTE_U) AND PTE_P \<noteq> 0" "(e AND NOT PTE_U) AND PTE_U = 0"
    "take_bit 12 x = 0 \<Longrightarrow> PTE_ADDR e = x"
proof -
  have "bit (e AND PTE_U) 2" "bit ((e AND NOT PTE_U) AND PTE_P) 0"
    by (simp_all add: e_def PTE_P_def PTE_U_def PTE_W_def bit_simps)
  then show "e AND PTE_U \<noteq> 0" "(e AND NOT PTE_U) AND PTE_P \<noteq> 0"
    by (metis bit_0_eq bot_apply bot_bool_def)+
  show "(e AND NOT PTE_U) AND PTE_U = 0"
    by (rule bit_word_eqI) (auto simp: bit_simps)
  show "take_bit 12 x = 0 \<Longrightarrow> PTE_ADDR e = x"
    unfolding e_def by (rule PTE_ADDR_or) (simp_all add: PTE_P_def PTE_U_def PTE_W_def)
qed

text \<open>The two pages of the stack, the lower one closed to the program.\<close>

lemma stack_pages:
  assumes vm: "vm_ok k ps pg" "4 \<le> length ps" and g: "g mod PGSIZE = 0" "g < KERNBASE - 2 * PGSIZE"
    and none: "mapped k pg g = None" "mapped k pg (g + PGSIZE) = None"
  obtains k1 k2 p where "allocuvm pg g (g + 2 * PGSIZE) k = Some (g + 2 * PGSIZE, k1)" "clearpteu pg g k1 = Some k2"
    "user_page k2 pg (g + PGSIZE) p" "\<forall>x. PGROUNDDOWN x = g \<longrightarrow> user_byte k2 pg x = None"
proof -
  obtain p1 qs where ps: "ps = p1 # qs" "3 \<le> length qs"
    using vm(2) by (cases ps) auto
  have ug: "unat g + 8192 < 2 ^ 31"
    using g(2) by (simp add: word_less_nat_alt KERNBASE_def PGSIZE_def)
  have un: "unat (g + PGSIZE) = unat g + 4096" "unat (g + 2 * PGSIZE) = unat g + 8192"
    using ug unat_of_nat_small [of "unat g + 4096"] unat_of_nat_small [of "unat g + 8192"] by (simp_all add: PGSIZE_def)
  have al: "(g + PGSIZE) mod PGSIZE = 0"
    using g(1) un(1) by (simp add: word_unat_eq_iff unat_mod PGSIZE_def)
  have "g < g + 2 * PGSIZE" "qs \<noteq> []"
    using un ps(2) by (auto simp: word_less_nat_alt)
  from allocuvm_round [OF vm(1) [unfolded ps(1)] g(1) this(1) none(1) this(2), of g]
  obtain k1 qs1 where k1: "allocuvm_loop pg g g (g + 2 * PGSIZE) k = allocuvm_loop pg (g + PGSIZE) g (g + 2 * PGSIZE) k1"
      "vm_ok k1 qs1 pg" "length qs \<le> length qs1 + 1"
      "mapped k1 pg = (\<lambda>x. if PGROUNDDOWN x = g then Some (V2P p1 OR (PTE_W OR PTE_U OR PTE_P)) else mapped k pg x)"
    by (elim exE conjE) (rule that)
  obtain p2 qs2 where qs1: "qs1 = p2 # qs2"
    using k1(3) ps(2) by (cases qs1) auto
  then have qs2: "qs2 \<noteq> []"
    using k1(3) ps(2) by auto
  have pd: "PGROUNDDOWN (g + PGSIZE) = g + PGSIZE" "PGROUNDDOWN g = g" "g \<noteq> g + PGSIZE"
    using aligned_page(1) [OF al] aligned_page(1) [OF g(1)] by (simp_all add: PGSIZE_def)
  have "g + PGSIZE < g + 2 * PGSIZE" "mapped k1 pg (g + PGSIZE) = None"
    using un pd none(2) by (simp_all add: word_less_nat_alt k1(4))
  from allocuvm_round [OF k1(2) [unfolded qs1] al this qs2, of g]
  obtain k2 qs3 where k2: "allocuvm_loop pg (g + PGSIZE) g (g + 2 * PGSIZE) k1 = allocuvm_loop pg (g + PGSIZE + PGSIZE) g (g + 2 * PGSIZE) k2"
      "vm_ok k2 qs3 pg" "length qs2 \<le> length qs3 + 1" "p2 \<noteq> 0" "p2 mod PGSIZE = 0" "p2 \<noteq> pg" "\<forall>j < 1024. table k2 pg j \<noteq> Some p2"
      "mapped k2 pg = (\<lambda>x. if PGROUNDDOWN x = g + PGSIZE then Some (V2P p2 OR (PTE_W OR PTE_U OR PTE_P)) else mapped k1 pg x)"
    by (elim exE conjE) (rule that)
  let ?gp = "V2P p1 OR (PTE_W OR PTE_U OR PTE_P)"
  have run: "allocuvm pg g (g + 2 * PGSIZE) k = Some (g + 2 * PGSIZE, k2)"
  proof -
    have "\<not> KERNBASE \<le> g + 2 * PGSIZE" "\<not> g + 2 * PGSIZE < g"
      using un ug by (simp_all add: word_le_nat_alt word_less_nat_alt KERNBASE_def)
    moreover have "g + PGSIZE + PGSIZE = g + 2 * PGSIZE"
      by simp
    moreover have "allocuvm_loop pg (g + 2 * PGSIZE) g (g + 2 * PGSIZE) k2 = Some (g + 2 * PGSIZE, k2)"
      by (subst allocuvm_loop.simps) simp
    moreover have "PGROUNDUP g = g"
      using aligned_page(2) [OF g(1)] by (simp add: PGROUNDUP_def PGROUNDDOWN_def)
    ultimately show ?thesis
      by (simp only: allocuvm_def k1(1) k2(1) if_False)
  qed
  have gp: "mapped k2 pg g = Some ?gp"
    using pd k1(4) k2(8) by simp
  then obtain t where t: "table k2 pg (PDX g) = Some t" "get_pte k2 (t, PTX g) = ?gp"
    by (auto simp: mapped_table split: option.splits if_splits)
  let ?k = "set_pte (t, PTX g) (?gp AND NOT PTE_U) k2"
  note se = set_entry [OF k2(2) t(1) user_pte(2)]
  have c: "clearpteu pg g k2 = Some ?k"
    by (simp add: clearpteu_def walk_present [OF t(1)] t(2))
  have u: "user_page ?k pg (g + PGSIZE) p2"
  proof -
    have "mapped ?k pg (g + PGSIZE) = Some (V2P p2 OR (PTE_W OR PTE_U OR PTE_P))"
      using pd by (simp add: se(2) k2(8))
    then show ?thesis
      using al k2(4,6,7) user_pte(1) [of "V2P p2"] user_pte(4) [OF V2P_aligned [OF k2(5)]] by (simp add: user_page_def se(3))
  qed
  have "user_byte ?k pg x = None" if "PGROUNDDOWN x = g" for x
    using that user_pte(3) [of "V2P p1"] pd(2) by (simp add: user_byte_def se(2))
  then show ?thesis
    using that [OF run c u] by simp
qed

lemma PGROUNDUP_aligned: "PGROUNDUP z mod PGSIZE = 0"
proof -
  have "PGSIZE - 1 = mask 12"
    by (simp add: PGSIZE_def mask_eq_exp_minus_1)
  then show ?thesis
    unfolding low_bits_mod PGROUNDUP_def by (simp only:) (rule bit_word_eqI, simp add: bit_simps)
qed

lemma offset_aligned:
  assumes "va mod PGSIZE = 0" "4 dvd n" "unat va + n < 2 ^ 32"
  shows "unat (va + of_nat n) mod 4 = 0"
  using page_aligned_4 [OF assms(1)] assms(2) unat_of_nat_small [OF assms(3)] by (simp add: mod_eq_0_iff_dvd dvd_add)

lemma stack_room_aligned: "4 dvd stack_room argv"
proof -
  have "4 dvd sum_list (map arg_room argv)"
    by (induction argv) (simp_all add: arg_room_def)
  then show ?thesis
    by (simp add: stack_room_def)
qed

lemma stack_block_holds:
  assumes "user_page k pg va p" "stack_room argv \<le> 4096"
  defines "k' \<equiv> fill_page p (stack_block va argv (page k p)) k" and "n \<equiv> 4096 - stack_room argv"
  shows "user_holds k' pg (va + of_nat n) (concat (map word_bytes ([0xFFFFFFFF, of_nat (length argv), va + of_nat n + 12] @
      map (\<lambda>x. va + of_nat x) (arg_offs 4096 argv) @ [0])))"
    and "i < length argv \<Longrightarrow> user_holds k' pg (va + of_nat (arg_offs 4096 argv ! i)) (cbytes (argv ! i))"
proof -
  have u: "user_page k' pg va p"
    using assms(1) by (simp add: k'_def)
  let ?us = "[0xFFFFFFFF, of_nat (length argv), va + of_nat (n + 12)] @ map (\<lambda>x. va + of_nat x) (arg_offs 4096 argv) @ [0]"
  have b: "page k' p = write_bytes (args_page 4096 argv (page k p)) n (concat (map word_bytes ?us))"
    by (simp add: k'_def stack_block_def n_def Let_def)
  have len: "length (concat (map word_bytes ?us)) = 4 * (length argv + 4)"
    unfolding length_words by simp
  have n: "n + 4 * (length argv + 4) = 4096 - sum_list (map arg_room argv)"
    using assms(2) by (simp add: n_def stack_room_def)
  have "user_holds k' pg (va + of_nat n) (concat (map word_bytes ?us))"
    by (rule user_page_holds [OF u]) (use n in \<open>simp_all only: b len write_bytes_def, simp_all\<close>)
  then show "user_holds k' pg (va + of_nat n) (concat (map word_bytes ([0xFFFFFFFF, of_nat (length argv), va + of_nat n + 12] @
      map (\<lambda>x. va + of_nat x) (arg_offs 4096 argv) @ [0])))"
    by (simp add: add.assoc)
  assume i: "i < length argv"
  have "sum_list (map arg_room argv) \<le> 4096"
    using assms(2) by (simp add: stack_room_def)
  note o = arg_offs_bounds [OF this i] args_page_at [OF this i]
  show "user_holds k' pg (va + of_nat (arg_offs 4096 argv ! i)) (cbytes (argv ! i))"
    by (rule user_page_holds [OF u]) (use o n in \<open>simp_all only: b len write_bytes_def length_cbytes, simp_all\<close>)
qed

text \<open>
  C7: the arguments reach the program.  When the page directory is well formed, four pages are free and the arguments fit
  into one page, the second half of \<^verbatim>\<open>exec\<close> succeeds, and a program that starts at the stack pointer it returns finds there, in
  its own memory, the return address \<^verbatim>\<open>0xffffffff\<close>, the number of arguments, a pointer to the vector that follows,
  the vector ended by a zero, and behind each pointer of the vector the zero-terminated argument.  The stack pointer is
  a multiple of four, and the page below the stack is closed to the program.
\<close>

theorem exec_stack_args:
  assumes "vm_ok k ps pg" "4 \<le> length ps" "PGROUNDUP z < KERNBASE - 2 * PGSIZE"
    "mapped k pg (PGROUNDUP z) = None" "mapped k pg (PGROUNDUP z + PGSIZE) = None"
    "length argv \<le> MAXARG" "stack_room argv \<le> 4096"
  shows "\<exists>sp ptrs k'. build_stack pg z argv k = Some (Some (PGROUNDUP z + 2 * PGSIZE, sp), k') \<and>
    unat sp mod 4 = 0 \<and> length ptrs = length argv \<and>
    user_holds k' pg sp (concat (map word_bytes ([0xFFFFFFFF, of_nat (length argv), sp + 12] @ ptrs @ [0]))) \<and>
    (\<forall>i < length argv. user_holds k' pg (ptrs ! i) (cbytes (argv ! i))) \<and>
    (\<forall>x. PGROUNDDOWN x = PGROUNDUP z \<longrightarrow> user_byte k' pg x = None)"
proof -
  let ?g = "PGROUNDUP z" and ?n = "4096 - stack_room argv"
  let ?va = "?g + PGSIZE"
  obtain k1 k2 p where k: "allocuvm pg ?g (?g + 2 * PGSIZE) k = Some (?g + 2 * PGSIZE, k1)" "clearpteu pg ?g k1 = Some k2"
      "user_page k2 pg ?va p" "\<forall>x. PGROUNDDOWN x = ?g \<longrightarrow> user_byte k2 pg x = None"
    by (rule stack_pages [OF assms(1,2) PGROUNDUP_aligned assms(3-5)])
  let ?k = "fill_page p (stack_block ?va argv (page k2 p)) k2"
  have ug: "unat ?g + 8192 < 2 ^ 31"
    using assms(3) by (simp add: word_less_nat_alt KERNBASE_def PGSIZE_def)
  have uv: "unat ?va = unat ?g + 4096"
    using ug unat_of_nat_small [of "unat ?g + 4096"] by (simp add: PGSIZE_def)
  have ps: "push_stack pg argv (?va + PGSIZE) k2 = Some (Some (?va + of_nat ?n), ?k)"
    by (rule push_stack_run [OF k(3) _ assms(7,6)]) (use uv ug in simp)
  have "?g + 2 * PGSIZE \<noteq> 0"
    using ug unat_of_nat_small [of "unat ?g + 8192"] by (auto simp: PGSIZE_def)
  then have e: "?va + PGSIZE = ?g + 2 * PGSIZE" "?g + 2 * PGSIZE - 2 * PGSIZE = ?g" "?g + 2 * PGSIZE \<noteq> 0"
    by simp_all
  have run: "build_stack pg z argv k = Some (Some (?g + 2 * PGSIZE, ?va + of_nat ?n), ?k)"
    by (simp add: build_stack_def Let_def k e(3)) (simp add: e ps [unfolded e] k)
  have "user_byte ?k pg x = None" if "PGROUNDDOWN x = ?g" for x
    using k(4) that fill_page_mapped [of p pg k2] k(3) by (auto simp: user_page_def user_byte_def split: option.splits if_splits)
  moreover have "unat (?va + of_nat ?n) mod 4 = 0"
    using offset_aligned [of ?va ?n] k(3) stack_room_aligned [of argv] uv ug assms(7) by (simp add: user_page_def)
  ultimately show ?thesis
    using run stack_block_holds [OF k(3) assms(7)]
    by (intro exI [of _ "?va + of_nat ?n"] exI [of _ "map (\<lambda>x. ?va + of_nat x) (arg_offs 4096 argv)"] exI [of _ ?k]) simp
qed

text \<open>Four free pages and an empty page directory.\<close>

definition four_pages :: kmem where
  "four_pages = sample_kmem\<lparr>freelist := 0x80403000, page := (page sample_kmem)(0x80403000 := put32 (\<lambda>_. 1) 0 0x80400000)\<rparr>"

lemma four_pages_ok: "vm_ok four_pages [0x80403000, 0x80400000, 0x80402000, 0x80401000] 0x80600000"
  "table four_pages 0x80600000 i = None"
proof -
  show t: "table four_pages 0x80600000 i = None" for i
    by (simp add: table_def get_pte_def four_pages_def) (simp add: sample_kmem_def get32_def)
  show "vm_ok four_pages [0x80403000, 0x80400000, 0x80402000, 0x80401000] 0x80600000"
    by (simp add: vm_ok_def t)
      (simp add: kmem_ok_def four_pages_def sample_kmem_def valid_page_def PGSIZE_def V2P_def KERNBASE_def PHYSTOP_def)
qed

theorem exec_stack_args_witness:
  "\<exists>sp ptrs k'. build_stack 0x80600000 100 [''cat'', ''README''] four_pages = Some (Some (0x3000, sp), k') \<and>
     length ptrs = 2 \<and> user_holds k' 0x80600000 (ptrs ! 1) (cbytes ''README'')"
proof -
  have g: "PGROUNDUP 100 = 0x1000" "PGSIZE = 0x1000"
    by (simp_all add: PGROUNDUP_def PGSIZE_def)
  have m: "mapped four_pages 0x80600000 x = None" for x
    by (simp add: mapped_table four_pages_ok(2))
  let ?a = "[''cat'', ''README'']"
  have "PGROUNDUP 100 < KERNBASE - 2 * PGSIZE" "length ?a \<le> MAXARG" "stack_room ?a \<le> 4096"
    by (simp_all add: g KERNBASE_def MAXARG_def stack_room_def arg_room_def)
  note e = exec_stack_args [OF four_pages_ok(1) _ this(1) m m this(2,3)]
  obtain sp ptrs k' where "build_stack 0x80600000 100 ?a four_pages = Some (Some (PGROUNDUP 100 + 2 * PGSIZE, sp), k')"
      "length ptrs = length ?a" "\<forall>i < length ?a. user_holds k' 0x80600000 (ptrs ! i) (cbytes (?a ! i))"
    using e by auto
  moreover from this(3) have "user_holds k' 0x80600000 (ptrs ! 1) (cbytes ''README'')"
    by (drule_tac x = 1 in spec) simp
  ultimately show ?thesis
    by (intro exI [of _ sp] exI [of _ ptrs] exI [of _ k']) (simp add: g)
qed

section \<open>All or nothing\<close>

lemma push_args_count:
  "push_args pg argv sp ptrs k = Some (Some r, k') \<Longrightarrow> length ptrs \<le> MAXARG \<Longrightarrow> length ptrs + length argv \<le> MAXARG"
proof (induction argv arbitrary: sp ptrs k)
  case (Cons a argv)
  obtain q k1 where "push_args pg argv q (ptrs @ [q]) k1 = Some (Some r, k')" "length ptrs < MAXARG"
    using Cons.prems by (auto simp: Let_def bind_eq_Some_conv not_le split: if_splits)
  then show ?case
    using Cons.IH [of q "ptrs @ [q]" k1] by simp
qed simp

lemma build_stack_count:
  assumes "build_stack pg z argv k = Some (Some (z', sp), k')"
  shows "length argv \<le> MAXARG"
proof -
  obtain q k1 r k2 where "push_args pg argv q [] k1 = Some (Some r, k2)"
    using assms by (auto simp: build_stack_def push_stack_def Let_def bind_eq_Some_conv split: if_splits option.splits)
  then show ?thesis
    using push_args_count [of pg argv q "[]" k1 r k2] by simp
qed

lemma exec_commit_result:
  assumes "exec_commit path pg ent z sp p s = Some (r, s')"
  shows "r = 0 \<and> pg \<noteq> 0 \<and> nextpid s' = nextpid s \<and> initproc s' = initproc s \<and> ticks s' = ticks s \<and>
    procs s' = (procs s)(p := (procs s p)\<lparr>pgdir := pg, sz := z, pr_name := take 15 (last_elem path path),
      tf := (tf (procs s p))\<lparr>eip := ent, esp := sp\<rparr>\<rparr>)"
  using assms by (auto simp: exec_commit_def Let_def bind_eq_Some_conv set_km_def set_proc_def split: if_splits)

lemma exec_cases:
  assumes "exec dv path argv p s = Some (r, s')"
  obtains k where "r = -1" "s' = s\<lparr>kern := k\<rparr>"
  | pg z m ent z' sp m' k where "build_stack pg z argv m = Some (Some (z', sp), m')"
    "exec_commit path pg ent z' sp p (s\<lparr>kern := k\<rparr>) = Some (r, s')"
  using assms by (auto simp: exec_def Let_def bind_eq_Some_conv split: option.splits)

text \<open>
  C21: \<^verbatim>\<open>exec\<close> is all or nothing.  When it returns, either the result is -1 and no entry of the process table has changed, or
  the result is 0, at most \<^verbatim>\<open>MAXARG\<close> arguments were given, and only the calling process has changed, and of it
  only the page directory, the size, the name and the two registers that say where the program starts and where its stack is: it keeps its
  identifiers, user and effective user, open files, directory, parent and kernel stack.  In particular the user does not change.
\<close>

theorem exec_atomic:
  assumes "exec dv path argv p s = Some (r, s')"
  shows "nextpid s' = nextpid s \<and> initproc s' = initproc s \<and> ticks s' = ticks s \<and>
    (r = -1 \<and> procs s' = procs s \<or>
     r = 0 \<and> length argv \<le> MAXARG \<and> (\<exists>pg z start sp. pg \<noteq> 0 \<and>
       procs s' = (procs s)(p := (procs s p)\<lparr>pgdir := pg, sz := z, pr_name := take 15 (last_elem path path),
         tf := (tf (procs s p))\<lparr>eip := start, esp := sp\<rparr>\<rparr>)))"
  using assms
proof (cases rule: exec_cases)
  case (2 pg z m ent z' sp m' k)
  then show ?thesis
    using build_stack_count [OF 2(1)] exec_commit_result [OF 2(2)] by auto
qed simp

text \<open>The current directory as a path: its i-node is an empty file, which is not a program.\<close>

definition empty_file :: inode where
  "empty_file = \<lparr>i_dev = 1, inum = 5, iref = 1, ilk = initsleeplock, ivalid = True, i_uid = 0, i_gid = 0, i_mode = 0, i_type = T_FILE,
     major = 0, minor = 0, nlink = 1, i_size = 0, addrs = (\<lambda>_. 0)\<rparr>"

definition shell_state :: tstate where
  "shell_state = \<lparr>procs = (\<lambda>_. \<lparr>sz = 0, pgdir = 0, kstack = 0, pstatus = RUNNING, pid = 3, parent = None, tf = user_tf, chan = None,
       killed = False, pr_ofile = (\<lambda>_. None), pr_cwd = Some 0, pr_name = ''sh'', uid = 7, euid = 7\<rparr>),
     nextpid = 4, initproc = Some 1, ticks = 0, kdata = 0x80109000,
     kern = set_inode 0 empty_file (boot_proc (\<lambda>_ _. 0) (\<lambda>_. 0))\<rparr>"

lemma exec_empty_file: "\<exists>s'. exec no_drivers [] [''sh''] 0 shell_state = Some (-1, s')"
proof -
  have k: "committing (boot_proc d m) = False" "lh_n (boot_proc d m) = 0" "outstanding (boot_proc d m) = 1" "mypid (boot_proc d m) = 1" for d m
    by (simp_all add: boot_proc_def boot_fs_def boot_log_def binit_eq)
  have "skipelem [] = None"
    by (simp add: skipelem_def)
  then have n: "namex_loop dv [] False nm ip s = Some (Some ip, nm, s)" for dv nm ip and s :: pstate
    by (simp add: namex_loop.simps)
  show ?thesis
    by (simp add: exec_def shell_state_def begin_op_def set_inode_def k MAXOPBLOCKS_def LOGSIZE_def namei_def namex_def n idup_def ilock_def
        acquiresleep_def empty_file_def initsleeplock_def load_image_def readi_def T_DEV_def T_FILE_def readi_loop.simps as_int_def
        exec_bad_def iunlockput_def iunlock_def holdingsleep_def releasesleep_def iput_def end_op_def Let_def)
qed

theorem exec_atomic_witness:
  "\<exists>s'. exec no_drivers [] [''sh''] 0 shell_state = Some (-1, s') \<and> procs s' = procs shell_state"
proof -
  obtain s' where "exec no_drivers [] [''sh''] 0 shell_state = Some (-1, s')"
    using exec_empty_file by blast
  then show ?thesis
    using exec_atomic [of no_drivers "[]" "[''sh'']" 0 shell_state "-1" s'] by simp
qed

end
