(* ===== verification/Console.thy ===== *)
theory Console
  imports SysFile
begin

text \<open>
  \<^verbatim>\<open>src/kernel/console.c\<close>: the screen, the line editor of the keyboard and the console as a device, with the calls
  \<^verbatim>\<open>sys_echoOnOff\<close> and \<^verbatim>\<open>sys_clear\<close> of \<^verbatim>\<open>sysfile.c\<close>.  The text screen is an array of cells, the cursor is the value of the
  registers 14 and 15 of its controller, and \<open>serial\<close> is what \<^verbatim>\<open>uartputc\<close> has sent.  The characters that an interrupt delivers
  are bytes, as from \<^verbatim>\<open>kbdgetc\<close> and \<^verbatim>\<open>uartgetc\<close>.  The listing of processes that control-P asks for is only printed and is not modelled.
\<close>

definition INPUT_BUF :: uint where "INPUT_BUF = 128"
definition BACKSPACE :: int where "BACKSPACE = 0x100"
definition CONSOLE :: nat where "CONSOLE = 1"

record console =
  ibuf :: "nat \<Rightarrow> uchar"
  in_r :: uint
  in_w :: uint
  in_e :: uint
  crt :: "nat \<Rightarrow> ushort"
  cursor :: nat
  isPrintable :: bool
  serial :: "uchar list"

text \<open>The kernel with its console.\<close>

record constate = pstate +
  cons :: console

section \<open>Output\<close>

text \<open>\<^verbatim>\<open>memmove(crt, crt+80, ...)\<close> of 23 lines, and \<^verbatim>\<open>memset\<close> of the cells from \<open>pos\<close> to the end of line 24.\<close>

definition scroll_up :: "nat \<Rightarrow> (nat \<Rightarrow> ushort) \<Rightarrow> nat \<Rightarrow> ushort" where
  "scroll_up pos t = (\<lambda>i. if pos \<le> i \<and> i < 24 * 80 then 0 else if i < 23 * 80 then t (i + 80) else t i)"

text \<open>Where the cursor and the screen are after a character, before scrolling.\<close>

definition cga_char :: "int \<Rightarrow> int \<Rightarrow> (nat \<Rightarrow> ushort) \<Rightarrow> int \<times> (nat \<Rightarrow> ushort)" where
  "cga_char c pos t =
     (if c = 10 then (pos + (80 - pos mod 80), t)
      else if c = BACKSPACE then (if pos > 0 then pos - 1 else pos, t)
      else (pos + 1, t(nat pos := (of_int c AND 0xFF) OR 0x0700)))"

definition cgaputc :: "int \<Rightarrow> console \<Rightarrow> console option" where
  "cgaputc c s =
     (case cga_char c (int (cursor s)) (crt s) of (pos, t) \<Rightarrow>
        if pos < 0 \<or> pos > 25 * 80 then panic ''pos under/overflow''
        else
          let (pos, t) = (if pos div 80 \<ge> 24 then (pos - 80, scroll_up (nat (pos - 80)) t) else (pos, t))
          in Some (s\<lparr>cursor := nat pos, crt := t(nat pos := 0x20 OR 0x0700)\<rparr>))"

definition consputc :: "int \<Rightarrow> console \<Rightarrow> console option" where
  "consputc c s =
     (let s = s\<lparr>serial := serial s @ (if c = BACKSPACE then [8, 32, 8] else [of_int c])\<rparr> in
      if isPrintable s then cgaputc c s else Some s)"

section \<open>The line editor\<close>

text \<open>The loop of control-U; \<open>n\<close> bounds the characters that can be killed.\<close>

fun kill_line :: "nat \<Rightarrow> console \<Rightarrow> console option" where
  "kill_line 0 s = Some s"
| "kill_line (Suc n) s =
     (if in_e s \<noteq> in_w s \<and> ibuf s (unat ((in_e s - 1) mod INPUT_BUF)) \<noteq> 10 then do {
        s \<leftarrow> consputc BACKSPACE (s\<lparr>in_e := in_e s - 1\<rparr>);
        kill_line n s
      } else Some s)"

text \<open>One character of an interrupt.  Control-D, H, P and U are 4, 8, 16 and 21.\<close>

definition console_key :: "uchar \<Rightarrow> console \<Rightarrow> console option" where
  "console_key c s =
     (if c = 16 then Some s
      else if c = 21 then kill_line (unat (in_e s - in_w s)) s
      else if c = 8 \<or> c = 0x7F then
        (if in_e s \<noteq> in_w s then consputc BACKSPACE (s\<lparr>in_e := in_e s - 1\<rparr>) else Some s)
      else if c \<noteq> 0 \<and> in_e s - in_r s < INPUT_BUF then do {
        let c = (if c = 13 then 10 else c);
        s \<leftarrow> consputc (uint c) (s\<lparr>ibuf := (ibuf s)(unat (in_e s mod INPUT_BUF) := c), in_e := in_e s + 1\<rparr>);
        Some (if c = 10 \<or> c = 4 \<or> in_e s = in_r s + INPUT_BUF then s\<lparr>in_w := in_e s\<rparr> else s)
      }
      else Some s)"

definition consoleintr :: "uchar list \<Rightarrow> console \<Rightarrow> console option" where
  "consoleintr keys s = mfold console_key keys s"

section \<open>Reading and writing\<close>

text \<open>How the loop of \<^verbatim>\<open>consoleread\<close> stops, the bytes it has stored, and how many more it wanted.\<close>

fun consoleread_loop :: "bool \<Rightarrow> nat \<Rightarrow> nat \<Rightarrow> console \<Rightarrow> outcome \<times> uchar list \<times> nat \<times> console" where
  "consoleread_loop kld target 0 s = (Returned, [], 0, s)"
| "consoleread_loop kld target (Suc n) s =
     (if in_r s = in_w s then (if kld then Failed else Sleeping, [], Suc n, s)
      else
        let c = ibuf s (unat (in_r s mod INPUT_BUF)); s = s\<lparr>in_r := in_r s + 1\<rparr> in
        if c = 4 then (Returned, [], Suc n, if Suc n < target then s\<lparr>in_r := in_r s - 1\<rparr> else s)
        else if c = 10 then (Returned, [c], n, s)
        else (case consoleread_loop kld target n s of (out, cs, m, s) \<Rightarrow> (out, c # cs, m, s)))"

definition consoleread :: "nat \<Rightarrow> nat \<Rightarrow> constate \<Rightarrow> (int \<times> uchar list \<times> constate) option" where
  "consoleread ip n s = do {
     s \<leftarrow> iunlock (Some ip) s;
     (case consoleread_loop (p_killed s) n n (cons s) of
        (Returned, cs, m, c) \<Rightarrow> do { s \<leftarrow> ilock (Some ip) (s\<lparr>cons := c\<rparr>); Some (int n - int m, cs, s) }
      | (Failed, cs, m, c) \<Rightarrow> do { s \<leftarrow> ilock (Some ip) (s\<lparr>cons := c\<rparr>); Some (-1, cs, s) }
      | (Sleeping, _) \<Rightarrow> blocked ''consoleread'')
   }"

definition consolewrite :: "nat \<Rightarrow> uchar list \<Rightarrow> constate \<Rightarrow> (int \<times> constate) option" where
  "consolewrite ip buf s = do {
     s \<leftarrow> iunlock (Some ip) s;
     c \<leftarrow> mfold (\<lambda>b. consputc (uint b)) buf (cons s);
     s \<leftarrow> ilock (Some ip) (s\<lparr>cons := c\<rparr>);
     Some (int (length buf), s)
   }"

text \<open>The driver table that \<^verbatim>\<open>consoleinit\<close> fills.\<close>

definition consoleinit :: "constate devsw \<Rightarrow> constate devsw" where
  "consoleinit dv = dv\<lparr>dev_write := (dev_write dv)(CONSOLE := Some consolewrite),
     dev_read := (dev_read dv)(CONSOLE := Some consoleread)\<rparr>"

definition sys_echoOnOff :: "constate \<Rightarrow> constate" where
  "sys_echoOnOff s = s\<lparr>cons := (cons s)\<lparr>isPrintable := \<not> isPrintable (cons s)\<rparr>\<rparr>"

definition sys_clear :: "constate \<Rightarrow> constate" where
  "sys_clear s = s\<lparr>cons := (cons s)\<lparr>cursor := 0, crt := (\<lambda>i. if i < 24 * 80 then 0 else crt (cons s) i)\<rparr>\<rparr>"

section \<open>Well-formed consoles\<close>

text \<open>
  The buffer between the three indices: the bytes of finished lines that nobody has read, and the line that is being edited.
\<close>

definition window :: "(nat \<Rightarrow> uchar) \<Rightarrow> uint \<Rightarrow> nat \<Rightarrow> uchar list" where
  "window b r n = map (\<lambda>i. b (unat ((r + of_nat i) mod INPUT_BUF))) [0..<n]"

definition ready :: "console \<Rightarrow> uchar list" where
  "ready s = window (ibuf s) (in_r s) (unat (in_w s - in_r s))"

definition editing :: "console \<Rightarrow> uchar list" where
  "editing s = window (ibuf s) (in_w s) (unat (in_e s - in_w s))"

text \<open>
  The indices are in order and at most a turn of the ring apart, the line that is being edited has no end of line, and the
  cursor is on the first 24 lines of the screen.
\<close>

definition console_ok :: "console \<Rightarrow> bool" where
  "console_ok s \<longleftrightarrow> length (ready s) + length (editing s) \<le> 128 \<and> 10 \<notin> set (editing s) \<and> 4 \<notin> set (editing s) \<and>
     cursor s < 24 * 80"

lemma window_simps [simp]:
  "length (window b r n) = n" "window b r 0 = []"
  "window b r (Suc n) = window b r n @ [b (unat ((r + of_nat n) mod INPUT_BUF))]"
  by (simp_all add: window_def)

lemma window_Cons: "window b r (Suc n) = b (unat (r mod INPUT_BUF)) # window b (r + 1) n"
  by (simp add: window_def upt_conv_Cons map_Suc_upt [symmetric] add.assoc del: upt_Suc)

lemma window_append: "window b r (m + n) = window b r m @ window b (r + of_nat m) n"
  by (induction n) (simp_all add: add.assoc)

lemma window_other:
  assumes "n \<le> d" "d < 128"
  shows "window (b(unat ((r + of_nat d) mod INPUT_BUF) := c)) r n = window b r n"
proof -
  have "unat ((r + of_nat i) mod INPUT_BUF) \<noteq> unat ((r + of_nat d) mod INPUT_BUF)" if "i < n" for i
    using ring_slot_inj [of INPUT_BUF i d r] that assms by (auto simp: INPUT_BUF_def)
  then show ?thesis
    by (simp add: window_def)
qed

text \<open>Output moves the cursor and nothing that the line editor uses.\<close>

definition printed :: "console \<Rightarrow> console \<Rightarrow> bool" where
  "printed s s' \<longleftrightarrow> (\<exists>t n out. n < 24 * 80 \<and> s' = s\<lparr>crt := t, cursor := n, serial := out\<rparr>)"

lemma cga_char_bounds:
  assumes "0 \<le> pos" "pos < 24 * 80" "cga_char c pos t = (pos', t')"
  shows "0 \<le> pos' \<and> pos' \<le> 24 * 80"
proof -
  have "pos div 80 \<le> 23" "pos mod 80 < 80"
    using assms(2) by linarith+
  then have "0 \<le> pos + (80 - pos mod 80)" "pos + (80 - pos mod 80) \<le> 24 * 80"
    using div_mult_mod_eq [of pos 80] assms(1) by linarith+
  then show ?thesis
    using assms by (auto simp: cga_char_def split: if_splits)
qed

lemma cgaputc_printed:
  assumes "cursor s < 24 * 80"
  shows "ok (cgaputc c s) (\<lambda>s'. \<exists>t n. n < 24 * 80 \<and> s' = s\<lparr>crt := t, cursor := n\<rparr>)"
proof -
  obtain p t where pt: "cga_char c (int (cursor s)) (crt s) = (p, t)"
    by (cases "cga_char c (int (cursor s)) (crt s)")
  have p: "0 \<le> p" "p \<le> 24 * 80"
    using cga_char_bounds [OF _ _ pt] assms by simp_all
  have q: "\<exists>t n. n < 24 * 80 \<and> s\<lparr>cursor := nat p, crt := t'\<rparr> = s\<lparr>crt := t, cursor := n\<rparr>" if "p < 24 * 80" for p t'
    using that by (intro exI [of _ t'] exI [of _ "nat p"]) simp
  show ?thesis
  proof (cases "p div 80 \<ge> 24")
    case True
    then show ?thesis
      using p q [of "p - 80"] by (simp add: cgaputc_def pt Let_def)
  next
    case False
    then have "p < 24 * 80"
      by linarith
    with False show ?thesis
      using p q [of p] by (simp add: cgaputc_def pt Let_def)
  qed
qed

lemma consputc_printed:
  assumes "cursor s < 24 * 80"
  shows "ok (consputc c s) (printed s)"
proof -
  let ?s = "s\<lparr>serial := serial s @ (if c = BACKSPACE then [8, 32, 8] else [of_int c])\<rparr>"
  have p: "printed s (?s\<lparr>crt := t, cursor := n\<rparr>)" if "n < 24 * 80" for t n
    unfolding printed_def using that by (intro exI [of _ t] exI [of _ n] exI [of _ "serial ?s"]) simp
  show ?thesis
  proof (cases "isPrintable s")
    case True
    have "ok (cgaputc c ?s) (printed s)"
      using cgaputc_printed [of ?s c] assms p by (auto elim!: ok_mono)
    with True show ?thesis
      by (simp add: consputc_def Let_def)
  next
    case False
    then show ?thesis
      using p [of "cursor s" "crt s"] assms by (simp add: consputc_def Let_def)
  qed
qed

lemma printed_sel [simp]:
  assumes "printed s s'"
  shows "ibuf s' = ibuf s" "in_r s' = in_r s" "in_w s' = in_w s" "in_e s' = in_e s" "isPrintable s' = isPrintable s"
    "cursor s' < 24 * 80" "ready s' = ready s" "editing s' = editing s"
  using assms by (auto simp: printed_def ready_def editing_def)

section \<open>The line editor refines lists\<close>

definition lines :: "console \<Rightarrow> uchar list \<times> uchar list" where
  "lines s = (ready s, editing s)"

text \<open>
  What a character does to the finished lines and to the line that is being edited.  At most 128 bytes are held, and a full
  buffer ends the line.
\<close>

definition key_spec :: "uchar \<Rightarrow> uchar list \<times> uchar list \<Rightarrow> uchar list \<times> uchar list" where
  "key_spec c ls =
     (case ls of (rd, ed) \<Rightarrow>
        if c = 21 then (rd, [])
        else if c = 8 \<or> c = 0x7F then (rd, butlast ed)
        else if c = 0 \<or> c = 16 \<or> length rd + length ed = 128 then (rd, ed)
        else
          let ed = ed @ [if c = 13 then 10 else c] in
          if c \<in> {4, 10, 13} \<or> length rd + length ed = 128 then (rd @ ed, []) else (rd, ed))"

lemma length_lines: "length (ready s) = unat (in_w s - in_r s)" "length (editing s) = unat (in_e s - in_w s)"
  by (simp_all add: ready_def editing_def)

lemma window_lines: "window (ibuf s) (in_r s) (length (ready s)) = ready s" "window (ibuf s) (in_w s) (length (editing s)) = editing s"
  by (simp_all add: ready_def editing_def)

lemma distance:
  assumes "length (ready s) + length (editing s) \<le> 128"
  shows "unat (in_e s - in_r s) = length (ready s) + length (editing s)" "in_w s = in_r s + of_nat (length (ready s))"
    "in_e s = in_w s + of_nat (length (editing s))" "in_e s = in_r s + of_nat (length (ready s) + length (editing s))"
proof -
  show e: "in_w s = in_r s + of_nat (length (ready s))" "in_e s = in_w s + of_nat (length (editing s))"
    by (simp_all add: length_lines)
  then show d: "in_e s = in_r s + of_nat (length (ready s) + length (editing s))"
    by simp
  have "unat (of_nat (length (ready s) + length (editing s)) :: uint) = length (ready s) + length (editing s)"
    using assms by (intro unat_of_nat_small) simp
  then show "unat (in_e s - in_r s) = length (ready s) + length (editing s)"
    using d by (metis add_diff_cancel_left')
qed

lemma edit_last:
  assumes "in_e s \<noteq> in_w s"
  shows "editing s = editing (s\<lparr>in_e := in_e s - 1\<rparr>) @ [ibuf s (unat ((in_e s - 1) mod INPUT_BUF))]"
proof -
  have n: "unat (in_e s - in_w s) = Suc (unat (in_e s - 1 - in_w s))"
    using unat_diff_step [OF assms] assms unat_gt_0 [of "in_e s - in_w s"] by (simp add: diff_diff_eq add.commute)
  show ?thesis
    unfolding editing_def n by simp
qed

text \<open>Erasing the last character of the line.\<close>

lemma erase_ok:
  assumes "console_ok s" "in_e s \<noteq> in_w s"
  shows "ok (consputc c (s\<lparr>in_e := in_e s - 1\<rparr>)) (\<lambda>s'. console_ok s' \<and> ready s' = ready s \<and> editing s' = butlast (editing s))"
proof -
  let ?s = "s\<lparr>in_e := in_e s - 1\<rparr>"
  have ed: "editing s = editing ?s @ [ibuf s (unat ((in_e s - 1) mod INPUT_BUF))]"
    by (rule edit_last [OF assms(2)])
  have r: "ready ?s = ready s"
    by (simp add: ready_def)
  have "ok (consputc c ?s) (printed ?s)"
    by (rule consputc_printed) (use assms(1) in \<open>simp add: console_ok_def\<close>)
  then show ?thesis
  proof (rule ok_mono)
    fix s'
    assume p: "printed ?s s'"
    have len: "length (editing s) = Suc (length (editing ?s))"
      by (subst ed) simp
    show "console_ok s' \<and> ready s' = ready s \<and> editing s' = butlast (editing s)"
      using assms(1) len p printed_sel(6) [OF p] by (simp add: console_ok_def r ed)
  qed
qed

lemma kill_line_ok:
  assumes "console_ok s" "n = length (editing s)"
  shows "ok (kill_line n s) (\<lambda>s'. console_ok s' \<and> ready s' = ready s \<and> editing s' = [])"
  using assms
proof (induction n arbitrary: s)
  case (Suc n)
  then have ne: "in_e s \<noteq> in_w s"
    by (auto simp: length_lines)
  have "ibuf s (unat ((in_e s - 1) mod INPUT_BUF)) \<in> set (editing s)"
    by (subst edit_last [OF ne]) simp
  then have "ibuf s (unat ((in_e s - 1) mod INPUT_BUF)) \<noteq> 10"
    using Suc.prems(1) by (auto simp: console_ok_def)
  moreover have "ok (consputc BACKSPACE (s\<lparr>in_e := in_e s - 1\<rparr>))
      (\<lambda>t. ok (kill_line n t) (\<lambda>s'. console_ok s' \<and> ready s' = ready s \<and> editing s' = []))"
    using erase_ok [OF Suc.prems(1) ne]
  proof (rule ok_mono)
    fix t
    assume t: "console_ok t \<and> ready t = ready s \<and> editing t = butlast (editing s)"
    have "n = length (editing t)"
      using t Suc.prems(2) by simp
    with t show "ok (kill_line n t) (\<lambda>s'. console_ok s' \<and> ready s' = ready s \<and> editing s' = [])"
      using Suc.IH [of t] by simp
  qed
  ultimately show ?case
    using ne by (simp add: ok_bind)
qed simp

text \<open>A character typed into a buffer with room, before the line is ended.\<close>

lemma type_char:
  fixes c :: uchar
  assumes "length (ready s) + length (editing s) < 128"
  defines "t \<equiv> s\<lparr>ibuf := (ibuf s)(unat (in_e s mod INPUT_BUF) := c), in_e := in_e s + 1\<rparr>"
  shows "ready t = ready s" "editing t = editing s @ [c]"
proof -
  note d = distance [OF less_imp_le [OF assms(1)]]
  let ?a = "length (ready s)" and ?b = "length (editing s)"
  have r: "ready t = window (ibuf t) (in_r s) ?a"
    by (simp add: t_def ready_def)
  have "in_e s + 1 - in_w s = of_nat (Suc ?b)"
    using d(3) by (simp add: algebra_simps)
  moreover have "unat (of_nat (Suc ?b) :: uint) = Suc ?b"
    using assms(1) by (intro unat_of_nat_small) simp
  ultimately have "unat (in_e s + 1 - in_w s) = Suc ?b"
    by (simp only:)
  then have e: "editing t = window (ibuf t) (in_w s) (Suc ?b)"
    by (simp add: t_def editing_def)
  have b: "ibuf t = (ibuf s)(unat ((in_r s + of_nat (?a + ?b)) mod INPUT_BUF) := c)"
    "ibuf t = (ibuf s)(unat ((in_w s + of_nat ?b) mod INPUT_BUF) := c)"
    unfolding d(4) [symmetric] d(3) [symmetric] by (simp_all add: t_def)
  show "ready t = ready s"
    unfolding r b(1) window_other [OF le_add1 assms(1)] by (rule window_lines)
  have "?b < 128"
    using assms(1) by simp
  then show "editing t = editing s @ [c]"
    unfolding e b(2) window_simps window_other [OF order_refl \<open>?b < 128\<close>] window_lines by (simp only: fun_upd_same)
qed

text \<open>Ending the line.\<close>

lemma end_line:
  "editing (s\<lparr>in_w := in_e s\<rparr>) = []"
  "length (ready s) + length (editing s) \<le> 128 \<Longrightarrow> ready (s\<lparr>in_w := in_e s\<rparr>) = ready s @ editing s"
proof -
  show "editing (s\<lparr>in_w := in_e s\<rparr>) = []"
    by (simp add: editing_def)
  assume "length (ready s) + length (editing s) \<le> 128"
  note d = distance [OF this]
  have "ready (s\<lparr>in_w := in_e s\<rparr>) = window (ibuf s) (in_r s) (length (ready s) + length (editing s))"
    unfolding d(1) [symmetric] by (simp add: ready_def)
  also have "\<dots> = window (ibuf s) (in_r s) (length (ready s)) @ window (ibuf s) (in_w s) (length (editing s))"
    unfolding window_append d(2) [symmetric] ..
  also have "\<dots> = ready s @ editing s"
    unfolding window_lines ..
  finally show "ready (s\<lparr>in_w := in_e s\<rparr>) = ready s @ editing s" .
qed

lemma full_buffer:
  assumes "length (ready s) + length (editing s) \<le> 128"
  shows "in_e s = in_r s + INPUT_BUF \<longleftrightarrow> length (ready s) + length (editing s) = 128"
    "in_e s - in_r s < INPUT_BUF \<longleftrightarrow> length (ready s) + length (editing s) < 128"
proof -
  note d = distance [OF assms]
  show "in_e s - in_r s < INPUT_BUF \<longleftrightarrow> length (ready s) + length (editing s) < 128"
    unfolding word_less_nat_alt d(1) by (simp add: INPUT_BUF_def)
  have "in_e s = in_r s + INPUT_BUF \<longleftrightarrow> in_e s - in_r s = INPUT_BUF"
    by (auto simp: algebra_simps)
  also have "\<dots> \<longleftrightarrow> length (ready s) + length (editing s) = 128"
    unfolding word_unat_eq_iff d(1) by (simp add: INPUT_BUF_def)
  finally show "in_e s = in_r s + INPUT_BUF \<longleftrightarrow> length (ready s) + length (editing s) = 128" .
qed

lemma console_key_char:
  assumes "console_ok s" "length (ready s) + length (editing s) < 128" "c \<notin> {0, 8, 16, 21, 0x7F}"
  shows "ok (console_key c s) (\<lambda>s'. console_ok s' \<and> lines s' = key_spec c (lines s))"
proof -
  let ?c = "if c = 13 then 10 else c"
  let ?t = "s\<lparr>ibuf := (ibuf s)(unat (in_e s mod INPUT_BUF) := ?c), in_e := in_e s + 1\<rparr>"
  note t = type_char [OF assms(2), of ?c]
  have run: "console_key c s = do {
      u \<leftarrow> consputc (uint ?c) ?t;
      Some (if ?c = 10 \<or> ?c = 4 \<or> in_e u = in_r u + INPUT_BUF then u\<lparr>in_w := in_e u\<rparr> else u) }"
    using assms(2,3) full_buffer(2) [OF less_imp_le [OF assms(2)]] by (simp add: console_key_def Let_def)
  have "ok (consputc (uint ?c) ?t) (printed ?t)"
    by (rule consputc_printed) (use assms(1) in \<open>simp add: console_ok_def\<close>)
  then show ?thesis
    unfolding run ok_bind ok_Some
  proof (rule ok_mono)
    fix u
    assume p: "printed ?t u"
    have u: "ready u = ready s" "editing u = editing s @ [?c]" "cursor u < 24 * 80"
      using p t by (simp_all only: printed_sel)
    then have len: "length (ready u) + length (editing u) \<le> 128"
      using assms(2) by simp
    note f = full_buffer(1) [OF len] and e = end_line(2) [OF len] and c = u(3)
    show "console_ok (if ?c = 10 \<or> ?c = 4 \<or> in_e u = in_r u + INPUT_BUF then u\<lparr>in_w := in_e u\<rparr> else u) \<and>
      lines (if ?c = 10 \<or> ?c = 4 \<or> in_e u = in_r u + INPUT_BUF then u\<lparr>in_w := in_e u\<rparr> else u) = key_spec c (lines s)"
    proof (cases "?c = 10 \<or> ?c = 4 \<or> in_e u = in_r u + INPUT_BUF")
      case True
      then show ?thesis
        using assms(2,3) c f u by (auto simp: console_ok_def lines_def e end_line(1) key_spec_def Let_def split: if_splits)
    next
      case False
      then show ?thesis
        using assms c f u by (auto simp: console_ok_def lines_def key_spec_def Let_def split: if_splits)
    qed
  qed
qed

lemma console_key_ok:
  assumes "console_ok s"
  shows "ok (console_key c s) (\<lambda>s'. console_ok s' \<and> lines s' = key_spec c (lines s))"
proof -
  have len: "length (ready s) + length (editing s) \<le> 128"
    using assms by (simp add: console_ok_def)
  consider "c = 21" | "c = 8 \<or> c = 0x7F" "in_e s \<noteq> in_w s" | "c = 8 \<or> c = 0x7F" "in_e s = in_w s"
    | "c = 0 \<or> c = 16 \<or> length (ready s) + length (editing s) = 128" "c \<notin> {8, 21, 0x7F}"
    | "length (ready s) + length (editing s) < 128" "c \<notin> {0, 8, 16, 21, 0x7F}"
    using len by fastforce
  then show ?thesis
  proof cases
    case 1
    then show ?thesis
      using kill_line_ok [OF assms refl] by (auto simp: console_key_def length_lines lines_def key_spec_def elim!: ok_mono)
  next
    case 2
    then show ?thesis
      using erase_ok [OF assms 2(2), of BACKSPACE] by (auto simp: console_key_def lines_def key_spec_def elim!: ok_mono)
  next
    case 3
    then have "editing s = []"
      by (simp add: editing_def)
    with 3 show ?thesis
      using assms by (auto simp: console_key_def lines_def key_spec_def)
  next
    case 4
    then show ?thesis
      using assms full_buffer(2) [OF len] by (auto simp: console_key_def lines_def key_spec_def)
  next
    case 5
    then show ?thesis
      by (rule console_key_char [OF assms])
  qed
qed

section \<open>Reading takes a line\<close>

text \<open>
  What a reader of \<open>n\<close> bytes takes from the finished lines: at most the rest of one line with its newline.  Control-D ends
  a line too, but is not part of it; it stays in the buffer unless it is the first byte and nothing was read before (\<open>later\<close>).
\<close>

definition read_spec :: "bool \<Rightarrow> bool \<Rightarrow> nat \<Rightarrow> uchar list \<Rightarrow> outcome \<times> uchar list \<times> nat \<times> uchar list" where
  "read_spec kld later n rd =
     (let l = takeWhile (\<lambda>c. c \<notin> {4, 10}) rd; k = length l in
      if n \<le> k then (Returned, take n rd, 0, drop n rd)
      else if k = length rd then (if kld then Failed else Sleeping, rd, n - k, [])
      else if rd ! k = 10 then (Returned, l @ [10], n - k - 1, drop (k + 1) rd)
      else (Returned, l, n - k, if l = [] \<and> \<not> later then tl rd else drop k rd))"

lemma read_spec_simps:
  "read_spec kld later 0 rd = (Returned, [], 0, rd)"
  "read_spec kld later (Suc n) [] = (if kld then Failed else Sleeping, [], Suc n, [])"
  "read_spec kld later (Suc n) (4 # rd) = (Returned, [], Suc n, if later then 4 # rd else rd)"
  "read_spec kld later (Suc n) (10 # rd) = (Returned, [10], n, rd)"
  "c \<noteq> 4 \<Longrightarrow> c \<noteq> 10 \<Longrightarrow> read_spec kld later (Suc n) (c # rd) =
     (case read_spec kld True n rd of (out, cs, m, rest) \<Rightarrow> (out, c # cs, m, rest))"
  by (simp_all add: read_spec_def Let_def)

lemma ready_Cons:
  assumes "console_ok s" "in_r s \<noteq> in_w s"
  defines "t \<equiv> s\<lparr>in_r := in_r s + 1\<rparr>"
  shows "ready s = ibuf s (unat (in_r s mod INPUT_BUF)) # ready t" "editing t = editing s" "console_ok t"
proof -
  have "unat (in_w s - in_r s) = Suc (unat (in_w s - (in_r s + 1)))"
    using unat_diff_step [of "in_w s" "in_r s"] assms(2) unat_gt_0 [of "in_w s - in_r s"] by simp
  then show r: "ready s = ibuf s (unat (in_r s mod INPUT_BUF)) # ready t"
    by (simp add: ready_def t_def window_Cons del: window_simps)
  show e: "editing t = editing s"
    by (simp add: editing_def t_def)
  show "console_ok t"
    using assms(1) r e by (simp add: console_ok_def) (simp add: t_def)
qed

lemma consoleread_loop_ok:
  assumes "console_ok s" "n \<le> target" "consoleread_loop kld target n s = (out, cs, m, s')"
  shows "read_spec kld (n < target) n (ready s) = (out, cs, m, ready s') \<and> editing s' = editing s \<and> console_ok s'"
  using assms
proof (induction n arbitrary: s cs)
  case 0
  then show ?case
    by (simp add: read_spec_simps)
next
  case (Suc n)
  show ?case
  proof (cases "in_r s = in_w s")
    case True
    then have "ready s = []"
      by (simp add: ready_def)
    with True show ?thesis
      using Suc.prems by (auto simp: read_spec_simps)
  next
    case False
    let ?c = "ibuf s (unat (in_r s mod INPUT_BUF))" and ?t = "s\<lparr>in_r := in_r s + 1\<rparr>"
    note rc = ready_Cons [OF Suc.prems(1) False]
    consider "?c = 4" | "?c = 10" | "?c \<noteq> 4" "?c \<noteq> 10"
      by blast
    then show ?thesis
    proof cases
      case 1
      then show ?thesis
        using Suc.prems False rc by (auto simp: read_spec_simps split: if_splits)
    next
      case 2
      then show ?thesis
        using Suc.prems False rc by (auto simp: read_spec_simps)
    next
      case 3
      obtain ds where "consoleread_loop kld target n ?t = (out, ds, m, s')" "cs = ?c # ds"
        using Suc.prems(3) False 3 by (auto simp: Let_def split: prod.splits)
      then show ?thesis
        using Suc.IH [OF rc(3)] Suc.prems(2) rc(1,2) 3 by (simp add: read_spec_simps)
    qed
  qed
qed

section \<open>Histories of the console\<close>

text \<open>
  What interrupts, writers, readers and the two calls can make of the console of a booted machine.  A reader that sleeps
  goes on later with the bytes that it still wants, \<open>n\<close> of \<open>target\<close>.
\<close>

inductive console_run :: "console \<Rightarrow> bool" where
  boot: "in_r s = 0 \<Longrightarrow> in_w s = 0 \<Longrightarrow> in_e s = 0 \<Longrightarrow> cursor s < 24 * 80 \<Longrightarrow> console_run s"
| key: "console_run s \<Longrightarrow> console_key c s = Some s' \<Longrightarrow> console_run s'"
| put: "console_run s \<Longrightarrow> consputc c s = Some s' \<Longrightarrow> console_run s'"
| read: "console_run s \<Longrightarrow> n \<le> target \<Longrightarrow> consoleread_loop kld target n s = (out, cs, m, s') \<Longrightarrow> console_run s'"
| echo: "console_run (cons t) \<Longrightarrow> console_run (cons (sys_echoOnOff t))"
| clear: "console_run (cons t) \<Longrightarrow> console_run (cons (sys_clear t))"

lemma console_run_ok: "console_run s \<Longrightarrow> console_ok s"
proof (induction rule: console_run.induct)
  case (boot s)
  then show ?case
    by (simp add: console_ok_def ready_def editing_def)
next
  case (key s c s')
  then show ?case
    using console_key_ok [of s c] by simp
next
  case (put s c s')
  then have "printed s s'"
    using consputc_printed [of s c] by (simp add: console_ok_def)
  then show ?case
    using put.IH printed_sel(6) [of s s'] by (simp add: console_ok_def)
next
  case (read s n target kld out cs m s')
  then show ?case
    using consoleread_loop_ok [of s n target] by simp
qed (simp_all add: console_ok_def sys_echoOnOff_def sys_clear_def ready_def editing_def)

lemma consoleintr_ok:
  assumes "console_run s"
  shows "ok (consoleintr keys s) (\<lambda>s'. console_run s' \<and> lines s' = fold key_spec keys (lines s))"
  unfolding consoleintr_def using assms
proof (induction keys arbitrary: s)
  case (Cons c keys)
  have "ok (console_key c s) (\<lambda>t. console_run t \<and> lines t = key_spec c (lines s))"
    using console_key_ok [OF console_run_ok [OF Cons.prems], of c] console_run.key [OF Cons.prems] by (auto simp: ok_iff)
  then show ?case
    using Cons.IH by (fastforce simp: ok_iff)
qed simp

text \<open>
  C24: the console is well typed.  In every history of interrupts, reads, writes, changes of the echo and clearing of the
  screen, the three indices of the input buffer stay in order and at most 128 apart although they wrap around, the line that is being edited
  contains no end of line, and the cursor stays on the first 24 lines; therefore no character, typed or
  printed, makes the kernel panic over the cursor position.
\<close>

theorem console_typed:
  assumes "console_run s"
  shows "console_ok s \<and> console_key c s \<noteq> None \<and> consputc d s \<noteq> None"
proof -
  have "console_ok s"
    by (rule console_run_ok [OF assms])
  then show ?thesis
    using console_key_ok [of s c] consputc_printed [of s d] by (auto simp: ok_iff console_ok_def)
qed

definition boot_console :: console where
  "boot_console = \<lparr>ibuf = (\<lambda>_. 0), in_r = 0, in_w = 0, in_e = 0, crt = (\<lambda>_. 0), cursor = 24 * 80 - 1, isPrintable = True, serial = []\<rparr>"

lemma boot_console_run: "console_run boot_console"
  by (rule console_run.boot) (simp_all add: boot_console_def)

theorem console_typed_witness:
  "console_key 13 boot_console \<noteq> None \<and> consputc 10 boot_console \<noteq> None"
  using console_typed [OF boot_console_run, of 13 10] by simp

text \<open>
  C9: the line discipline.  Seen as the list of finished bytes and the list of bytes of the current line, the ring buffer does
  with each typed character what the editing rules say: control-U clears the current line, backspace removes its last byte, a
  carriage return becomes a newline, newline, control-D or a full buffer finish the line, and a character that finds the buffer
  full is dropped.  A reader that wants \<open>n\<close> more of \<open>target\<close> bytes, at its start or after it has slept, gets at most
  the rest of one finished line in the order in which it was typed, never a part of the current line; control-D ends its read
  without being stored, and is kept for the next reader if this one has already got bytes.
\<close>

theorem console_lines:
  assumes "console_run s" "n \<le> target"
  shows "ok (consoleintr keys s) (\<lambda>s'. lines s' = fold key_spec keys (lines s)) \<and>
    (case consoleread_loop kld target n s of (out, cs, m, s') \<Rightarrow>
       read_spec kld (n < target) n (ready s) = (out, cs, m, ready s') \<and> editing s' = editing s)"
proof -
  have "ok (consoleintr keys s) (\<lambda>s'. lines s' = fold key_spec keys (lines s))"
    using consoleintr_ok [OF assms(1)] by (rule ok_mono) simp
  then show ?thesis
    using consoleread_loop_ok [OF console_run_ok [OF assms(1)] assms(2)] by (simp split: prod.split)
qed

theorem console_lines_witness:
  "\<exists>s s' s''. consoleintr [104, 105, 8, 13, 120, 4] boot_console = Some s \<and>
     consoleread_loop False 5 5 s = (Returned, [104, 10], 3, s') \<and> ready s' = [120, 4] \<and>
     consoleread_loop False 5 3 s' = (Returned, [120], 2, s'') \<and> ready s'' = [4]"
proof -
  have l: "lines boot_console = ([], [])"
    by (simp add: lines_def ready_def editing_def boot_console_def)
  obtain s where s: "consoleintr [104, 105, 8, 13, 120, 4] boot_console = Some s" "console_run s"
      "lines s = fold key_spec [104, 105, 8, 13, 120, 4] ([], [])"
    using consoleintr_ok [OF boot_console_run, of "[104, 105, 8, 13, 120, 4]"] l by (auto simp: ok_iff)
  have rd: "ready s = [104, 10, 120, 4]"
    using s(3) by (simp_all add: lines_def key_spec_def)
  obtain s' where s': "consoleread_loop False 5 5 s = (Returned, [104, 10], 3, s')" "ready s' = [120, 4]"
    using console_lines [OF s(2), of 5 5 "[]" False] by (auto simp: rd read_spec_def split: prod.splits)
  have "console_run s'"
    by (rule console_run.read [OF s(2) order_refl s'(1)])
  from console_lines [OF this, of 3 5 "[]" False] obtain s'' where
    "consoleread_loop False 5 3 s' = (Returned, [120], 2, s'')" "ready s'' = [4]"
    by (auto simp: s'(2) read_spec_def split: prod.splits)
  then show ?thesis
    using s(1) s' by blast
qed

text \<open>The console is reached through the driver table, by reading an i-node of the device.\<close>

lemma readi_console:
  assumes "i_type (icache s ip) = T_DEV" "major (icache s ip) = 1"
  shows "readi (consoleinit dv) ip off n s = consoleread ip n s" "writei (consoleinit dv) ip buf off s = consolewrite ip buf s"
  using assms by (simp_all add: readi_def writei_def consoleinit_def CONSOLE_def NDEV_def Let_def)

end
