(* ===== verification/Spec2Isabelle.thy ===== *)
theory Spec2Isabelle
  imports KString GroupFile Permissions Grep InodeDisk Spinlock ProcInv Exec Console
begin

text \<open>
  A verification library for xv6 with users and groups.  The program is a small Unix: a kernel (\<^verbatim>\<open>src/kernel\<close>), user programs
  linked with a library of account routines (\<^verbatim>\<open>src/user\<close>), and a tool that builds the disk image (\<^verbatim>\<open>src/tools\<close>).  Its own
  addition to xv6 are user and group ids, file modes and owners, and the account files \<^verbatim>\<open>/etc/passwd\<close> and \<^verbatim>\<open>/etc/group\<close>.

  \<^bold>\<open>Conventions.\<close>  A kernel function is a HOL function on a record of the state it changes, named as in the source.  A call
  that does not return (a panic, undefined behaviour of C, or a wait for another processor or process) is the value
  \<^verbatim>\<open>None\<close>, written \<open>panic\<close>, \<open>undefined_behaviour\<close> or \<open>blocked\<close> (\<open>Prelude\<close>).  Machine integers are words where wrap-around
  matters, and \<^verbatim>\<open>int\<close> or \<^verbatim>\<open>nat\<close> where the code stays in range by construction.  Error codes are the negative integers of the
  source.  Loops that may not end are \<^verbatim>\<open>partial_function (option)\<close>, so that no fuel is needed; loops over a table are folds
  over its indices.  Device drivers, reached through \<^verbatim>\<open>devsw\<close>, are a parameter.

  \<^bold>\<open>Kernel, bottom up.\<close>  Each layer extends the record of the layer below.
  \<^item> \<open>KString\<close>: \<^verbatim>\<open>string.c\<close> over a flat memory.  \<^verbatim>\<open>memmove\<close> copies the old bytes under any overlap, \<^verbatim>\<open>safestrcpy\<close> terminates,
    \<^verbatim>\<open>strncmp\<close> and \<^verbatim>\<open>strlen\<close> agree with lists of characters.
  \<^item> \<open>Disk\<close>, \<open>Bio\<close>: blocks with little-endian fields, \<^verbatim>\<open>memide.c\<close>, \<^verbatim>\<open>sleeplock.c\<close> and the buffer cache of \<^verbatim>\<open>bio.c\<close>, with the
    invariant of its list of buffers.
  \<^item> \<open>Log\<close>, \<open>Tx\<close>: the write-ahead log of \<^verbatim>\<open>log.c\<close>.  A crash at any disk write of a commit followed by recovery gives all of the
    transaction or nothing of it.  \<open>Tx\<close> is the interface of a running transaction that the layers above use.
  \<^item> \<open>Blocks\<close>, \<open>Inode\<close>, \<open>InodeDisk\<close>, \<open>Dir\<close>: the functions of \<^verbatim>\<open>fs.c\<close>, from the free map through i-nodes and file contents to
    directories and paths.  Allocation takes the lowest free block; the i-node cache holds each i-node once and counts its
    references; \<^verbatim>\<open>iupdate\<close> and \<^verbatim>\<open>ilock\<close> are inverse; the path walk is a fold over the components.
  \<^item> \<open>Kalloc\<close>, \<open>Vm\<close>: physical pages (\<^verbatim>\<open>kalloc.c\<close>) and page tables (\<^verbatim>\<open>vm.c\<close>), both in the same memory of pages.  The free list
    stays a chain of different pages, and mapping a page changes the translation of exactly the addresses of that page.
  \<^item> \<open>Pipe\<close>: the ring buffer of \<^verbatim>\<open>pipe.c\<close> refines a queue of bytes, through all histories of reads, writes and closes.
  \<^item> \<open>SysArgs\<close>, \<open>File\<close>, \<open>Frames\<close>, \<open>SysFile\<close>: fetching of arguments (\<^verbatim>\<open>syscall.c\<close>), open files (\<^verbatim>\<open>file.c\<close>), and the calls of
    \<^verbatim>\<open>sysfile.c\<close> with the permission checks.  \<open>Frames\<close> proves once what the file system leaves alone.  Reference counts of
    open files equal the number of descriptors, \<^verbatim>\<open>open\<close> returns the lowest free descriptor, and in the
    modes that are checked a process of another user than root gets one only if the directory grants it.
  \<^item> \<open>Spinlock\<close>: \<^verbatim>\<open>spinlock.c\<close>, cut into atomic steps; mutual exclusion and interrupt nesting in every interleaving.
  \<^item> \<open>Proc\<close>, \<open>SysProc\<close>, \<open>ProcInv\<close>: the process table of \<^verbatim>\<open>proc.c\<close>, the calls of \<^verbatim>\<open>sysproc.c\<close>, and the transition system they
    form.  Waiting parents are not forgotten, and only the superuser's processes change their identity.
  \<^item> \<open>Exec\<close>: \<^verbatim>\<open>exec.c\<close> with \<^verbatim>\<open>loaduvm\<close> and \<^verbatim>\<open>sys_exec\<close>, from the ELF headers to the switch to the new image.  The call changes
    the process as a whole or not at all, and the new program finds its arguments in its own memory at its stack pointer.
  \<^item> \<open>Console\<close>: the screen and the line editor of \<^verbatim>\<open>console.c\<close>, installed as a driver in the table that \<open>Inode\<close> takes as a parameter.
    The ring of input refines an editor on lists; the cursor never leaves the screen.

  \<^bold>\<open>User space.\<close>
  \<^item> \<open>ULib\<close>: numbers, strings and the tokenizer of \<^verbatim>\<open>ulib.c\<close>.  \<open>USys\<close>: the contract of the system calls that the account
    library makes, over files as strings.  \<open>Nodes\<close>: linked lists on a heap, with the locale that a node type provides.
  \<^item> \<open>Users\<close>, \<open>Passwd\<close>: \<^verbatim>\<open>userhandler.c\<close> on \<^verbatim>\<open>/etc/passwd\<close>: parsing and printing are inverse, login accepts exactly the listed
    pairs of name and password, and updates rewrite the file as meant.
  \<^item> \<open>UGroups\<close>, \<open>GroupFile\<close>: \<^verbatim>\<open>grouphandler.c\<close> and the functions of \<^verbatim>\<open>userhandler.c\<close> on groups.  Parsing and printing of
    \<^verbatim>\<open>/etc/group\<close> are inverse; the creation of users is described on every branch, and the removal of members does what it should except in the cases the lemmas name,
    among them that a node of one user linked into two lists of members joins their tails.
  \<^item> \<open>Permissions\<close>: \<^verbatim>\<open>permisionhandler.c\<close>: symbolic and octal modes, and the mode that \<^verbatim>\<open>ls\<close> prints, agree.
  \<^item> \<open>Grep\<close>: the matcher of \<^verbatim>\<open>grep.c\<close> ends and decides the language of the pattern, and \<^verbatim>\<open>grep\<close> writes the matching lines.

  \<^bold>\<open>Bounds.\<close>  Recursions over a table run over its indices (\<^verbatim>\<open>NPROC\<close>, \<^verbatim>\<open>NOFILE\<close>, \<^verbatim>\<open>NFILE\<close>, \<^verbatim>\<open>NINODE\<close>, \<^verbatim>\<open>NBUF\<close>), as in the code.  The only
  bound that is not in the code is that of \<open>kill_line\<close> in \<open>Console\<close>, the number of characters between the two indices its
  loop compares, after which they are equal.

  \<^bold>\<open>Not modelled.\<close>  Assembly, boot code and the drivers of interrupt controllers, timer, keyboard, serial line and IDE disk are
  hardware access.  The context switch is not modelled: a process that gives up the processor is a step of \<open>ProcInv\<close>.  Trap and system
  call dispatch only select one of the modelled handlers.  Locks of kernel
  tables are left out where one call runs at a time (all theories but \<open>Spinlock\<close> and the transition systems); there a wakeup of
  sleepers on a pipe, the console or a sleep lock changes no state of the model and is left out too, as are the messages of
  \<^verbatim>\<open>cprintf\<close>.  Of user
  space, the shell, \<^verbatim>\<open>umalloc.c\<close>, \<^verbatim>\<open>printf.c\<close> and the main functions of the programs are left out, as is the
  image builder \<^verbatim>\<open>mkfs.c\<close>, which runs on the build machine; \<^verbatim>\<open>malloc\<close> is a supply of fresh nodes in the account library.
\<close>

end
